(* ===== verification/Kernel_Prelude.thy ===== *)
theory Kernel_Prelude
  imports Main "HOL-Library.Word" "HOL-Library.Monad_Syntax" "HOL-Library.Signed_Division"
begin

text \<open>
  Shared vocabulary of the development: the machine integer types of the kernel, the
  macros of \<^verbatim>\<open>include/kernel/base.h\<close> that the components use (\<open>align\<close>,
  \<open>align_down\<close>, \<open>is_aligned\<close>, \<open>is_pow2\<close>), the page sizes, checked array accesses and assertions
  in the option monad, and the generic lemmas on lists and words.

  Outcomes. A kernel function that may stop in \<open>kassert\<close> or \<open>panic\<close>, or whose C text has
  undefined behaviour on the given arguments (an access outside an array, a shift by the
  width of the type or more), is modelled with result type \<open>'a option\<close>: \<open>None\<close> is the
  stop, \<open>Some\<close> the normal return. Error codes (\<open>-1\<close>, \<open>NULL\<close>, \<open>-EINVAL\<close>) are ordinary
  results and stay values.
\<close>

unbundle bit_operations_syntax

section \<open>Types\<close>

type_synonym u8 = "8 word"
type_synonym u16 = "16 word"
type_synonym u32 = "32 word"
type_synonym u64 = "64 word"

named_theorems kernel_simps \<open>rewrite rules for the option monad and checked accesses\<close>
named_theorems word_bits \<open>bit-level facts of 64-bit words\<close>

section \<open>Definitions\<close>

definition kassert :: "bool \<Rightarrow> unit option" where
  "kassert b = (if b then Some () else None)"

text \<open>Array accesses: outside the array the C access is undefined.\<close>

definition load :: "'a list \<Rightarrow> int \<Rightarrow> 'a option" where
  "load xs i = (if 0 \<le> i \<and> nat i < length xs then Some (xs ! nat i) else None)"

definition store :: "'a list \<Rightarrow> int \<Rightarrow> 'a \<Rightarrow> 'a list option" where
  "store xs i v = (if 0 \<le> i \<and> nat i < length xs then Some (xs[nat i := v]) else None)"

text \<open>Shifts of 64-bit operands: undefined from 64 on.\<close>

definition shl64 :: "u64 \<Rightarrow> nat \<Rightarrow> u64 option" where
  "shl64 x n = (if n < 64 then Some (push_bit n x) else None)"

definition shr64 :: "u64 \<Rightarrow> nat \<Rightarrow> u64 option" where
  "shr64 x n = (if n < 64 then Some (drop_bit n x) else None)"

text \<open>The alignment macros of \<^verbatim>\<open>base.h\<close>, on 64-bit unsigned operands.\<close>

definition align_up :: "u64 \<Rightarrow> u64 \<Rightarrow> u64" where
  "align_up v a = v + ((a - v) AND (a - 1))"

definition align_down :: "u64 \<Rightarrow> u64 \<Rightarrow> u64" where
  "align_down v a = v AND NOT (a - 1)"

definition is_aligned :: "u64 \<Rightarrow> u64 \<Rightarrow> bool" where
  "is_aligned v a \<longleftrightarrow> v AND (a - 1) = 0"

definition is_pow2 :: "u64 \<Rightarrow> bool" where
  "is_pow2 v \<longleftrightarrow> v AND (v - 1) = 0"

text \<open>Page sizes and the conversions between sizes and numbers of 4K pages of \<^verbatim>\<open>mm_types.h\<close>.\<close>

definition PAGE_SIZE :: u64 where "PAGE_SIZE = 0x1000"
definition PAGE_SIZE_2MB :: u64 where "PAGE_SIZE_2MB = 0x200000"
definition PAGE_SIZE_1GB :: u64 where "PAGE_SIZE_1GB = 0x40000000"
definition BIGPAGE_SIZE :: u64 where "BIGPAGE_SIZE = 0x200000"
definition HUGEPAGE_SIZE :: u64 where "HUGEPAGE_SIZE = 0x40000000"

definition SIZE_TO_PAGES :: "u64 \<Rightarrow> u64" where
  "SIZE_TO_PAGES sz = drop_bit 12 sz + (if sz AND 0xFFF \<noteq> 0 then 1 else 0)"

definition PAGES_TO_SIZE :: "u64 \<Rightarrow> u64" where
  "PAGES_TO_SIZE pages = push_bit 12 pages"

section \<open>The option monad\<close>

lemma kassert_bind [simp, kernel_simps]:
  "(kassert b \<bind> f) = (if b then f () else None)"
  by (simp add: kassert_def)

lemma kassert_Some [simp, kernel_simps]: "kassert b = Some u \<longleftrightarrow> b"
  by (simp add: kassert_def)

lemma load_Some [kernel_simps]: "load xs i = Some v \<longleftrightarrow> 0 \<le> i \<and> nat i < length xs \<and> v = xs ! nat i"
  by (auto simp: load_def)

lemma store_Some [kernel_simps]:
  "store xs i v = Some ys \<longleftrightarrow> 0 \<le> i \<and> nat i < length xs \<and> ys = xs[nat i := v]"
  by (auto simp: store_def)

lemma load_int [simp]: "i < length xs \<Longrightarrow> load xs (int i) = Some (xs ! i)"
  by (simp add: load_def)

lemma store_int [simp]: "i < length xs \<Longrightarrow> store xs (int i) v = Some (xs[i := v])"
  by (simp add: store_def)

lemma unat_inject [simp]: "unat x = unat y \<longleftrightarrow> x = y"
  by (simp add: word_unat_eq_iff)

lemma load_uint [simp]: "unat i < length xs \<Longrightarrow> load xs (uint i) = Some (xs ! unat i)"
  using load_int [of "unat i" xs] by simp

lemma store_uint [simp]: "unat i < length xs \<Longrightarrow> store xs (uint i) v = Some (xs[unat i := v])"
  using store_int [of "unat i" xs] by simp

lemma shl64_small [simp]: "n < 64 \<Longrightarrow> shl64 x n = Some (push_bit n x)"
  by (simp add: shl64_def)

lemma shr64_small [simp]: "n < 64 \<Longrightarrow> shr64 x n = Some (drop_bit n x)"
  by (simp add: shr64_def)

section \<open>Signed division by positive constants\<close>

lemma sdiv_nonneg [simp]: "0 \<le> a \<Longrightarrow> 0 < b \<Longrightarrow> (a :: int) sdiv b = a div b"
  by (cases "a = 0") (auto simp: signed_divide_int_def sgn_if)

lemma smod_nonneg [simp]: "0 \<le> a \<Longrightarrow> 0 < b \<Longrightarrow> (a :: int) smod b = a mod b"
  by (cases "a = 0") (auto simp: signed_modulo_int_def sgn_if)

section \<open>Masks and alignment\<close>

lemma or_and_self: "(a OR b) AND b = (b :: 'a::len word)"
  by (rule bit_word_eqI) (auto simp: bit_and_iff bit_or_iff)

lemma and_not_and: "(a AND NOT b) AND b = (0 :: 'a::len word)"
  by (rule bit_word_eqI) (auto simp: bit_and_iff bit_not_iff)

lemma exp_minus_1_eq_mask: "(2 ^ k :: 'a::len word) - 1 = mask k"
  by (simp add: mask_eq_decr_exp)

lemma unat_and_mask: "unat ((x :: 'a::len word) AND mask k) = unat x mod 2 ^ k"
  by (simp only: take_bit_eq_mask [symmetric] unsigned_take_bit_eq) (simp only: take_bit_eq_mod)

lemma and_not_eq_diff: "(v :: 'a::len word) AND NOT m = v - (v AND m)"
  by (simp add: bit.conj_disj_distrib disjunctive_diff_eq_and_not word_bw_comms(1) word_bw_lcs(1))

lemma unat_exp64: "k < 64 \<Longrightarrow> unat (2 ^ k :: u64) = 2 ^ k"
  using power_strict_increasing [of k 64 "2::nat"] by (intro of_nat_inverse) simp_all

lemma exp_dvd_exp64: "k < 64 \<Longrightarrow> (2 ^ k :: nat) dvd 2 ^ 64"
  by (rule le_imp_power_dvd) simp

lemma is_aligned_pow2: "is_aligned v (2 ^ k) \<longleftrightarrow> unat v mod 2 ^ k = 0"
  by (metis is_aligned_def exp_minus_1_eq_mask unat_and_mask unat_eq_zero)

lemma unat_pad_less: "unat ((x :: u64) AND (2 ^ k - 1)) < 2 ^ k"
  by (simp add: exp_minus_1_eq_mask unat_and_mask)

lemma unat_pad_mod:
  assumes "k < 64"
  shows "(unat v + unat ((2 ^ k - v :: u64) AND (2 ^ k - 1))) mod 2 ^ k = 0"
proof -
  let ?x = "2 ^ k - v :: u64"
  have "unat (v + ?x) = (unat v + unat ?x) mod 2 ^ 64"
    by (simp only: unat_word_ariths) simp
  then have "(unat v + unat ?x) mod 2 ^ 64 = 2 ^ k"
    using assms by (simp add: unat_exp64)
  then have "(unat v + unat ?x) mod 2 ^ 64 mod 2 ^ k = 0" by simp
  then have "(unat v + unat ?x) mod 2 ^ k = 0"
    using assms by (simp only: mod_mod_cancel [OF exp_dvd_exp64])
  then show ?thesis
    by (simp add: exp_minus_1_eq_mask unat_and_mask mod_add_right_eq)
qed

text \<open>
  The macro \<open>align\<close> rounds up to the next multiple of a power of two, whenever the
  rounded value fits in 64 bits.
\<close>

lemma align_up_pow2:
  assumes "k < 64" and "unat v + (2 ^ k - 1) < 2 ^ 64"
  shows align_up_ge: "unat v \<le> unat (align_up v (2 ^ k))"
    and align_up_less: "unat (align_up v (2 ^ k)) < unat v + 2 ^ k"
    and align_up_mod: "unat (align_up v (2 ^ k)) mod 2 ^ k = 0"
proof -
  let ?p = "unat ((2 ^ k - v :: u64) AND (2 ^ k - 1))"
  have p: "?p < 2 ^ k" by (rule unat_pad_less)
  have e: "unat (align_up v (2 ^ k)) = unat v + ?p"
    unfolding align_up_def using p assms(2)
    by (subst unat_add_lem [THEN iffD1]) auto
  show "unat v \<le> unat (align_up v (2 ^ k))" using e by simp
  show "unat (align_up v (2 ^ k)) < unat v + 2 ^ k" using e p by simp
  show "unat (align_up v (2 ^ k)) mod 2 ^ k = 0"
    using unat_pad_mod [OF assms(1)] by (simp only: e)
qed

lemma align_down_pow2: "unat (align_down v (2 ^ k)) = unat v - unat v mod 2 ^ k"
proof -
  have "v AND NOT (2 ^ k - 1) = v - (v AND (2 ^ k - 1))"
    by (rule and_not_eq_diff)
  moreover have "v AND (2 ^ k - 1) \<le> v" by (rule word_and_le2)
  ultimately show ?thesis
    by (simp add: align_down_def unat_sub exp_minus_1_eq_mask unat_and_mask)
qed

lemma align_up_unat:
  assumes "k < 64" and "unat v + (2 ^ k - 1) < 2 ^ 64"
  shows "unat (align_up v (2 ^ k)) = (unat v + (2 ^ k - 1)) div 2 ^ k * 2 ^ k"
proof -
  let ?x = "unat (align_up v (2 ^ k))"
  obtain q where q: "?x = q * 2 ^ k" using align_up_mod [OF assms] by (metis mod_0_imp_dvd dvd_def mult.commute)
  have "unat v + (2 ^ k - 1) = q * 2 ^ k + (unat v + (2 ^ k - 1) - q * 2 ^ k)"
    "unat v + (2 ^ k - 1) - q * 2 ^ k < 2 ^ k"
    using align_up_ge [OF assms] align_up_less [OF assms] unfolding q by (auto simp: less_diff_conv2)
  then have "(unat v + (2 ^ k - 1)) div 2 ^ k = q"
    by (metis div_mult_self3 div_less add_cancel_left_right power_not_zero zero_neq_numeral)
  then show ?thesis by (simp add: q)
qed

end
