(* ===== verification/Interfaces.thy ===== *)
theory Interfaces
  imports Kernel_Prelude
begin

text \<open>
  The contracts one component of the kernel relies on and another provides. Each locale fixes
  the operations a client calls and assumes the laws it needs; its lemmas are the client-side
  reasoning, proved once. The providing theory interprets the locale on its own operations.
\<close>

section \<open>Allocators of small identifiers\<close>

text \<open>
  \<open>alloc_list alloc n s\<close> asks for \<open>n\<close> identifiers in a row and stops at the first failure.
\<close>

primrec alloc_list :: "('s \<Rightarrow> (nat \<times> 's) option) \<Rightarrow> nat \<Rightarrow> 's \<Rightarrow> (nat list \<times> 's) option" where
  "alloc_list alloc 0 s = Some ([], s)"
| "alloc_list alloc (Suc n) s = do {
     (i, s1) \<leftarrow> alloc s;
     (is, s2) \<leftarrow> alloc_list alloc n s1;
     Some (i # is, s2) }"

text \<open>
  File descriptors and physical frames are numbered by such an allocator: an allocation returns
  the smallest identifier not in use, a release makes one available again.
\<close>

locale id_allocator =
  fixes inv :: "'s \<Rightarrow> bool"
    and used :: "'s \<Rightarrow> nat set"
    and limit :: "'s \<Rightarrow> nat"
    and alloc :: "'s \<Rightarrow> (nat \<times> 's) option"
    and release :: "nat \<Rightarrow> 's \<Rightarrow> 's"
  assumes alloc_inv: "inv s \<Longrightarrow> alloc s = Some (i, s') \<Longrightarrow> inv s' \<and> limit s' = limit s"
    and alloc_fresh: "inv s \<Longrightarrow> alloc s = Some (i, s') \<Longrightarrow> i < limit s \<and> i \<notin> used s"
    and alloc_least: "inv s \<Longrightarrow> alloc s = Some (i, s') \<Longrightarrow> j < i \<Longrightarrow> j \<in> used s"
    and alloc_used: "inv s \<Longrightarrow> alloc s = Some (i, s') \<Longrightarrow> used s' = insert i (used s)"
    and release_inv: "inv s \<Longrightarrow> i < limit s \<Longrightarrow> inv (release i s) \<and> limit (release i s) = limit s"
    and release_used: "inv s \<Longrightarrow> i < limit s \<Longrightarrow> used (release i s) = used s - {i}"
begin

lemma alloc_list_fresh:
  assumes "inv s" "alloc_list alloc n s = Some (is, s')"
  shows "length is = n \<and> distinct is \<and> set is \<inter> used s = {} \<and> set is \<subseteq> {..<limit s} \<and>
    used s' = used s \<union> set is \<and> inv s' \<and> limit s' = limit s"
  using assms
proof (induction n arbitrary: s "is")
  case (Suc n)
  then obtain i s1 js where step: "alloc s = Some (i, s1)"
    "alloc_list alloc n s1 = Some (js, s')" "is = i # js"
    by (auto split: bind_splits prod.splits)
  from Suc.IH [OF _ step(2)] alloc_inv [OF Suc.prems(1) step(1)]
    alloc_fresh [OF Suc.prems(1) step(1)] alloc_used [OF Suc.prems(1) step(1)]
  show ?case by (auto simp: step(3))
qed simp

lemma release_alloc_used:
  assumes "inv s" "alloc s = Some (i, s')"
  shows "used (release i s') = used s"
  using alloc_inv [OF assms] alloc_fresh [OF assms] alloc_used [OF assms] release_used [of s' i]
  by auto

text \<open>After a release the next allocation is no higher, and hands out nothing still in use.\<close>

lemma alloc_after_release:
  assumes "inv s" "i \<in> used s" "i < limit s" "alloc (release i s) = Some (j, s')"
  shows "j \<le> i \<and> (j \<in> used s \<longrightarrow> j = i)"
proof -
  have inv: "inv (release i s)" and u: "used (release i s) = used s - {i}"
    using release_inv [OF assms(1,3)] release_used [OF assms(1,3)] by auto
  have "j \<notin> used s - {i}" using alloc_fresh [OF inv assms(4)] u by simp
  moreover have "\<not> i < j" using alloc_least [OF inv assms(4), of i] u by auto
  ultimately show ?thesis by auto
qed

end

section \<open>Queues that drop the oldest entry when full\<close>

text \<open>
  A run of a queue: \<open>Put x\<close> and \<open>Get\<close> in sequence. The output lists the values that left the
  queue, \<open>Taken\<close> by a reader or \<open>Dropped\<close> to make room.
\<close>

datatype 'a queue_op = Put 'a | Get

datatype 'a queue_out = Taken (out_val: 'a) | Dropped (out_val: 'a)

fun queue_run :: "('a \<Rightarrow> 's \<Rightarrow> 'a option \<times> 's) \<Rightarrow> ('s \<Rightarrow> ('a \<times> 's) option) \<Rightarrow>
    'a queue_op list \<Rightarrow> 's \<Rightarrow> 'a queue_out list \<times> 's" where
  "queue_run put get [] s = ([], s)"
| "queue_run put get (Put x # ops) s = (case put x s of (d, s1) \<Rightarrow>
     case queue_run put get ops s1 of (out, s2) \<Rightarrow>
       ((case d of None \<Rightarrow> out | Some y \<Rightarrow> Dropped y # out), s2))"
| "queue_run put get (Get # ops) s = (case get s of
     None \<Rightarrow> queue_run put get ops s
   | Some (x, s1) \<Rightarrow> (case queue_run put get ops s1 of (out, s2) \<Rightarrow> (Taken x # out, s2)))"

fun puts_of :: "'a queue_op list \<Rightarrow> 'a list" where
  "puts_of [] = []"
| "puts_of (Put x # ops) = x # puts_of ops"
| "puts_of (Get # ops) = puts_of ops"

locale dropping_queue =
  fixes inv :: "'s \<Rightarrow> bool"
    and items :: "'s \<Rightarrow> 'a list"
    and put :: "'a \<Rightarrow> 's \<Rightarrow> 'a option \<times> 's"
    and get :: "'s \<Rightarrow> ('a \<times> 's) option"
  assumes put_inv: "inv s \<Longrightarrow> put x s = (d, s') \<Longrightarrow> inv s'"
    and put_room: "inv s \<Longrightarrow> put x s = (None, s') \<Longrightarrow> items s' = items s @ [x]"
    and put_full: "inv s \<Longrightarrow> put x s = (Some y, s') \<Longrightarrow> y # items s' = items s @ [x]"
    and get_empty: "inv s \<Longrightarrow> get s = None \<longleftrightarrow> items s = []"
    and get_first: "inv s \<Longrightarrow> get s = Some (y, s') \<Longrightarrow> inv s' \<and> items s = y # items s'"
begin

text \<open>Values leave in the order in which they were put, and none is lost or duplicated.\<close>

lemma queue_run_fifo:
  "inv s \<Longrightarrow> queue_run put get ops s = (out, s') \<Longrightarrow>
    inv s' \<and> map out_val out @ items s' = items s @ puts_of ops"
proof (induction ops arbitrary: s out)
  case (Cons q ops)
  show ?case
  proof (cases q)
    case (Put x)
    obtain d s1 where p: "put x s = (d, s1)" by (cases "put x s")
    obtain out1 where r: "queue_run put get ops s1 = (out1, s')"
      "out = (case d of None \<Rightarrow> out1 | Some y \<Rightarrow> Dropped y # out1)"
      using Cons.prems(2) p Put by (auto split: prod.splits)
    have inv1: "inv s1" and ih: "inv s'" "map out_val out1 @ items s' = items s1 @ puts_of ops"
      using put_inv [OF Cons.prems(1) p] Cons.IH [OF _ r(1)] by auto
    show ?thesis
    proof (cases d)
      case None
      then show ?thesis using put_room [OF Cons.prems(1)] p ih r(2) Put by simp
    next
      case (Some y)
      have "y # items s1 = items s @ [x]" using put_full [OF Cons.prems(1)] p Some by simp
      then have "(y # items s1) @ puts_of ops = (items s @ [x]) @ puts_of ops" by simp
      then show ?thesis using ih r(2) Put Some by simp
    qed
  next
    case Get
    show ?thesis
    proof (cases "get s")
      case None
      then show ?thesis using Cons Get by simp
    next
      case (Some a)
      then obtain y s1 where g: "get s = Some (y, s1)" by (cases a) simp
      then obtain out1 where r: "queue_run put get ops s1 = (out1, s')" "out = Taken y # out1"
        using Cons.prems(2) Get by (auto split: prod.splits)
      then show ?thesis using get_first [OF Cons.prems(1) g] Cons.IH [OF _ r(1)] Get by simp
    qed
  qed
qed simp

end

section \<open>Stores with keys\<close>

text \<open>
  A store with a value for every valid key, where keys that are the same as far as the store is
  concerned share one value. \<open>put_all\<close> stores a list of values one after the other.
\<close>

primrec put_all :: "('k \<Rightarrow> 'v \<Rightarrow> 's \<Rightarrow> 's option) \<Rightarrow> ('k \<times> 'v) list \<Rightarrow> 's \<Rightarrow> 's option" where
  "put_all put [] s = Some s"
| "put_all put (e # es) s = do { s1 \<leftarrow> put (fst e) (snd e) s; put_all put es s1 }"

locale keyed_store =
  fixes inv :: "'s \<Rightarrow> bool"
    and valid :: "'s \<Rightarrow> 'k \<Rightarrow> bool"
    and same_key :: "'k \<Rightarrow> 'k \<Rightarrow> bool"
    and find_key :: "'s \<Rightarrow> 'k \<Rightarrow> 'v"
    and put :: "'k \<Rightarrow> 'v \<Rightarrow> 's \<Rightarrow> 's option"
  assumes put_ok: "inv s \<Longrightarrow> valid s k \<Longrightarrow> \<exists>s'. put k v s = Some s' \<and> inv s' \<and> valid s' = valid s"
    and put_find: "inv s \<Longrightarrow> valid s k \<Longrightarrow> valid s j \<Longrightarrow> put k v s = Some s' \<Longrightarrow>
      find_key s' j = (if same_key j k then v else find_key s j)"
begin

text \<open>Storing a list of values always succeeds, and the last value stored for a key is the one found.\<close>

lemma put_all_find:
  "inv s \<Longrightarrow> \<forall>e \<in> set es. valid s (fst e) \<Longrightarrow>
    \<exists>s'. put_all put es s = Some s' \<and> inv s' \<and> valid s' = valid s \<and>
      (\<forall>j. valid s j \<longrightarrow> find_key s' j = fold (\<lambda>e x. if same_key j (fst e) then snd e else x) es (find_key s j))"
proof (induction es arbitrary: s)
  case (Cons e es)
  then have k: "valid s (fst e)" by simp
  from put_ok [OF Cons.prems(1) k] obtain s1 where
    p: "put (fst e) (snd e) s = Some s1" "inv s1" "valid s1 = valid s" by blast
  from Cons.IH [OF p(2)] Cons.prems(2) p(3) obtain s' where
    r: "put_all put es s1 = Some s'" "inv s'" "valid s' = valid s"
      "\<forall>j. valid s j \<longrightarrow> find_key s' j = fold (\<lambda>e x. if same_key j (fst e) then snd e else x) es (find_key s1 j)" by auto
  with p put_find [OF Cons.prems(1) k _ p(1)] show ?case by simp
qed simp

end

end
