(* ===== verification/Bitmap.thy ===== *)
theory Bitmap
  imports Interfaces
begin

text \<open>
  The bitmap library \<^verbatim>\<open>lib/bitmap.c\<close> over the bit instructions of
  \<^verbatim>\<open>lib/asm/bits.asm\<close>. The kernel allocates physical frames and file descriptors with
  it. A bitmap is the array of 64-bit words with the byte size and the two counters of
  the C struct; signed indices are integers, counters are 64-bit words and wrap.
\<close>

section \<open>Bit instructions\<close>

definition MAX_NUM :: u64 where "MAX_NUM = 0xFFFFFFFFFFFFFFFF"

text \<open>\<open>bt\<close>, \<open>bts\<close> and \<open>btr\<close> on a 64-bit register take the bit number modulo 64.\<close>

definition bt64 :: "u64 \<Rightarrow> u8 \<Rightarrow> bool" where
  "bt64 qw b = bit qw (unat b mod 64)"

definition bts64 :: "u64 \<Rightarrow> u8 \<Rightarrow> bool \<times> u64" where
  "bts64 qw b = (bit qw (unat b mod 64), set_bit (unat b mod 64) qw)"

definition btr64 :: "u64 \<Rightarrow> u8 \<Rightarrow> bool \<times> u64" where
  "btr64 qw b = (bit qw (unat b mod 64), unset_bit (unat b mod 64) qw)"

text \<open>\<open>bsf\<close>: the lowest set bit; the destination is undefined for a zero operand.\<close>

definition bsf64 :: "u64 \<Rightarrow> nat option" where
  "bsf64 qw = find (bit qw) [0..<64]"

definition popcnt64 :: "u64 \<Rightarrow> nat" where
  "popcnt64 qw = length (filter (bit qw) [0..<64])"

section \<open>The bitmap and its operations\<close>

record bitmap =
  bm_map :: "u64 list"
  bm_size :: u64
  bm_free :: u64
  bm_used :: u64

definition bitmap_init :: "u64 \<Rightarrow> bitmap option" where
  "bitmap_init n = (let na = align_up n 64; bytes = na div 8 in do {
     kassert (bytes \<le> 524288);
     Some \<lparr>bm_map = replicate (unat bytes div 8) 0, bm_size = bytes, bm_free = n, bm_used = 0\<rparr> })"

definition create_bitmap :: "u64 \<Rightarrow> bitmap option" where
  "create_bitmap n = bitmap_init n"

definition clone_bitmap :: "bitmap \<Rightarrow> bitmap" where
  "clone_bitmap bmp = \<lparr>bm_map = take (unat (bm_size bmp) div 8) (bm_map bmp),
     bm_size = bm_size bmp, bm_free = bm_free bmp, bm_used = bm_used bmp\<rparr>"

definition bitmap_free :: "bitmap \<Rightarrow> bitmap" where
  "bitmap_free bmp = bmp\<lparr>bm_map := [], bm_size := 0, bm_used := 0, bm_free := 0\<rparr>"

text \<open>
  The range assertion compares the signed index with an unsigned sum, so the index is
  converted to an unsigned value first.
\<close>

definition index_in_range :: "bitmap \<Rightarrow> int \<Rightarrow> bool" where
  "index_in_range bmp index \<longleftrightarrow> (word_of_int index :: u64) < bm_used bmp + bm_free bmp"

definition bitmap_get :: "bitmap \<Rightarrow> int \<Rightarrow> bool option" where
  "bitmap_get bmp index = do {
     kassert (index_in_range bmp index);
     qw \<leftarrow> load (bm_map bmp) (index sdiv 64);
     Some (bt64 qw (word_of_int (index smod 64))) }"

definition bitmap_set :: "bitmap \<Rightarrow> int \<Rightarrow> (bool \<times> bitmap) option" where
  "bitmap_set bmp index = do {
     kassert (index_in_range bmp index);
     qw \<leftarrow> load (bm_map bmp) (index sdiv 64);
     let r = bts64 qw (word_of_int (index smod 64));
     m \<leftarrow> store (bm_map bmp) (index sdiv 64) (snd r);
     Some (fst r, bmp\<lparr>bm_map := m, bm_used := bm_used bmp + 1, bm_free := bm_free bmp - 1\<rparr>) }"

definition bitmap_clear :: "bitmap \<Rightarrow> int \<Rightarrow> (bool \<times> bitmap) option" where
  "bitmap_clear bmp index = do {
     kassert (index_in_range bmp index);
     qw \<leftarrow> load (bm_map bmp) (index sdiv 64);
     let r = btr64 qw (word_of_int (index smod 64));
     m \<leftarrow> store (bm_map bmp) (index sdiv 64) (snd r);
     let result = (of_bool (fst r) :: u64);
     Some (fst r, bmp\<lparr>bm_map := m, bm_used := bm_used bmp - result,
                      bm_free := bm_free bmp + result\<rparr>) }"

text \<open>
  In \<open>bitmap_assign\<close> the result is computed as \<open>(value ^ -v) + v\<close> in \<open>int\<close> and
  stored in a \<open>uint8_t\<close>.
\<close>

definition assign_result :: "bool \<Rightarrow> bool \<Rightarrow> u8" where
  "assign_result value v = word_of_int ((of_bool value XOR - of_bool v) + of_bool v)"

definition bitmap_assign :: "bitmap \<Rightarrow> int \<Rightarrow> bool \<Rightarrow> (bool \<times> bitmap) option" where
  "bitmap_assign bmp index v = do {
     kassert (index_in_range bmp index);
     qw \<leftarrow> load (bm_map bmp) (index sdiv 64);
     let r = (if v then bts64 qw (word_of_int (index smod 64))
              else btr64 qw (word_of_int (index smod 64)));
     m \<leftarrow> store (bm_map bmp) (index sdiv 64) (snd r);
     let result = assign_result (fst r) v;
     Some (result \<noteq> 0, bmp\<lparr>bm_map := m, bm_used := bm_used bmp - ucast result,
                            bm_free := bm_free bmp + ucast result\<rparr>) }"

text \<open>
  The loops over a region of \<open>n\<close> bits share the number of chunks and the mask of a chunk;
  shifting by 64 or more is undefined.
\<close>

definition chunk_count :: "nat \<Rightarrow> nat" where
  "chunk_count n = n div 64 + of_bool (n mod 64 > 0)"

definition chunk_mask :: "nat \<Rightarrow> nat \<Rightarrow> nat \<Rightarrow> nat \<Rightarrow> nat \<Rightarrow> u64 option" where
  "chunk_mask i chunks n m start_bit =
     (if i = 0 then do { s \<leftarrow> shl64 1 m; shl64 (s - 1) start_bit }
      else if i = chunks - 1 \<and> n < 64 then do { s \<leftarrow> shl64 1 m; Some (s - 1) }
      else Some MAX_NUM)"

function get_n_loop :: "u64 list \<Rightarrow> int \<Rightarrow> nat \<Rightarrow> nat \<Rightarrow> nat \<Rightarrow> nat \<Rightarrow> nat \<Rightarrow> nat option" where
  "get_n_loop arr start_index start_bit chunks i n count =
     (if i < chunks then do {
        let m = min n 64;
        mask \<leftarrow> chunk_mask i chunks n m start_bit;
        qw \<leftarrow> load arr (start_index + int i);
        get_n_loop arr start_index start_bit chunks (Suc i) (n - m) (count + popcnt64 (qw AND mask)) }
      else Some count)"
  by pat_completeness auto
termination
  by (relation "measure (\<lambda>(arr, si, sb, chunks, i, n, c). chunks - i)") auto

declare get_n_loop.simps [simp del]

definition bitmap_get_n :: "bitmap \<Rightarrow> int \<Rightarrow> nat \<Rightarrow> nat option" where
  "bitmap_get_n bmp index n = do {
     kassert (unat (bm_free bmp) \<ge> n);
     get_n_loop (bm_map bmp) (index sdiv 64) (unat (word_of_int (index smod 64) :: u64))
       (chunk_count n) 0 n 0 }"

function set_n_loop :: "bitmap \<Rightarrow> int \<Rightarrow> nat \<Rightarrow> nat \<Rightarrow> nat \<Rightarrow> nat \<Rightarrow> nat \<Rightarrow> (nat \<times> bitmap) option" where
  "set_n_loop bmp start_index start_bit chunks i n count =
     (if i < chunks then do {
        let m = min n 64;
        mask \<leftarrow> chunk_mask i chunks n m start_bit;
        qw \<leftarrow> load (bm_map bmp) (start_index + int i);
        mp \<leftarrow> store (bm_map bmp) (start_index + int i) (qw OR mask);
        set_n_loop (bmp\<lparr>bm_map := mp, bm_used := bm_used bmp + of_nat m,
                        bm_free := bm_free bmp - of_nat m\<rparr>)
          start_index start_bit chunks (Suc i) (n - m) (count + popcnt64 (qw AND mask)) }
      else Some (count, bmp))"
  by pat_completeness auto
termination
  by (relation "measure (\<lambda>(bmp, si, sb, chunks, i, n, c). chunks - i)") auto

declare set_n_loop.simps [simp del]

definition bitmap_set_n :: "bitmap \<Rightarrow> int \<Rightarrow> nat \<Rightarrow> (nat \<times> bitmap) option" where
  "bitmap_set_n bmp index n = do {
     kassert (unat (bm_free bmp) \<ge> n);
     set_n_loop bmp (index sdiv 64) (unat (word_of_int (index smod 64) :: u64))
       (chunk_count n) 0 n 0 }"

function clear_n_loop :: "bitmap \<Rightarrow> int \<Rightarrow> nat \<Rightarrow> nat \<Rightarrow> nat \<Rightarrow> nat \<Rightarrow> bitmap option" where
  "clear_n_loop bmp start_index start_bit chunks i n =
     (if i < chunks then do {
        let m = min n (64 - (if i = 0 then start_bit else 0));
        mask \<leftarrow> chunk_mask i chunks n m start_bit;
        qw \<leftarrow> load (bm_map bmp) (start_index + int i);
        mp \<leftarrow> store (bm_map bmp) (start_index + int i) (qw AND NOT mask);
        clear_n_loop (bmp\<lparr>bm_map := mp, bm_used := bm_used bmp - of_nat m,
                          bm_free := bm_free bmp + of_nat m\<rparr>)
          start_index start_bit chunks (Suc i) (n - m) }
      else Some bmp)"
  by pat_completeness auto
termination
  by (relation "measure (\<lambda>(bmp, si, sb, chunks, i, n). chunks - i)") auto

declare clear_n_loop.simps [simp del]

definition bitmap_clear_n :: "bitmap \<Rightarrow> int \<Rightarrow> nat \<Rightarrow> (int \<times> bitmap) option" where
  "bitmap_clear_n bmp index n = do {
     kassert (unat (bm_used bmp) \<ge> n);
     b \<leftarrow> clear_n_loop bmp (index sdiv 64) (unat (word_of_int (index smod 64) :: u64))
            (chunk_count n) 0 n;
     Some (int n, b) }"

text \<open>First free bit.\<close>

function get_free_loop :: "u64 list \<Rightarrow> nat \<Rightarrow> nat \<Rightarrow> (nat \<times> nat) option option" where
  "get_free_loop arr i n =
     (if i < n then do {
        qw \<leftarrow> load arr (int i);
        if qw = MAX_NUM then get_free_loop arr (Suc i) n
        else if qw = 0 then Some (Some (i, 0))
        else do { off \<leftarrow> bsf64 (NOT qw); Some (Some (i, off)) } }
      else Some None)"
  by pat_completeness auto
termination
  by (relation "measure (\<lambda>(arr, i, n). n - i)") auto

declare get_free_loop.simps [simp del]

definition bitmap_get_free :: "bitmap \<Rightarrow> int option" where
  "bitmap_get_free bmp =
     (if bm_free bmp = 0 then Some (-1)
      else do {
        r \<leftarrow> get_free_loop (bm_map bmp) 0 (unat (bm_size bmp) div 8);
        Some (case r of None \<Rightarrow> -1 | Some (i, off) \<Rightarrow> int (i * 64) + int off) })"

definition bitmap_get_set_free :: "bitmap \<Rightarrow> (int \<times> bitmap) option" where
  "bitmap_get_set_free bmp =
     (if bm_free bmp = 0 then Some (-1, bmp)
      else do {
        r \<leftarrow> get_free_loop (bm_map bmp) 0 (unat (bm_size bmp) div 8);
        (case r of
           None \<Rightarrow> Some (-1, bmp)
         | Some (i, off) \<Rightarrow> do {
             qw \<leftarrow> load (bm_map bmp) (int i);
             m \<leftarrow> store (bm_map bmp) (int i) (if qw = 0 then 1 else qw OR push_bit off 1);
             Some (int (i * 64) + int off, bmp\<lparr>bm_map := m\<rparr>) }) })"

text \<open>What \<open>bsf\<close> returns; the loop below needs it to end.\<close>

lemma bsf64_Some_iff:
  "bsf64 w = Some k \<longleftrightarrow> k < 64 \<and> bit w k \<and> (\<forall>j<k. \<not> bit w j)"
  unfolding bsf64_def find_Some_iff by (auto simp: nth_append)

lemma bsf64_None_iff: "bsf64 w = None \<longleftrightarrow> w = 0"
proof
  assume "bsf64 w = None"
  then have "\<forall>k<64. \<not> bit w k" by (auto simp: bsf64_def find_None_iff)
  then show "w = 0" by (intro bit_word_eqI) auto
qed (simp add: bsf64_def find_None_iff)

lemma drop_bit_word_less:
  fixes w :: u64
  assumes "w \<noteq> 0" "0 < k"
  shows "drop_bit k w < w"
proof -
  have "unat (drop_bit k w) = unat w div 2 ^ k" by (simp add: unat_drop_bit_eq flip: drop_bit_eq_div)
  also have "\<dots> < unat w"
    using assms by (intro div_less_dividend) (auto simp: unat_gt_0 intro: one_less_power [where 'a = nat, simplified])
  finally show ?thesis by (simp add: word_less_nat_alt)
qed

lemma bsf64_not_shift_pos:
  assumes "bsf64 w = Some k" "bsf64 (NOT (drop_bit k w)) = Some k1"
  shows "0 < k1"
proof (rule ccontr)
  assume "\<not> 0 < k1"
  then have "\<not> bit (drop_bit k w) 0" using assms(2) by (simp add: bsf64_Some_iff bit_not_iff)
  then show False using assms(1) by (simp add: bsf64_Some_iff bit_drop_bit_eq)
qed

lemma drop_bit_word_le: "drop_bit k w \<le> (w :: u64)"
  by (cases "w = 0 \<or> k = 0") (auto intro: less_imp_le drop_bit_word_less)

text \<open>
  Free regions. A request of at most 64 bits is served inside one word: \<open>nfree_scan\<close> is the
  inner \<open>while\<close> loop on the inverted word, \<open>nfree_fast\<close> the loop over the words, whose
  result also says whether the word was entirely free.
\<close>

function nfree_scan :: "nat \<Rightarrow> u64 \<Rightarrow> nat \<Rightarrow> nat option option" where
  "nfree_scan n qw p =
     (if qw > 0 then do {
        k \<leftarrow> bsf64 qw;
        let qw1 = drop_bit k qw;
        k1 \<leftarrow> bsf64 (NOT qw1);
        if k1 \<ge> n then Some (Some (p + k))
        else nfree_scan n (drop_bit k1 qw1) (p + k + k1) }
      else Some None)"
  by pat_completeness auto
termination
proof (relation "measure (\<lambda>(n, qw, p). unat qw)", goal_cases)
  case (2 n qw p k qw1 k1)
  then have "0 < k1" using bsf64_not_shift_pos by blast
  have "bit qw1 0"
    using 2 by (simp only: bsf64_Some_iff bit_drop_bit_eq comp_apply add_0_right)
  then have "qw1 \<noteq> 0" by auto
  with \<open>0 < k1\<close> have "drop_bit k1 qw1 < qw1" by (simp add: drop_bit_word_less)
  also have "qw1 \<le> qw" using 2(3) by (simp add: drop_bit_word_le)
  finally show ?case by (simp add: word_less_nat_alt)
qed simp

declare nfree_scan.simps [simp del]

function nfree_fast :: "u64 list \<Rightarrow> nat \<Rightarrow> nat \<Rightarrow> nat \<Rightarrow> (nat \<times> nat \<times> bool) option option" where
  "nfree_fast arr n i words =
     (if i < words then do {
        w \<leftarrow> load arr (int i);
        let qw = NOT w;
        if qw = 0 \<or> popcnt64 qw < n then nfree_fast arr n (Suc i) words
        else if qw = MAX_NUM then Some (Some (i, 0, True))
        else do {
          r \<leftarrow> nfree_scan n qw 0;
          case r of
            None \<Rightarrow> nfree_fast arr n (Suc i) words
          | Some p \<Rightarrow> Some (Some (i, p, False)) } }
      else Some None)"
  by pat_completeness auto
termination
  by (relation "measure (\<lambda>(arr, n, i, words). words - i)") auto

declare nfree_fast.simps [simp del]

text \<open>
  Requests above 64 bits look for a run of zero words: \<open>zero_run\<close> is the inner loop,
  \<open>nfree_slow\<close> the outer one. When a nonzero word ends a run at \<open>j\<close>, the code assigns
  \<open>i = j + 1\<close> and the loop header adds one more. \<open>Early\<close> is the early return of -1 at the
  end of the map, \<open>NotFound\<close> the loop running out with \<open>index = -1\<close>.
\<close>

datatype run_result = RunBusy nat | RunFound | RunEnd

function zero_run :: "u64 list \<Rightarrow> nat \<Rightarrow> nat \<Rightarrow> nat \<Rightarrow> nat \<Rightarrow> run_result option" where
  "zero_run arr j max_index found chunks =
     (if j < max_index then do {
        w \<leftarrow> load arr (int j);
        if w \<noteq> 0 then Some (RunBusy j)
        else if Suc found \<ge> chunks then Some RunFound
        else zero_run arr (Suc j) max_index (Suc found) chunks }
      else Some RunEnd)"
  by pat_completeness auto
termination
  by (relation "measure (\<lambda>(arr, j, max_index, found, chunks). max_index - j)") auto

declare zero_run.simps [simp del]

datatype slow_result = Found nat | Early | NotFound

lemma zero_run_busy_ge: "zero_run arr j mx found chunks = Some (RunBusy j') \<Longrightarrow> j \<le> j' \<and> j' < mx"
proof (induction arr j mx found chunks rule: zero_run.induct)
  case (1 arr j mx found chunks)
  then show ?case
    by (simp add: zero_run.simps [of arr j mx found chunks] split: if_splits bind_splits)
qed

function nfree_slow :: "u64 list \<Rightarrow> nat \<Rightarrow> nat \<Rightarrow> nat \<Rightarrow> nat \<Rightarrow> slow_result option" where
  "nfree_slow arr align i max_index chunks =
     (if i < max_index then do {
        w \<leftarrow> load arr (int i);
        if w \<noteq> 0 \<or> (i * 64) mod align \<noteq> 0 then nfree_slow arr align (Suc i) max_index chunks
        else do {
          r \<leftarrow> zero_run arr i max_index 0 chunks;
          case r of
            RunBusy j \<Rightarrow> nfree_slow arr align (Suc (j + 1)) max_index chunks
          | RunFound \<Rightarrow> Some (Found i)
          | RunEnd \<Rightarrow> Some Early } }
      else Some NotFound)"
  by pat_completeness auto
termination
  by (relation "measure (\<lambda>(arr, align, i, max_index, chunks). max_index - i)")
     (auto dest: zero_run_busy_ge)

declare nfree_slow.simps [simp del]

definition bitmap_get_nfree :: "bitmap \<Rightarrow> nat \<Rightarrow> (int \<times> bitmap) option" where
  "bitmap_get_nfree bmp n =
     (if n > unat (bm_free bmp) then Some (-1, bmp)
      else if n \<le> 64 then do {
        r \<leftarrow> nfree_fast (bm_map bmp) n 0 (unat (bm_size bmp) div 8);
        Some (case r of
           None \<Rightarrow> (-1, bmp)
         | Some (i, p, _) \<Rightarrow> (int (i * 64) + int p, bmp\<lparr>bm_free := bm_free bmp - of_nat n\<rparr>)) }
      else do {
        r \<leftarrow> nfree_slow (bm_map bmp) 1 0 (unat (bm_size bmp) div 8) (chunk_count n);
        Some (case r of
           Found i \<Rightarrow> (int i * 64, bmp)
         | Early \<Rightarrow> (-1, bmp)
         | NotFound \<Rightarrow> (-1 * 64, bmp)) })"

text \<open>
  The loop that marks a region of more than 64 bits. In its last round \<open>remaining\<close> is 0, so a
  partial last word is a shift by 64, which is undefined.
\<close>

function nfree_fill :: "u64 list \<Rightarrow> int \<Rightarrow> nat \<Rightarrow> nat \<Rightarrow> nat \<Rightarrow> u64 list option" where
  "nfree_fill arr index i chunks remaining =
     (if i < chunks then do {
        let v = min remaining 64;
        let remaining' = remaining - v;
        if remaining' > 0 then do {
          a \<leftarrow> store arr (index + int i) MAX_NUM;
          nfree_fill a index (Suc i) chunks remaining' }
        else if v = 64 then store arr (index + int i) MAX_NUM
        else do {
          w \<leftarrow> shr64 MAX_NUM (64 - remaining');
          store arr (index + int i) w } }
      else None)"
  by pat_completeness auto
termination
  by (relation "measure (\<lambda>(arr, index, i, chunks, remaining). chunks - i)") auto

declare nfree_fill.simps [simp del]

definition bitmap_get_set_nfree :: "bitmap \<Rightarrow> nat \<Rightarrow> u64 \<Rightarrow> (int \<times> bitmap) option" where
  "bitmap_get_set_nfree bmp n align =
     (if n > unat (bm_free bmp) then Some (-1, bmp)
      else if align AND (align - 1) \<noteq> 0 then Some (-1, bmp)
      else if n \<le> 64 then do {
        kassert (align = 0);
        r \<leftarrow> nfree_fast (bm_map bmp) n 0 (unat (bm_size bmp) div 8);
        (case r of
           None \<Rightarrow> Some (-1, bmp)
         | Some (i, p, whole) \<Rightarrow> do {
             s \<leftarrow> shr64 MAX_NUM (64 - n);
             mask \<leftarrow> shl64 s p;
             qw \<leftarrow> load (bm_map bmp) (int i);
             m \<leftarrow> store (bm_map bmp) (int i) (qw OR mask);
             Some (int (i * 64) + int p,
                   bmp\<lparr>bm_map := m, bm_free := bm_free bmp - of_nat n,
                       bm_used := bm_used bmp + (if whole then 0 else of_nat n)\<rparr>) }) }
      else do {
        let max_index = unat (bm_size bmp) div 8;
        let chunks = chunk_count n;
        r \<leftarrow> nfree_slow (bm_map bmp) (if align = 0 then 1 else unat align) 0 max_index chunks;
        (case r of
           Early \<Rightarrow> Some (-1, bmp)
         | _ \<Rightarrow> do {
             let index = (case r of Found i \<Rightarrow> int i | _ \<Rightarrow> -1);
             m \<leftarrow> nfree_fill (bm_map bmp) index 0 chunks n;
             Some (index * 64,
                   bmp\<lparr>bm_map := m, bm_used := bm_used bmp + of_nat n,
                       bm_free := bm_free bmp - of_nat n\<rparr>) }) })"

section \<open>A bitmap as a set of indices\<close>

text \<open>
  \<open>bits_of\<close> abstracts a bitmap to the set of its 1 bits; \<open>bm_cap\<close> is the sum of the two
  counters, which bounds the indices the assertions let through.
\<close>

definition bit_at :: "u64 list \<Rightarrow> nat \<Rightarrow> bool" where
  "bit_at m i \<longleftrightarrow> i < 64 * length m \<and> bit (m ! (i div 64)) (i mod 64)"

definition bits_of :: "bitmap \<Rightarrow> nat set" where
  "bits_of bmp = {i. bit_at (bm_map bmp) i}"

definition bm_cap :: "bitmap \<Rightarrow> nat" where
  "bm_cap bmp = unat (bm_used bmp + bm_free bmp)"

definition bitmap_ok :: "bitmap \<Rightarrow> bool" where
  "bitmap_ok bmp \<longleftrightarrow> unat (bm_size bmp) = 8 * length (bm_map bmp) \<and>
     bm_cap bmp \<le> 64 * length (bm_map bmp)"

text \<open>The abstraction and the single-bit operations on it.\<close>

lemma less_64_mult_iff: "i < 64 * n \<longleftrightarrow> i div 64 < (n :: nat)"
  by (simp add: div_less_iff_less_mult mult.commute)

lemma bit_at_update:
  "j < length m \<Longrightarrow> bit_at (m[j := w]) i \<longleftrightarrow> (if i div 64 = j then bit w (i mod 64) else bit_at m i)"
  by (auto simp: bit_at_def less_64_mult_iff)

lemma MAX_NUM_eq: "MAX_NUM = - 1"
  by (simp add: MAX_NUM_def)

lemma bit_MAX_NUM [simp]: "bit MAX_NUM k \<longleftrightarrow> k < 64"
  by (simp add: MAX_NUM_eq)

lemma bm_cap_less: "bm_cap bmp < 2 ^ 64"
  unfolding bm_cap_def using unsigned_less [of "bm_used bmp + bm_free bmp", where 'a = nat] by simp

lemma index_in_range_int: "index_in_range bmp (int k) \<longleftrightarrow> k mod 2 ^ 64 < bm_cap bmp"
  by (simp add: index_in_range_def bm_cap_def word_less_nat_alt unat_of_nat)

lemma mod64_word8 [simp]: "unat (word_of_int (int k mod 64) :: u8) = k mod 64"
proof -
  have "(word_of_int (int k mod 64) :: u8) = word_of_nat (k mod 64)"
    by (metis of_int_of_nat_eq of_nat_numeral zmod_int)
  then show ?thesis by (simp add: unat_of_nat)
qed

lemma mod64_word64 [simp]: "unat (word_of_int (int k mod 64) :: u64) = k mod 64"
proof -
  have "(word_of_int (int k mod 64) :: u64) = word_of_nat (k mod 64)"
    by (metis of_int_of_nat_eq of_nat_numeral zmod_int)
  then show ?thesis by (simp add: unat_of_nat)
qed

lemma sdiv64_int [simp]: "int k sdiv 64 = int (k div 64)"
  by (simp add: sdiv_nonneg zdiv_int)

lemma ok_index: "bitmap_ok bmp \<Longrightarrow> k < bm_cap bmp \<Longrightarrow> k div 64 < length (bm_map bmp)"
  by (simp add: bitmap_ok_def flip: less_64_mult_iff)

lemma cap_index_in_range: "k < bm_cap bmp \<Longrightarrow> index_in_range bmp (int k)"
  using bm_cap_less [of bmp] by (simp add: index_in_range_int)

lemma bitmap_get_bits:
  assumes "bitmap_ok bmp" "k < bm_cap bmp"
  shows "bitmap_get bmp (int k) = Some (k \<in> bits_of bmp)"
  using assms ok_index [OF assms] cap_index_in_range [OF assms(2)]
  by (simp add: bitmap_get_def bt64_def bits_of_def bit_at_def less_64_mult_iff)

lemma div_mod_64_eqD: "x div 64 = y div 64 \<Longrightarrow> x mod 64 = y mod 64 \<Longrightarrow> x = (y :: nat)"
  by (metis div_mult_mod_eq)

lemma bit_at_set_bit:
  assumes "k div 64 < length m"
  shows "bit_at (m[k div 64 := set_bit (k mod 64) (m ! (k div 64))]) i \<longleftrightarrow> i = k \<or> bit_at m i"
  using assms
  by (auto simp: bit_at_update bit_set_bit_iff dest: div_mod_64_eqD)
     (auto simp: bit_at_def less_64_mult_iff)

lemma bit_at_unset_bit:
  assumes "k div 64 < length m"
  shows "bit_at (m[k div 64 := unset_bit (k mod 64) (m ! (k div 64))]) i \<longleftrightarrow> i \<noteq> k \<and> bit_at m i"
  using assms
  by (auto simp: bit_at_update bit_unset_bit_iff dest: div_mod_64_eqD)
     (auto simp: bit_at_def less_64_mult_iff)

lemma bits_of_map_update [simp]: "bits_of (bmp\<lparr>bm_map := m\<rparr>) = {i. bit_at m i}"
  "bits_of (bmp\<lparr>bm_used := u\<rparr>) = bits_of bmp" "bits_of (bmp\<lparr>bm_free := f\<rparr>) = bits_of bmp"
  by (simp_all add: bits_of_def)

lemma bitmap_set_bits:
  assumes "bitmap_ok bmp" "k < bm_cap bmp"
  shows "\<exists>b. bitmap_set bmp (int k) = Some (k \<in> bits_of bmp, b) \<and> bits_of b = insert k (bits_of bmp) \<and>
           bitmap_ok b \<and> bm_cap b = bm_cap bmp \<and> bm_size b = bm_size bmp \<and>
           bm_used b = bm_used bmp + 1 \<and> bm_free b = bm_free bmp - 1"
  using assms ok_index [OF assms] cap_index_in_range [OF assms(2)]
  by (auto simp: bitmap_set_def bts64_def bits_of_def bit_at_set_bit bitmap_ok_def bm_cap_def)
     (auto simp: bit_at_def less_64_mult_iff)

lemma bitmap_clear_bits:
  assumes "bitmap_ok bmp" "k < bm_cap bmp"
  shows "\<exists>b. bitmap_clear bmp (int k) = Some (k \<in> bits_of bmp, b) \<and> bits_of b = bits_of bmp - {k} \<and>
           bitmap_ok b \<and> bm_cap b = bm_cap bmp \<and> bm_size b = bm_size bmp \<and>
           bm_used b = bm_used bmp - of_bool (k \<in> bits_of bmp) \<and>
           bm_free b = bm_free bmp + of_bool (k \<in> bits_of bmp)"
  using assms ok_index [OF assms] cap_index_in_range [OF assms(2)]
  by (auto simp: bitmap_clear_def btr64_def bits_of_def bit_at_unset_bit bitmap_ok_def bm_cap_def)
     (auto simp: bit_at_def less_64_mult_iff)

lemma word64_eq_MAX_NUM_iff: "w = MAX_NUM \<longleftrightarrow> (\<forall>k<64. bit w k)"
  by (auto simp: bit_eq_iff)

lemma MAX_NUM_neq_0 [simp]: "MAX_NUM \<noteq> 0" "0 \<noteq> MAX_NUM"
  by (simp_all add: MAX_NUM_eq)

text \<open>The scan for a free bit: the first clear bit at or after word \<open>i\<close>.\<close>

lemma get_free_loop_spec:
  assumes "n \<le> length arr"
  shows "\<exists>r. get_free_loop arr i n = Some r \<and>
    (case r of
       None \<Rightarrow> \<forall>k. 64 * i \<le> k \<and> k < 64 * n \<longrightarrow> bit_at arr k
     | Some (j, off) \<Rightarrow> i \<le> j \<and> j < n \<and> off < 64 \<and> \<not> bit_at arr (j * 64 + off) \<and>
         (\<forall>k. 64 * i \<le> k \<and> k < j * 64 + off \<longrightarrow> bit_at arr k))"
  using assms
proof (induction arr i n rule: get_free_loop.induct)
  case (1 arr i n)
  show ?case
  proof (cases "i < n")
    case True
    with 1 have i: "i < length arr" by simp
    have word: "bit_at arr k \<longleftrightarrow> bit (arr ! i) (k - 64 * i)" if "64 * i \<le> k" "k < 64 * Suc i" for k
    proof -
      from that have "k div 64 = i" by auto
      moreover from this have "k mod 64 = k - 64 * i"
        by (metis minus_mult_div_eq_mod)
      ultimately show ?thesis using i by (simp add: bit_at_def less_64_mult_iff)
    qed
    consider "arr ! i = MAX_NUM" | "arr ! i = 0" | off where "arr ! i \<noteq> MAX_NUM" "arr ! i \<noteq> 0" "bsf64 (NOT (arr ! i)) = Some off"
      using bsf64_None_iff [of "NOT (arr ! i)"]
      by (metis MAX_NUM_eq bit.compl_zero bit.double_compl not_None_eq)
    then show ?thesis
    proof cases
      case 1
      have eq: "get_free_loop arr i n = get_free_loop arr (Suc i) n"
        using i True 1 by (simp add: get_free_loop.simps [of arr i])
      have here: "bit_at arr k" if "64 * i \<le> k" "k < 64 * Suc i" for k
        using word [OF that] that 1 by simp
      have "64 * i \<le> k \<Longrightarrow> \<not> 64 * Suc i \<le> k \<Longrightarrow> bit_at arr k" for k
        using here by simp
      then show ?thesis
        unfolding eq using "1.IH" [OF True load_int [OF i] 1] "1.prems"
        by (fastforce split: option.splits)
    next
      case 2
      then show ?thesis
        using i True word [of "64 * i"]
        by (auto simp: get_free_loop.simps [of arr i] mult.commute [of i])
    next
      case 3
      from 3(3) have "off < 64" "\<not> bit (arr ! i) off" "\<forall>j<off. bit (arr ! i) j"
        by (auto simp: bsf64_Some_iff bit_not_iff)
      then show ?thesis
        using i True word 3 by (auto simp: get_free_loop.simps [of arr i])
    qed
  qed (auto simp: get_free_loop.simps)
qed


lemma bit_at_less: "bit_at m i \<Longrightarrow> i < 64 * length m"
  by (simp add: bit_at_def)

definition first_free :: "bitmap \<Rightarrow> nat option" where
  "first_free bmp = (if bm_free bmp = 0 then None
     else find (\<lambda>i. \<not> bit_at (bm_map bmp) i) [0..<64 * length (bm_map bmp)])"

lemma find_upt_Some_iff: "find P [0..<n] = Some i \<longleftrightarrow> i < n \<and> P i \<and> (\<forall>j<i. \<not> P j)"
  by (auto simp: find_Some_iff)

lemma find_upt_None_iff: "find P [0..<n] = None \<longleftrightarrow> (\<forall>j<n. \<not> P j)"
  by (auto simp: find_None_iff)

lemma get_free_loop_first_free:
  assumes "bm_free bmp \<noteq> 0"
  shows "\<exists>r. get_free_loop (bm_map bmp) 0 (length (bm_map bmp)) = Some r \<and>
     first_free bmp = map_option (\<lambda>(i, off). i * 64 + off) r \<and>
     (\<forall>i off. r = Some (i, off) \<longrightarrow> i < length (bm_map bmp) \<and> off < 64)"
proof -
  obtain r where r: "get_free_loop (bm_map bmp) 0 (length (bm_map bmp)) = Some r"
    "case r of
       None \<Rightarrow> \<forall>k. 64 * 0 \<le> k \<and> k < 64 * length (bm_map bmp) \<longrightarrow> bit_at (bm_map bmp) k
     | Some (j, off) \<Rightarrow> 0 \<le> j \<and> j < length (bm_map bmp) \<and> off < 64 \<and> \<not> bit_at (bm_map bmp) (j * 64 + off) \<and>
         (\<forall>k. 64 * 0 \<le> k \<and> k < j * 64 + off \<longrightarrow> bit_at (bm_map bmp) k)"
    using get_free_loop_spec [of "length (bm_map bmp)" "bm_map bmp" 0] by auto
  have "first_free bmp = map_option (\<lambda>(i, off). i * 64 + off) r"
    using r(2) assms
    by (auto simp: first_free_def find_upt_Some_iff find_upt_None_iff less_64_mult_iff split: option.splits)
  with r show ?thesis by (auto split: option.splits)
qed

lemma bitmap_get_free_first:
  assumes "bitmap_ok bmp"
  shows "bitmap_get_free bmp = Some (case first_free bmp of None \<Rightarrow> -1 | Some i \<Rightarrow> int i)"
proof (cases "bm_free bmp = 0")
  case False
  from get_free_loop_first_free [OF this] obtain r where
    "get_free_loop (bm_map bmp) 0 (length (bm_map bmp)) = Some r"
    "first_free bmp = map_option (\<lambda>(i, off). i * 64 + off) r" by blast
  then show ?thesis
    using assms False
    by (cases r) (auto simp: bitmap_get_free_def bitmap_ok_def)
qed (simp add: bitmap_get_free_def first_free_def)

lemma set_bit_eq_or_push: "set_bit k w = (w :: u64) OR push_bit k 1"
  by (simp add: set_bit_eq_or)

lemma bitmap_get_set_free_first:
  assumes "bitmap_ok bmp"
  shows "bitmap_get_set_free bmp = Some (case first_free bmp of
      None \<Rightarrow> (-1, bmp)
    | Some i \<Rightarrow> (int i, bmp\<lparr>bm_map := (bm_map bmp)[i div 64 := set_bit (i mod 64) (bm_map bmp ! (i div 64))]\<rparr>))"
proof (cases "bm_free bmp = 0")
  case False
  obtain r where r: "get_free_loop (bm_map bmp) 0 (length (bm_map bmp)) = Some r"
     "first_free bmp = map_option (\<lambda>(i, off). i * 64 + off) r"
     "\<And>i off. r = Some (i, off) \<Longrightarrow> i < length (bm_map bmp) \<and> off < 64"
    using get_free_loop_first_free [OF False] by blast
  show ?thesis
  proof (cases r)
    case None
    then show ?thesis using r False assms by (simp add: bitmap_get_set_free_def bitmap_ok_def)
  next
    case (Some p)
    obtain i off where p: "p = (i, off)" by (cases p)
    with Some r(3) have "i < length (bm_map bmp)" "off < 64" by auto
    moreover have "bm_map bmp ! i = 0 \<Longrightarrow> off = 0"
      using r(2) Some p False
      by (cases "off = 0") (auto simp: first_free_def find_upt_Some_iff bit_at_def dest!: spec [of _ "i * 64"])
    ultimately show ?thesis
      using r Some p False assms
      by (auto simp: bitmap_get_set_free_def bitmap_ok_def set_bit_eq_or_push)
  qed
qed (simp add: bitmap_get_set_free_def first_free_def)


text \<open>Runs of set bits in a word.\<close>

definition word_run :: "u64 \<Rightarrow> nat \<Rightarrow> nat \<Rightarrow> bool" where
  "word_run w s n \<longleftrightarrow> (\<forall>j<n. bit w (s + j))"

lemma nfree_scan_spec:
  assumes "w \<noteq> MAX_NUM" "0 < n" "qw = drop_bit p w"
  shows "\<exists>r. nfree_scan n qw p = Some r \<and>
     (case r of
        None \<Rightarrow> \<forall>s\<ge>p. \<not> word_run w s n
      | Some q \<Rightarrow> p \<le> q \<and> word_run w q n \<and> (\<forall>s. p \<le> s \<and> s < q \<longrightarrow> \<not> word_run w s n))"
  using assms
proof (induction n qw p rule: nfree_scan.induct)
  case (1 n qw p)
  have bit_qw: "bit qw j \<longleftrightarrow> bit w (p + j)" for j
    by (simp add: 1 bit_drop_bit_eq)
  show ?case
  proof (cases "qw = 0")
    case True
    then have "\<not> word_run w s n" if "s \<ge> p" for s
      using bit_qw [of "s - p"] that \<open>0 < n\<close> by (auto simp: word_run_def)
    with True show ?thesis by (simp add: nfree_scan.simps)
  next
    case False
    then obtain k where k: "bsf64 qw = Some k" using bsf64_None_iff by blast
    let ?qw1 = "drop_bit k qw"
    have bit_qw1: "bit ?qw1 j \<longleftrightarrow> bit w (p + k + j)" for j
      by (simp add: bit_drop_bit_eq bit_qw add.assoc)
    have "NOT ?qw1 \<noteq> 0"
    proof
      assume "NOT ?qw1 = 0"
      then have "?qw1 = MAX_NUM" by (metis MAX_NUM_eq bit.compl_zero bit.double_compl)
      then have *: "bit w (p + k + j)" if "j < 64" for j using bit_qw1 [of j] that by simp
      from * [of 63] have "p + k = 0" by (auto dest!: bit_imp_le_length)
      with * \<open>w \<noteq> MAX_NUM\<close> show False by (auto simp: word64_eq_MAX_NUM_iff)
    qed
    then obtain k1 where k1: "bsf64 (NOT ?qw1) = Some k1" using bsf64_None_iff by blast
    have zeros: "\<not> bit w (p + j)" if "j < k" for j
      using k that by (simp add: bsf64_Some_iff bit_qw)
    have ones: "bit w (p + k + j)" if "j < k1" for j
      using k1 that by (simp add: bsf64_Some_iff bit_not_iff bit_qw1)
    have stop: "\<not> bit w (p + k + k1)"
      using k1 by (simp add: bsf64_Some_iff bit_not_iff bit_qw1)
    have before: "\<not> word_run w s n" if "p \<le> s" "s < p + k" for s
      using zeros [of "s - p"] that \<open>0 < n\<close> by (auto simp: word_run_def)
    show ?thesis
    proof (cases "n \<le> k1")
      case True
      then have "word_run w (p + k) n" using ones by (simp add: word_run_def)
      with before True False k k1 show ?thesis
        by (simp add: nfree_scan.simps [of n qw] word_greater_zero_iff)
    next
      case notn: False
      have eq: "nfree_scan n qw p = nfree_scan n (drop_bit k1 ?qw1) (p + k + k1)"
        using notn False k k1 by (simp add: nfree_scan.simps [of n qw] word_greater_zero_iff)
      have within: "\<not> word_run w s n" if "p \<le> s" "s < p + k + k1" for s
      proof (cases "s < p + k")
        case False
        with that notn have "s + (p + k + k1 - s) = p + k + k1" "p + k + k1 - s < n" by auto
        with stop show ?thesis by (metis word_run_def)
      qed (use before that in simp)
      have "drop_bit k1 ?qw1 = drop_bit (p + k + k1) w"
        by (simp add: 1 drop_bit_drop_bit ac_simps)
      with "1.IH" [OF _ k refl k1 notn] False 1 
      show ?thesis unfolding eq using within 
        by (fastforce simp: word_greater_zero_iff split: option.splits)
    qed
  qed
qed


lemma popcnt64_card: "popcnt64 w = card {k. k < 64 \<and> bit w k}"
proof -
  have "set (filter (bit w) [0..<64]) = {k. k < 64 \<and> bit w k}" by auto
  moreover have "distinct (filter (bit w) [0..<64])" by simp
  ultimately show ?thesis unfolding popcnt64_def by (metis distinct_card)
qed

lemma word_run_0 [simp]: "0 < n \<Longrightarrow> \<not> word_run 0 s n"
  by (auto simp: word_run_def)

lemma word_run_popcnt: "word_run w s n \<Longrightarrow> n \<le> popcnt64 w"
proof -
  assume run: "word_run w s n"
  have "{s..<s + n} \<subseteq> {k. k < 64 \<and> bit w k}"
  proof
    fix k assume "k \<in> {s..<s + n}"
    then have "k - s < n" "s + (k - s) = k" by auto
    with run have "bit w k" unfolding word_run_def by metis
    then show "k \<in> {k. k < 64 \<and> bit w k}" using bit_imp_le_length [of w k] by simp
  qed
  then have "card {s..<s + n} \<le> card {k. k < 64 \<and> bit w k}" by (intro card_mono) auto
  then show ?thesis by (simp add: popcnt64_card)
qed

text \<open>
  A free run of \<open>n\<close> bits inside one word of the map, the region a short request is served from.
\<close>

definition free_in_word :: "u64 list \<Rightarrow> nat \<Rightarrow> nat \<Rightarrow> nat \<Rightarrow> bool" where
  "free_in_word arr n i p \<longleftrightarrow> p + n \<le> 64 \<and> (\<forall>j<n. \<not> bit (arr ! i) (p + j))"

lemma free_in_word_run: "0 < n \<Longrightarrow> free_in_word arr n i p \<longleftrightarrow> word_run (NOT (arr ! i)) p n"
proof -
  assume n: "0 < n"
  have "p + n \<le> 64" if "word_run (NOT (arr ! i)) p n"
  proof -
    from that [unfolded word_run_def, rule_format, of "n - 1"] n
    have "bit (NOT (arr ! i)) (p + (n - 1))" by simp
    from bit_imp_le_length [OF this] n show ?thesis by simp
  qed
  then show ?thesis by (auto simp: free_in_word_def word_run_def bit_not_iff)
qed

definition first_fit :: "u64 list \<Rightarrow> nat \<Rightarrow> nat \<Rightarrow> nat \<Rightarrow> (nat \<times> nat \<times> bool) option \<Rightarrow> bool" where
  "first_fit arr n i words r \<longleftrightarrow> (case r of
     None \<Rightarrow> \<forall>j p. i \<le> j \<and> j < words \<longrightarrow> \<not> free_in_word arr n j p
   | Some (k, q, whole) \<Rightarrow> i \<le> k \<and> k < words \<and> free_in_word arr n k q \<and> (whole \<longleftrightarrow> arr ! k = 0) \<and>
       (\<forall>j p. i \<le> j \<and> (j < k \<or> j = k \<and> p < q) \<longrightarrow> \<not> free_in_word arr n j p))"

lemma first_fit_skip:
  assumes "first_fit arr n (Suc i) words r" "\<And>p. \<not> free_in_word arr n i p"
  shows "first_fit arr n i words r"
proof -
  have "Suc i \<le> j" if "i \<le> j" "free_in_word arr n j p" for j p
    using that assms(2) by (cases "i = j") auto
  then show ?thesis
    using assms(1) unfolding first_fit_def by (cases r) (auto dest: Suc_leD)
qed

lemma nfree_fast_spec:
  assumes "0 < n" "n \<le> 64" "words \<le> length arr"
  shows "\<exists>r. nfree_fast arr n i words = Some r \<and> first_fit arr n i words r"
  using assms
proof (induction arr n i words rule: nfree_fast.induct)
  case (1 arr n i words)
  show ?case
  proof (cases "i < words")
    case True
    with 1 have i: "i < length arr" by simp
    let ?qw = "NOT (arr ! i)"
    consider "?qw = 0 \<or> popcnt64 ?qw < n" | "\<not> (?qw = 0 \<or> popcnt64 ?qw < n)" "?qw = MAX_NUM"
      | r where "\<not> (?qw = 0 \<or> popcnt64 ?qw < n)" "?qw \<noteq> MAX_NUM" "nfree_scan n ?qw 0 = Some r"
      using nfree_scan_spec [of ?qw n ?qw 0] \<open>0 < n\<close> by fastforce
    then show ?thesis
    proof cases
      case 1
      then have "\<not> free_in_word arr n i p" for p
        using \<open>0 < n\<close> word_run_popcnt [of ?qw p n] by (auto simp: free_in_word_run word_run_0)
      then show ?thesis
        using 1 i True "1.IH"(1) [OF True load_int [OF i] refl 1] "1.prems"
        by (auto simp: nfree_fast.simps [of arr n i] intro: first_fit_skip)
    next
      case 2
      then have "arr ! i = 0" by (metis MAX_NUM_eq bit.compl_one bit.double_compl)
      then show ?thesis
        using 2 i True \<open>n \<le> 64\<close> by (auto simp: nfree_fast.simps [of arr n i] first_fit_def free_in_word_def)
    next
      case 3
      then have "arr ! i \<noteq> 0" by (metis MAX_NUM_eq bit.compl_zero)
      have spec: "case r of
        None \<Rightarrow> \<forall>s\<ge>0. \<not> word_run ?qw s n
      | Some q \<Rightarrow> 0 \<le> q \<and> word_run ?qw q n \<and> (\<forall>s. 0 \<le> s \<and> s < q \<longrightarrow> \<not> word_run ?qw s n)"
        using nfree_scan_spec [of ?qw n ?qw 0] 3 \<open>0 < n\<close> by auto
      show ?thesis
      proof (cases r)
        case None
        with spec \<open>0 < n\<close> have "\<not> free_in_word arr n i p" for p by (simp add: free_in_word_run)
        with None show ?thesis
          using 3 i True "1.IH"(2) [OF True load_int [OF i] refl 3 None] "1.prems"
          by (auto simp: nfree_fast.simps [of arr n i] intro: first_fit_skip)
      next
        case (Some q)
        then show ?thesis
          using 3 i True spec \<open>arr ! i \<noteq> 0\<close> \<open>0 < n\<close>
          by (auto simp: nfree_fast.simps [of arr n i] first_fit_def free_in_word_run)
      qed
    qed
  qed (auto simp: nfree_fast.simps first_fit_def)
qed


lemma bit_region_mask:
  "m < 64 \<Longrightarrow> bit (push_bit s (2 ^ m - 1) :: u64) j \<longleftrightarrow> s \<le> j \<and> j < s + m \<and> j < 64"
proof -
  have "2 ^ m - 1 = (mask m :: u64)" by (simp add: mask_eq_exp_minus_1)
  then show ?thesis by (auto simp: bit_push_bit_iff bit_mask_iff)
qed

lemma bit_low_mask: "m < 64 \<Longrightarrow> bit (2 ^ m - 1 :: u64) j \<longleftrightarrow> j < m"
  using bit_region_mask [of m 0 j] by auto

lemma chunk_mask_first:
  assumes "m < 64" "sb < 64"
  shows "\<exists>w. chunk_mask 0 c n m sb = Some w \<and> (\<forall>j<64. bit w j \<longleftrightarrow> sb \<le> j \<and> j < sb + m)"
  using assms by (simp add: chunk_mask_def bit_region_mask)

lemma chunk_mask_next:
  assumes "0 < i" "i = c - 1 \<longrightarrow> n \<le> 64" "i \<noteq> c - 1 \<longrightarrow> 64 \<le> n"
  shows "\<exists>w. chunk_mask i c n (min n 64) sb = Some w \<and> (\<forall>j<64. bit w j \<longleftrightarrow> j < n)"
  using assms by (auto simp: chunk_mask_def bit_low_mask min_def)

text \<open>Clearing or setting the bits \<open>a..<b\<close> of one word.\<close>

lemma word_region_iff:
  assumes "\<forall>x<64. bit w x \<longleftrightarrow> a \<le> x \<and> x < b" "b \<le> 64"
  shows "64 * j + a \<le> k \<and> k < 64 * j + b \<longleftrightarrow> k div 64 = j \<and> bit w (k mod 64)"
proof (cases "k div 64 = j")
  case True
  then have "k = 64 * j + k mod 64" by (metis mult_div_mod_eq)
  moreover have "k mod 64 < 64" by simp
  ultimately show ?thesis using True assms(1) by (metis add_less_cancel_left add_le_cancel_left)
qed (use assms(2) in auto)

lemma bit_at_clear_region:
  assumes "j < length m" "\<forall>x<64. bit w x \<longleftrightarrow> a \<le> x \<and> x < b" "b \<le> 64"
  shows "bit_at (m[j := (m ! j) AND NOT w]) k \<longleftrightarrow> bit_at m k \<and> \<not> (64 * j + a \<le> k \<and> k < 64 * j + b)"
  using assms(1) unfolding word_region_iff [OF assms(2,3)] bit_at_update [OF assms(1)]
  by (auto simp: bit_and_iff bit_not_iff) (auto simp: bit_at_def less_64_mult_iff)

lemma bit_at_set_region:
  assumes "j < length m" "\<forall>x<64. bit w x \<longleftrightarrow> a \<le> x \<and> x < b" "b \<le> 64"
  shows "bit_at (m[j := (m ! j) OR w]) k \<longleftrightarrow> bit_at m k \<or> (64 * j + a \<le> k \<and> k < 64 * j + b)"
  using assms(1) unfolding word_region_iff [OF assms(2,3)] bit_at_update [OF assms(1)]
  by (auto simp: bit_or_iff) (auto simp: bit_at_def less_64_mult_iff)

lemma clear_n_loop_next:
  assumes "0 < i" "i \<le> c" "64 * (c - i) < n + 64" "n \<le> 64 * (c - i)" "si + c \<le> length (bm_map bmp)"
  shows "\<exists>b. clear_n_loop bmp (int si) sb c i n = Some b \<and> length (bm_map b) = length (bm_map bmp) \<and>
     bm_size b = bm_size bmp \<and>
     bm_used b = bm_used bmp - of_nat n \<and> bm_free b = bm_free bmp + of_nat n \<and>
     (\<forall>k. bit_at (bm_map b) k \<longleftrightarrow> bit_at (bm_map bmp) k \<and> \<not> (64 * (si + i) \<le> k \<and> k < 64 * (si + i) + n))"
  using assms
proof (induction "c - i" arbitrary: i n bmp)
  case 0
  then show ?case by (simp add: clear_n_loop.simps)
next
  case (Suc d)
  then have c: "c = i + Suc d" and ic: "i < c" and len: "si + i < length (bm_map bmp)" by auto
  let ?m = "min n 64"
  obtain w where w: "chunk_mask i c n ?m sb = Some w" "\<forall>j<64. bit w j \<longleftrightarrow> j < n"
    using chunk_mask_next [of i c n sb] Suc.prems c by (cases d) auto
  let ?map = "(bm_map bmp)[si + i := (bm_map bmp ! (si + i)) AND NOT w]"
  let ?b = "bmp\<lparr>bm_map := ?map, bm_used := bm_used bmp - of_nat ?m, bm_free := bm_free bmp + of_nat ?m\<rparr>"
  have eq: "clear_n_loop bmp (int si) sb c i n = clear_n_loop ?b (int si) sb c (Suc i) (n - ?m)"
    using ic len w \<open>0 < i\<close> load_int [OF len] store_int [OF len]
    by (subst clear_n_loop.simps) (simp add: Let_def)
  have here: "bit_at ?map k \<longleftrightarrow> bit_at (bm_map bmp) k \<and> \<not> (64 * (si + i) \<le> k \<and> k < 64 * (si + i) + ?m)" for k
    using bit_at_clear_region [OF len, of w 0 ?m k] w(2) by simp
  have "\<exists>b. clear_n_loop ?b (int si) sb c (Suc i) (n - ?m) = Some b \<and> length (bm_map b) = length (bm_map ?b) \<and>
     bm_size b = bm_size ?b \<and>
     bm_used b = bm_used ?b - of_nat (n - ?m) \<and> bm_free b = bm_free ?b + of_nat (n - ?m) \<and>
     (\<forall>k. bit_at (bm_map b) k \<longleftrightarrow> bit_at (bm_map ?b) k \<and> \<not> (64 * (si + Suc i) \<le> k \<and> k < 64 * (si + Suc i) + (n - ?m)))"
    using Suc.hyps(2) Suc.prems ic by (intro Suc.hyps(1)) auto
  then show ?case
    unfolding eq using here by (auto simp: min_def of_nat_diff split: if_splits)
qed

lemma chunk_count_bounds: "n \<le> 64 * chunk_count n" "64 * chunk_count n < n + 64"
  by (auto simp: chunk_count_def) presburger+

text \<open>
  Clearing a region: exact when the region stays within the words the loop visits and its first
  chunk is not a whole word.
\<close>

lemma bitmap_clear_n_region:
  assumes "0 < n" "n \<le> unat (bm_used bmp)"
    and "s mod 64 + n \<le> 64 * chunk_count n"
    and "0 < s mod 64 \<or> n < 64"
    and "s div 64 + chunk_count n \<le> length (bm_map bmp)"
  shows "\<exists>b. bitmap_clear_n bmp (int s) n = Some (int n, b) \<and> bits_of b = bits_of bmp - {s..<s + n} \<and>
     bm_used b = bm_used bmp - of_nat n \<and> bm_free b = bm_free bmp + of_nat n"
proof -
  define si sb where "si = s div 64" and "sb = s mod 64"
  have s: "s = 64 * si + sb" by (simp add: si_def sb_def)
  have sb: "sb < 64" by (simp add: sb_def)
  note assms = assms [folded si_def sb_def]
  let ?c = "chunk_count n"
  let ?m = "min n (64 - sb)"
  have m: "?m < 64" using assms by auto
  obtain w where w: "chunk_mask 0 ?c n ?m sb = Some w" "\<forall>j<64. bit w j \<longleftrightarrow> sb \<le> j \<and> j < sb + ?m"
    using chunk_mask_first [OF m sb] by blast
  have c: "0 < ?c" using assms(1) by (auto simp: chunk_count_def)
  with assms(5) have si: "si < length (bm_map bmp)" by simp
  let ?map = "(bm_map bmp)[si := (bm_map bmp ! si) AND NOT w]"
  let ?b = "bmp\<lparr>bm_map := ?map, bm_used := bm_used bmp - of_nat ?m, bm_free := bm_free bmp + of_nat ?m\<rparr>"
  have eq: "clear_n_loop bmp (int si) sb ?c 0 n = clear_n_loop ?b (int si) sb ?c (Suc 0) (n - ?m)"
    using c w load_int [OF si] store_int [OF si]
    by (subst clear_n_loop.simps) (simp add: Let_def)
  have "\<exists>b. clear_n_loop ?b (int si) sb ?c (Suc 0) (n - ?m) = Some b \<and> length (bm_map b) = length (bm_map ?b) \<and>
     bm_size b = bm_size ?b \<and>
     bm_used b = bm_used ?b - of_nat (n - ?m) \<and> bm_free b = bm_free ?b + of_nat (n - ?m) \<and>
     (\<forall>k. bit_at (bm_map b) k \<longleftrightarrow> bit_at (bm_map ?b) k \<and> \<not> (64 * (si + Suc 0) \<le> k \<and> k < 64 * (si + Suc 0) + (n - ?m)))"
    using assms(3,5) c chunk_count_bounds [of n] by (intro clear_n_loop_next) (auto simp: algebra_simps)
  then obtain b where b: "clear_n_loop ?b (int si) sb ?c (Suc 0) (n - ?m) = Some b"
    "bm_used b = bm_used bmp - of_nat ?m - of_nat (n - ?m)" "bm_free b = bm_free bmp + of_nat ?m + of_nat (n - ?m)"
    "\<And>k. bit_at (bm_map b) k \<longleftrightarrow> bit_at ?map k \<and> \<not> (64 * (si + Suc 0) \<le> k \<and> k < 64 * (si + Suc 0) + (n - ?m))"
    by auto
  have map: "bit_at ?map k \<longleftrightarrow> bit_at (bm_map bmp) k \<and> \<not> (64 * si + sb \<le> k \<and> k < 64 * si + (sb + ?m))" for k
    using w(2) sb by (intro bit_at_clear_region [OF si]) auto
  have "(64 * si + sb \<le> k \<and> k < 64 * si + (sb + ?m)) \<or> (64 * (si + Suc 0) \<le> k \<and> k < 64 * (si + Suc 0) + (n - ?m))
      \<longleftrightarrow> s \<le> k \<and> k < s + n" for k
    unfolding s min_def using sb by (cases "n \<le> 64 - sb") (simp_all, arith+)
  then have "bit_at (bm_map b) k \<longleftrightarrow> bit_at (bm_map bmp) k \<and> \<not> (s \<le> k \<and> k < s + n)" for k
    unfolding b(4) map by blast
  then have "bits_of b = bits_of bmp - {s..<s + n}"
    unfolding bits_of_def set_eq_iff by simp
  moreover have "of_nat ?m + of_nat (n - ?m) = (of_nat n :: u64)"
    by (simp flip: of_nat_add)
  moreover have "bitmap_clear_n bmp (int s) n = Some (int n, b)"
    using eq b(1) assms(2) by (simp add: bitmap_clear_n_def flip: si_def sb_def)
  ultimately show ?thesis
    using b(2,3) by (intro exI [of _ b]) (simp add: diff_diff_eq add.assoc)
qed

lemma chunk_count_1: "0 < n \<Longrightarrow> n \<le> 64 \<Longrightarrow> chunk_count n = 1"
  by (cases "n = 64") (simp_all add: chunk_count_def)

lemma bits_of_iff: "i \<in> bits_of bmp \<longleftrightarrow> bit_at (bm_map bmp) i"
  by (simp add: bits_of_def)

lemma popcnt_region:
  assumes "j < length m" "\<forall>x<64. bit w x \<longleftrightarrow> a \<le> x \<and> x < b" "b \<le> 64"
  shows "popcnt64 ((m ! j) AND w) = card ({i. bit_at m i} \<inter> {64 * j + a..<64 * j + b})"
proof -
  let ?A = "{k. k < 64 \<and> bit ((m ! j) AND w) k}"
  have "{i. bit_at m i} \<inter> {64 * j + a..<64 * j + b} = (\<lambda>x. 64 * j + x) ` ?A"
  proof (intro subset_antisym subsetI)
    fix y assume "y \<in> {i. bit_at m i} \<inter> {64 * j + a..<64 * j + b}"
    then have "bit_at m y" "y div 64 = j" "bit w (y mod 64)"
      using word_region_iff [OF assms(2,3), of j y] by auto
    then have "y mod 64 \<in> ?A" "y = 64 * j + y mod 64"
      by (auto simp: bit_and_iff bit_at_def)
    then show "y \<in> (\<lambda>x. 64 * j + x) ` ?A" by (rule rev_image_eqI)
  qed (use assms in \<open>auto simp: bit_and_iff bit_at_def\<close>)
  then show ?thesis
    by (simp add: popcnt64_card card_image)
qed

text \<open>Reading and setting a region that lies in one word and is shorter than it.\<close>

lemma bitmap_set_n_region:
  assumes "0 < n" "n < 64" "n \<le> unat (bm_free bmp)" "s mod 64 + n \<le> 64" "s < 64 * length (bm_map bmp)"
  shows "bitmap_get_n bmp (int s) n = Some (card (bits_of bmp \<inter> {s..<s + n})) \<and>
    (\<exists>b. bitmap_set_n bmp (int s) n = Some (card (bits_of bmp \<inter> {s..<s + n}), b) \<and>
     bits_of b = bits_of bmp \<union> {s..<s + n} \<and>
     bm_used b = bm_used bmp + of_nat n \<and> bm_free b = bm_free bmp - of_nat n)"
proof -
  define si sb where "si = s div 64" and "sb = s mod 64"
  have s: "s = 64 * si + sb" by (simp add: si_def sb_def)
  have sb: "sb < 64" by (simp add: sb_def)
  have si: "si < length (bm_map bmp)" using assms(5) by (simp add: less_64_mult_iff si_def)
  have m: "min n 64 = n" and c: "chunk_count n = 1" using assms chunk_count_1 [of n] by auto
  obtain w where w: "chunk_mask 0 (chunk_count n) n n sb = Some w" "\<forall>j<64. bit w j \<longleftrightarrow> sb \<le> j \<and> j < sb + n"
    using chunk_mask_first [OF assms(2) sb] by blast
  have "sb + n \<le> 64" using assms(4) by (simp add: sb_def)
  note region = si w(2) this
  have card: "popcnt64 (bm_map bmp ! si AND w) = card (bits_of bmp \<inter> {s..<s + n})"
    unfolding bits_of_def s using popcnt_region [OF region] by (simp add: add.assoc)
  let ?map = "(bm_map bmp)[si := (bm_map bmp ! si) OR w]"
  let ?b = "bmp\<lparr>bm_map := ?map, bm_used := bm_used bmp + of_nat n, bm_free := bm_free bmp - of_nat n\<rparr>"
  have loops: "get_n_loop (bm_map bmp) (int si) sb (chunk_count n) 0 n 0 = Some (popcnt64 (bm_map bmp ! si AND w))"
    "set_n_loop bmp (int si) sb (chunk_count n) 0 n 0 = Some (popcnt64 (bm_map bmp ! si AND w), ?b)"
    using c w load_int [OF si] store_int [OF si] m
    by (simp_all add: get_n_loop.simps set_n_loop.simps Let_def)
  have "bits_of ?b = bits_of bmp \<union> {s..<s + n}"
    by (intro set_eqI) (simp add: bits_of_iff bit_at_set_region [OF region] s add.assoc)
  with loops card assms(3) show ?thesis
    by (simp add: bitmap_get_n_def bitmap_set_n_def flip: si_def sb_def)
qed

lemma bitmap_get_set_nfree_short:
  assumes "bitmap_ok bmp" "0 < n" "n \<le> 64" "n \<le> unat (bm_free bmp)"
  shows "\<exists>r b. bitmap_get_set_nfree bmp n 0 = Some (r, b) \<and>
     (if \<exists>i<length (bm_map bmp). \<exists>p. free_in_word (bm_map bmp) n i p
      then \<exists>s. r = int s \<and> s mod 64 + n \<le> 64 \<and> s + n \<le> 64 * length (bm_map bmp) \<and>
             {s..<s + n} \<inter> bits_of bmp = {} \<and> bits_of b = bits_of bmp \<union> {s..<s + n} \<and>
             bm_free b = bm_free bmp - of_nat n
      else r = -1 \<and> b = bmp)"
proof -
  let ?arr = "bm_map bmp"
  have words: "unat (bm_size bmp) div 8 = length ?arr" using assms(1) by (simp add: bitmap_ok_def)
  obtain r where r: "nfree_fast ?arr n 0 (length ?arr) = Some r" "first_fit ?arr n 0 (length ?arr) r"
    using nfree_fast_spec [OF assms(2,3) order_refl] by blast
  show ?thesis
  proof (cases r)
    case None
    then show ?thesis using r words assms by (auto simp: bitmap_get_set_nfree_def first_fit_def)
  next
    case (Some x)
    obtain i p whole where x: "x = (i, p, whole)" by (cases x)
    have i: "i < length ?arr" and free: "free_in_word ?arr n i p"
      using r(2) Some x by (auto simp: first_fit_def)
    let ?w = "push_bit p (drop_bit (64 - n) MAX_NUM)"
    have pn: "p < 64" "64 - n < 64" "p + n \<le> 64" using free assms(2) by (auto simp: free_in_word_def)
    have w: "\<forall>x<64. bit ?w x \<longleftrightarrow> p \<le> x \<and> x < p + n"
      using pn assms(3) by (auto simp: bit_push_bit_iff bit_drop_bit_eq)
    let ?b = "bmp\<lparr>bm_map := ?arr[i := (?arr ! i) OR ?w], bm_free := bm_free bmp - of_nat n,
                   bm_used := bm_used bmp + (if whole then 0 else of_nat n)\<rparr>"
    have call: "bitmap_get_set_nfree bmp n 0 = Some (int (i * 64) + int p, ?b)"
      using r(1) Some x i pn assms(3,4) words by (simp add: bitmap_get_set_nfree_def)
    have "bits_of ?b = bits_of bmp \<union> {64 * i + p..<64 * i + (p + n)}"
      by (intro set_eqI) (simp add: bits_of_iff bit_at_set_region [OF i w pn(3)])
    moreover have "{64 * i + p..<64 * i + (p + n)} \<inter> bits_of bmp = {}"
    proof (intro equalityI subsetI)
      fix y assume "y \<in> {64 * i + p..<64 * i + (p + n)} \<inter> bits_of bmp"
      then have y: "y div 64 = i" "bit ?w (y mod 64)" "bit (?arr ! i) (y mod 64)"
        using word_region_iff [OF w pn(3), of i y] by (auto simp: bits_of_iff bit_at_def)
      then have "p \<le> y mod 64" "y mod 64 - p < n" using w by auto
      with free have "\<not> bit (?arr ! i) (p + (y mod 64 - p))" unfolding free_in_word_def by blast
      with y \<open>p \<le> y mod 64\<close> show "y \<in> {}" by simp
    qed simp
    moreover have "64 * i + (p + n) \<le> 64 * length ?arr" using i pn(3) by simp
    ultimately have "\<exists>s. int (i * 64) + int p = int s \<and> s mod 64 + n \<le> 64 \<and> s + n \<le> 64 * length ?arr \<and>
        {s..<s + n} \<inter> bits_of bmp = {} \<and> bits_of ?b = bits_of bmp \<union> {s..<s + n} \<and>
        bm_free ?b = bm_free bmp - of_nat n"
      using pn by (intro exI [of _ "64 * i + p"]) (simp add: add.assoc)
    moreover have "\<exists>i<length ?arr. \<exists>p. free_in_word ?arr n i p" using i free by blast
    ultimately show ?thesis unfolding call by simp
  qed
qed

text \<open>Requests for more than one word.\<close>

lemma zero_run_spec:
  assumes "mx \<le> length arr" "f < c"
  shows "\<exists>r. zero_run arr j mx f c = Some r \<and> (r = RunFound \<longrightarrow> 
     j + (c - f) \<le> mx \<and> (\<forall>x. j \<le> x \<and> x < j + (c - f) \<longrightarrow> arr ! x = 0))"
  using assms
proof (induction arr j mx f c rule: zero_run.induct)
  case (1 arr j mx f c)
  show ?case
  proof (cases "j < mx \<and> arr ! j = 0 \<and> Suc f < c")
    case True
    with 1 have load: "load arr (int j) = Some (arr ! j)" by simp
    with True have eq: "zero_run arr j mx f c = zero_run arr (Suc j) mx (Suc f) c"
      by (simp add: zero_run.simps [of arr j])
    obtain r where r: "zero_run arr (Suc j) mx (Suc f) c = Some r"
      "r = RunFound \<longrightarrow> Suc j + (c - Suc f) \<le> mx \<and> (\<forall>x. Suc j \<le> x \<and> x < Suc j + (c - Suc f) \<longrightarrow> arr ! x = 0)"
      using 1 True load by auto
    have "arr ! x = 0" if "r = RunFound" "j \<le> x" "x < j + (c - f)" for x
      using r(2) that True by (cases "x = j") auto
    with r True eq show ?thesis by auto
  next
    case False
    then consider "\<not> j < mx" | "j < mx" "arr ! j \<noteq> 0" | "j < mx" "c = Suc f" using 1 by fastforce
    then show ?thesis using 1 by cases (auto simp: zero_run.simps [of arr j] le_less_Suc_eq)
  qed
qed

lemma nfree_slow_spec:
  assumes "mx \<le> length arr" "0 < c"
  shows "\<exists>r. nfree_slow arr align i mx c = Some r \<and> (\<forall>k. r = Found k \<longrightarrow>
     i \<le> k \<and> k + c \<le> mx \<and> (\<forall>x. k \<le> x \<and> x < k + c \<longrightarrow> arr ! x = 0) \<and> (k * 64) mod align = 0)"
  using assms
proof (induction arr align i mx c rule: nfree_slow.induct)
  case (1 arr align i mx c)
  show ?case
  proof (cases "i < mx")
    case True
    with 1 have load: "load arr (int i) = Some (arr ! i)" by simp
    show ?thesis
    proof (cases "arr ! i \<noteq> 0 \<or> (i * 64) mod align \<noteq> 0")
      case skip: True
      obtain r where "nfree_slow arr align (Suc i) mx c = Some r" "\<forall>k. r = Found k \<longrightarrow>
          Suc i \<le> k \<and> k + c \<le> mx \<and> (\<forall>x. k \<le> x \<and> x < k + c \<longrightarrow> arr ! x = 0) \<and> (k * 64) mod align = 0"
        using "1.IH"(1) [OF True load skip] 1 by blast
      then show ?thesis using True load skip by (auto simp: nfree_slow.simps [of arr align i])
    next
      case noskip: False
      obtain q where q: "zero_run arr i mx 0 c = Some q"
        "q = RunFound \<longrightarrow> i + c \<le> mx \<and> (\<forall>x. i \<le> x \<and> x < i + c \<longrightarrow> arr ! x = 0)"
        using zero_run_spec [of mx arr 0 c i] 1 by auto
      show ?thesis
      proof (cases q)
        case (RunBusy j)
        with q have "i \<le> j" using zero_run_busy_ge by blast
        obtain r where "nfree_slow arr align (Suc (j + 1)) mx c = Some r" "\<forall>k. r = Found k \<longrightarrow>
            Suc (j + 1) \<le> k \<and> k + c \<le> mx \<and> (\<forall>x. k \<le> x \<and> x < k + c \<longrightarrow> arr ! x = 0) \<and> (k * 64) mod align = 0"
          using "1.IH"(2) [OF True load noskip q(1) RunBusy] 1 by blast
        then show ?thesis
          using True load noskip q RunBusy \<open>i \<le> j\<close> by (fastforce simp: nfree_slow.simps [of arr align i])
      qed (use True load noskip q in \<open>auto simp: nfree_slow.simps [of arr align i]\<close>)
    qed
  qed (simp add: nfree_slow.simps)
qed

lemma nfree_fill_spec:
  assumes "i < c" "idx + c \<le> length arr"
  shows "\<exists>a. nfree_fill arr (int idx) i c (64 * (c - i)) = Some a \<and> length a = length arr \<and>
    (\<forall>x<length arr. a ! x = (if idx + i \<le> x \<and> x < idx + c then MAX_NUM else arr ! x))"
  using assms
proof (induction "c - i" arbitrary: i arr)
  case (Suc d)
  have st: "store arr (int idx + int i) MAX_NUM = Some (arr[idx + i := MAX_NUM])"
    using Suc.prems store_int [of "idx + i" arr] by simp
  show ?case
  proof (cases "Suc i < c")
    case True
    then have eq: "nfree_fill arr (int idx) i c (64 * (c - i)) =
        nfree_fill (arr[idx + i := MAX_NUM]) (int idx) (Suc i) c (64 * (c - Suc i))"
      using st by (subst nfree_fill.simps) (auto simp: Let_def min_def algebra_simps)
    obtain a where a: "nfree_fill (arr[idx + i := MAX_NUM]) (int idx) (Suc i) c (64 * (c - Suc i)) = Some a"
      "length a = length arr" "\<And>x. x < length arr \<Longrightarrow>
        a ! x = (if idx + Suc i \<le> x \<and> x < idx + c then MAX_NUM else arr[idx + i := MAX_NUM] ! x)"
      using Suc.hyps(1) [of "Suc i" "arr[idx + i := MAX_NUM]"] Suc.hyps(2) Suc.prems True
      by fastforce
    have "a ! x = (if idx + i \<le> x \<and> x < idx + c then MAX_NUM else arr ! x)" if "x < length arr" for x
      using a(3) [OF that] that Suc.prems by (cases "x = idx + i") auto
    with a(1,2) show ?thesis unfolding eq by blast
  next
    case False
    with Suc.prems have "c = Suc i" by simp
    with st Suc.prems show ?thesis by (subst nfree_fill.simps) (auto simp: nth_list_update)
  qed
qed simp

lemma bitmap_get_set_nfree_long:
  assumes "bitmap_ok bmp" "1 < c" "64 * c \<le> unat (bm_free bmp)" "align AND (align - 1) = 0"
  shows "\<exists>x. nfree_slow (bm_map bmp) (if align = 0 then 1 else unat align) 0 (length (bm_map bmp)) c = Some x \<and>
    (case x of
       Found i \<Rightarrow> \<exists>b. bitmap_get_set_nfree bmp (64 * c) align = Some (int (64 * i), b) \<and>
         64 * (i + c) \<le> 64 * length (bm_map bmp) \<and>
         (if align = 0 then 1 else unat align) dvd 64 * i \<and> {64 * i..<64 * (i + c)} \<inter> bits_of bmp = {} \<and>
         bits_of b = bits_of bmp \<union> {64 * i..<64 * (i + c)} \<and>
         bm_used b = bm_used bmp + of_nat (64 * c) \<and> bm_free b = bm_free bmp - of_nat (64 * c)
     | Early \<Rightarrow> bitmap_get_set_nfree bmp (64 * c) align = Some (-1, bmp)
     | NotFound \<Rightarrow> bitmap_get_set_nfree bmp (64 * c) align = None)"
proof -
  let ?arr = "bm_map bmp" and ?al = "if align = 0 then 1 else unat align"
  have words: "unat (bm_size bmp) div 8 = length ?arr" using assms(1) by (simp add: bitmap_ok_def)
  have cc: "chunk_count (64 * c) = c" by (simp add: chunk_count_def)
  obtain x where x: "nfree_slow ?arr ?al 0 (length ?arr) c = Some x" "\<forall>k. x = Found k \<longrightarrow>
       0 \<le> k \<and> k + c \<le> length ?arr \<and> (\<forall>x. k \<le> x \<and> x < k + c \<longrightarrow> ?arr ! x = 0) \<and> (k * 64) mod ?al = 0"
    using nfree_slow_spec [of "length ?arr" ?arr c ?al 0] assms(2) by auto
  have call: "bitmap_get_set_nfree bmp (64 * c) align = (case x of Early \<Rightarrow> Some (-1, bmp) | _ \<Rightarrow> do {
             let index = (case x of Found i \<Rightarrow> int i | _ \<Rightarrow> -1);
             m \<leftarrow> nfree_fill ?arr index 0 c (64 * c);
             Some (index * 64,
                   bmp\<lparr>bm_map := m, bm_used := bm_used bmp + of_nat (64 * c),
                       bm_free := bm_free bmp - of_nat (64 * c)\<rparr>) })"
    using assms x(1) words cc by (simp add: bitmap_get_set_nfree_def Let_def)
  show ?thesis
  proof (cases x)
    case (Found i)
    have k: "i + c \<le> length ?arr" "\<And>x. i \<le> x \<Longrightarrow> x < i + c \<Longrightarrow> ?arr ! x = 0" "(i * 64) mod ?al = 0"
      using x(2) Found by auto
    obtain a where a: "nfree_fill ?arr (int i) 0 c (64 * c) = Some a" "length a = length ?arr"
      "\<And>x. x < length ?arr \<Longrightarrow> a ! x = (if i \<le> x \<and> x < i + c then MAX_NUM else ?arr ! x)"
      using nfree_fill_spec [of 0 c i ?arr] k(1) assms(2) by auto
    have region: "y \<in> {64 * i..<64 * (i + c)} \<longleftrightarrow> i \<le> y div 64 \<and> y div 64 < i + c" for y
      unfolding atLeastLessThan_iff less_64_mult_iff [of y "i + c"]
      by (simp add: less_eq_div_iff_mult_less_eq mult.commute)
    have "bit_at a y \<longleftrightarrow> bit_at ?arr y \<or> y \<in> {64 * i..<64 * (i + c)}" for y
      unfolding region bit_at_def less_64_mult_iff a(2) using a(3) [of "y div 64"] k(1) by auto
    moreover have "\<not> (y \<in> {64 * i..<64 * (i + c)} \<and> bit_at ?arr y)" for y
      using k(2) [of "y div 64"] region [of y] by (auto simp: bit_at_def)
    moreover have "?al dvd 64 * i"
      using k(3) by (simp add: mult.commute [of i] mod_eq_0_iff_dvd del: mod_mult_self1_is_0 split: if_splits)
    ultimately show ?thesis
      using x(1) Found call a(1) k(1) by (auto simp: bits_of_iff)
  next
    case NotFound
    moreover have "nfree_fill ?arr (-1) 0 c (64 * c) = None"
      using assms(2) by (subst nfree_fill.simps) (simp add: Let_def store_def)
    ultimately show ?thesis using x(1) call by simp
  qed (use x(1) call in simp)
qed

section \<open>The bitmap as an allocator of identifiers\<close>

text \<open>
  The file table and the frame allocator use a bitmap whose capacity fills its words. Allocation
  is \<open>bitmap_get_set_free\<close> with -1 read as failure, release is \<open>bitmap_clear\<close>.
\<close>

definition bm_whole :: "bitmap \<Rightarrow> bool" where
  "bm_whole bmp \<longleftrightarrow> bitmap_ok bmp \<and> bm_cap bmp = 64 * length (bm_map bmp)"

definition bm_alloc :: "bitmap \<Rightarrow> (nat \<times> bitmap) option" where
  "bm_alloc bmp = (case bitmap_get_set_free bmp of
     Some (i, b) \<Rightarrow> if i < 0 then None else Some (nat i, b)
   | None \<Rightarrow> None)"

definition bm_release :: "nat \<Rightarrow> bitmap \<Rightarrow> bitmap" where
  "bm_release i bmp = (case bitmap_clear bmp (int i) of Some (_, b) \<Rightarrow> b | None \<Rightarrow> bmp)"

lemma first_free_Some:
  "first_free bmp = Some i \<Longrightarrow> bm_free bmp \<noteq> 0 \<and> i < 64 * length (bm_map bmp) \<and>
     i \<notin> bits_of bmp \<and> (\<forall>j<i. j \<in> bits_of bmp)"
  by (auto simp: first_free_def find_upt_Some_iff bits_of_def split: if_splits)

lemma first_free_None:
  "first_free bmp = None \<longleftrightarrow> bm_free bmp = 0 \<or> {..<64 * length (bm_map bmp)} \<subseteq> bits_of bmp"
  by (auto simp: first_free_def find_upt_None_iff bits_of_def)

lemma bm_alloc_Some:
  assumes "bitmap_ok bmp" "bm_alloc bmp = Some (i, b)"
  shows "first_free bmp = Some i \<and> bits_of b = insert i (bits_of bmp) \<and> bitmap_ok b \<and>
    bm_cap b = bm_cap bmp \<and> length (bm_map b) = length (bm_map bmp) \<and> bm_free b = bm_free bmp"
proof -
  obtain k where k: "first_free bmp = Some k" "i = k"
    "b = bmp\<lparr>bm_map := (bm_map bmp)[k div 64 := set_bit (k mod 64) (bm_map bmp ! (k div 64))]\<rparr>"
    using assms bitmap_get_set_free_first [OF assms(1)]
    by (auto simp: bm_alloc_def split: option.splits)
  then have "k div 64 < length (bm_map bmp)"
    using first_free_Some [OF k(1)] by (simp add: less_64_mult_iff)
  then show ?thesis
    using k assms(1) bit_at_set_bit [of k "bm_map bmp"] by (auto simp: bits_of_def bitmap_ok_def bm_cap_def)
qed

lemma bm_release_spec:
  assumes "bitmap_ok bmp" "i < bm_cap bmp"
  shows "bits_of (bm_release i bmp) = bits_of bmp - {i} \<and> bitmap_ok (bm_release i bmp) \<and>
    bm_cap (bm_release i bmp) = bm_cap bmp \<and>
    length (bm_map (bm_release i bmp)) = length (bm_map bmp)"
proof -
  obtain r b where b: "bitmap_clear bmp (int i) = Some (r, b)" "bits_of b = bits_of bmp - {i}"
    "bitmap_ok b" "bm_cap b = bm_cap bmp" "bm_size b = bm_size bmp"
    using bitmap_clear_bits [OF assms] by blast
  with assms(1) have "length (bm_map b) = length (bm_map bmp)" by (simp add: bitmap_ok_def)
  with b show ?thesis by (simp add: bm_release_def)
qed

interpretation bm: id_allocator bm_whole bits_of "\<lambda>bmp. 64 * length (bm_map bmp)" bm_alloc bm_release
proof
  fix s i s' j
  assume s: "bm_whole s" and a: "bm_alloc s = Some (i, s')"
  then have ok: "bitmap_ok s" by (simp add: bm_whole_def)
  note facts = bm_alloc_Some [OF ok a] first_free_Some [of s i]
  show "bm_whole s' \<and> 64 * length (bm_map s') = 64 * length (bm_map s)"
    using s facts(1) by (simp add: bm_whole_def)
  show "i < 64 * length (bm_map s) \<and> i \<notin> bits_of s" "bits_of s' = insert i (bits_of s)"
    using facts by blast+
  show "j \<in> bits_of s" if "j < i" using that facts by blast
next
  fix s i
  assume s: "bm_whole s" and i: "i < 64 * length (bm_map s)"
  then have "bitmap_ok s" "i < bm_cap s" by (simp_all add: bm_whole_def)
  note facts = bm_release_spec [OF this]
  show "bm_whole (bm_release i s) \<and> 64 * length (bm_map (bm_release i s)) = 64 * length (bm_map s)"
    using s facts by (simp add: bm_whole_def)
  show "bits_of (bm_release i s) = bits_of s - {i}" using facts by blast
qed

lemma bitmap_init_spec:
  assumes "n \<le> 4194304"
  shows "\<exists>b. bitmap_init n = Some b \<and> bitmap_ok b \<and> bits_of b = {} \<and> bm_cap b = unat n \<and>
     length (bm_map b) = (unat n + 63) div 64 \<and> bm_free b = n"
proof -
  let ?na = "align_up n 64" and ?w = "(unat n + 63) div 64"
  have n: "unat n \<le> 4194304" using assms by (simp add: word_le_nat_alt)
  have "unat ?na = ?w * 64" using align_up_unat [of 6 n] n by simp
  then have bytes: "unat (?na div 8) = 8 * ?w" by (simp add: unat_div)
  then have small: "?na div 8 \<le> 524288" using n by (simp add: word_le_nat_alt)
  have clear: "\<not> bit_at (replicate m 0) i" for m i by (simp add: bit_at_def less_64_mult_iff)
  have "unat n \<le> 64 * ?w" by linarith
  with bytes small clear show ?thesis
    by (simp add: bitmap_init_def Let_def bitmap_ok_def bm_cap_def bits_of_def)
qed

section \<open>Properties\<close>

lemma bitmap_set_counters: "bitmap_set bmp k = Some (v, b) \<Longrightarrow> bm_used b = bm_used bmp + 1 \<and> bm_free b = bm_free bmp - 1"
  by (auto simp: bitmap_set_def Let_def split: bind_splits if_splits)

lemma bitmap_clear_counters:
  "bitmap_clear bmp k = Some (v, b) \<Longrightarrow> bm_used b = bm_used bmp - of_bool v \<and> bm_free b = bm_free bmp + of_bool v"
  by (auto simp: bitmap_clear_def Let_def split: bind_splits if_splits)

text \<open>
  C17: The single-bit operations are the operations of a set of indices: for every index the
  assertion admits, \<open>bitmap_get\<close> is membership, \<open>bitmap_set\<close> inserts the index and
  \<open>bitmap_clear\<close> removes it, leaving all other bits, the capacity and the well-formedness alone.
  Both return the previous value of the bit: for \<open>bitmap_clear\<close> that is whether the bit changed, as
  its comment says, for \<open>bitmap_set\<close> it is the opposite of what its comment says. \<open>bitmap_clear\<close> moves one
  from the used to the free count when the bit was set; \<open>bitmap_set\<close> always moves one to the used
  count, also when the bit was set already.
\<close>

theorem bitmap_bit_ops_set:
  assumes "bitmap_ok bmp" "k < bm_cap bmp"
  shows "bitmap_get bmp (int k) = Some (k \<in> bits_of bmp) \<and>
    (\<exists>b. bitmap_set bmp (int k) = Some (k \<in> bits_of bmp, b) \<and>
       bits_of b = insert k (bits_of bmp) \<and> bitmap_ok b \<and> bm_cap b = bm_cap bmp \<and>
       bm_used b = bm_used bmp + 1 \<and> bm_free b = bm_free bmp - 1) \<and>
    (\<exists>b. bitmap_clear bmp (int k) = Some (k \<in> bits_of bmp, b) \<and>
       bits_of b = bits_of bmp - {k} \<and> bitmap_ok b \<and> bm_cap b = bm_cap bmp \<and>
       bm_used b = bm_used bmp - of_bool (k \<in> bits_of bmp) \<and> bm_free b = bm_free bmp + of_bool (k \<in> bits_of bmp))"
  using bitmap_get_bits [OF assms] bitmap_set_bits [OF assms] bitmap_clear_bits [OF assms]
    bitmap_set_counters [of bmp "int k"] bitmap_clear_counters [of bmp "int k"] by blast

text \<open>Setting bit 70, and setting bit 2, which is set already: the count of used bits grows all the same.\<close>

theorem bitmap_bit_ops_set_witness:
  "(\<exists>b. bitmap_set \<lparr>bm_map = [5, 0], bm_size = 16, bm_free = 98, bm_used = 2\<rparr> 70 = Some (False, b) \<and> 70 \<in> bits_of b) \<and>
   (\<exists>b. bitmap_set \<lparr>bm_map = [5, 0], bm_size = 16, bm_free = 98, bm_used = 2\<rparr> 2 = Some (True, b) \<and> bm_used b = 3)"
proof -
  let ?b = "\<lparr>bm_map = [5, 0], bm_size = 16, bm_free = 98, bm_used = 2\<rparr> :: bitmap"
  have b: "bitmap_ok ?b" "70 < bm_cap ?b" "2 < bm_cap ?b" "70 \<notin> bits_of ?b" "2 \<in> bits_of ?b"
    by (simp_all add: bitmap_ok_def bm_cap_def bits_of_def bit_at_def)
  have "\<exists>b. bitmap_set ?b (int 70) = Some (False, b) \<and> 70 \<in> bits_of b"
    using bitmap_bit_ops_set [OF b(1,2)] b(4) by (metis insertI1)
  moreover have "\<exists>b. bitmap_set ?b (int 2) = Some (True, b) \<and> bm_used b = bm_used ?b + 1"
    using bitmap_bit_ops_set [OF b(1,3)] b(5) by metis
  ultimately show ?thesis by simp
qed

text \<open>
  C4: \<open>bitmap_get_set_free\<close> hands out the smallest clear bit: on a well-formed bitmap it always
  returns; when the free counter is zero or every bit is set it answers -1 and changes nothing,
  and otherwise it returns an index that was clear, below which every bit is set, and sets
  exactly that bit.
\<close>

theorem bitmap_get_set_free_lowest:
  assumes "bitmap_ok bmp"
  shows "\<exists>r b. bitmap_get_set_free bmp = Some (r, b) \<and>
    (if bm_free bmp = 0 \<or> {..<64 * length (bm_map bmp)} \<subseteq> bits_of bmp then r = -1 \<and> b = bmp
     else \<exists>i. r = int i \<and> i \<notin> bits_of bmp \<and> (\<forall>j<i. j \<in> bits_of bmp) \<and>
            bits_of b = insert i (bits_of bmp))"
proof (cases "first_free bmp")
  case None
  then show ?thesis
    using bitmap_get_set_free_first [OF assms] first_free_None [of bmp] by auto
next
  case (Some i)
  then obtain b where call: "bitmap_get_set_free bmp = Some (int i, b)"
    using bitmap_get_set_free_first [OF assms] by simp
  then have "bm_alloc bmp = Some (i, b)" by (simp add: bm_alloc_def)
  from bm_alloc_Some [OF assms this] have "bits_of b = insert i (bits_of bmp)" by blast
  moreover have "\<not> (bm_free bmp = 0 \<or> {..<64 * length (bm_map bmp)} \<subseteq> bits_of bmp)"
    using Some first_free_None [of bmp] by simp
  ultimately show ?thesis using call first_free_Some [OF Some] by (simp only: if_False) blast
qed

theorem bitmap_get_set_free_lowest_witness:
  "\<exists>b. bitmap_get_set_free \<lparr>bm_map = [7], bm_size = 8, bm_free = 61, bm_used = 3\<rparr> = Some (3, b)"
proof -
  let ?b = "\<lparr>bm_map = [7], bm_size = 8, bm_free = 61, bm_used = 3\<rparr> :: bitmap"
  have ok: "bitmap_ok ?b" by (simp add: bitmap_ok_def bm_cap_def)
  have mem: "x \<in> bits_of ?b \<longleftrightarrow> x < 3" for x
  proof -
    have "bit (7 :: u64) x \<longleftrightarrow> x < 3"
      using bit_mask_iff [where 'a = "64 word", of 3 x] by (auto simp: mask_eq_exp_minus_1)
    then show ?thesis by (cases "x < 64") (simp_all add: bits_of_def bit_at_def)
  qed
  have notfull: "\<not> (bm_free ?b = 0 \<or> {..<64 * length (bm_map ?b)} \<subseteq> bits_of ?b)"
    using mem [of 3] by (auto simp: subset_eq)
  from bitmap_get_set_free_lowest [OF ok, unfolded if_not_P [OF notfull]] obtain i b where
    "bitmap_get_set_free ?b = Some (int i, b)" "i \<notin> bits_of ?b" "\<forall>j<i. j \<in> bits_of ?b"
    by blast
  moreover from this(2,3) have "i = 3" unfolding mem by (meson linorder_neqE_nat less_irrefl)
  ultimately show ?thesis by auto
qed

text \<open>
  C8: Identifiers taken from a bitmap one after the other are pairwise distinct, were all unused,
  lie below the capacity, and are exactly what is newly in use afterwards.
\<close>

theorem bitmap_allocations_distinct:
  assumes "bm_whole bmp" "alloc_list bm_alloc n bmp = Some (is, bmp')"
  shows "length is = n \<and> distinct is \<and> set is \<inter> bits_of bmp = {} \<and>
    set is \<subseteq> {..<64 * length (bm_map bmp)} \<and> bits_of bmp' = bits_of bmp \<union> set is"
  using bm.alloc_list_fresh [OF assms] by blast

theorem bitmap_allocations_distinct_witness:
  "\<exists>ids b. alloc_list bm_alloc 2 \<lparr>bm_map = [1], bm_size = 8, bm_free = 63, bm_used = 1\<rparr> = Some (ids, b) \<and>
     distinct ids \<and> 0 \<notin> set ids"
proof -
  let ?b = "\<lparr>bm_map = [1], bm_size = 8, bm_free = 63, bm_used = 1\<rparr> :: bitmap"
  have whole: "bm_whole ?b" by (simp add: bm_whole_def bitmap_ok_def bm_cap_def)
  have "alloc_list bm_alloc 2 ?b \<noteq> None" by code_simp
  then obtain ids b where run: "alloc_list bm_alloc 2 ?b = Some (ids, b)" by auto
  have "0 \<in> bits_of ?b" by (simp add: bits_of_def bit_at_def)
  with bitmap_allocations_distinct [OF whole run] run show ?thesis by blast
qed

end
