(* ===== verification/Strings.thy ===== *)
theory Strings
  imports Kernel_Prelude
begin

text \<open>
  The memory and string routines of \<^verbatim>\<open>kernel/string.c\<close>. Memory is one array of bytes and
  every pointer an address in it, so source and destination may overlap as they may in C;
  an access outside the array is \<open>None\<close>. \<open>char\<close> is signed, as on x86-64.
\<close>

section \<open>Memory routines\<close>

type_synonym memory = "u8 list"

primrec memcmp :: "memory \<Rightarrow> int \<Rightarrow> int \<Rightarrow> nat \<Rightarrow> int option" where
  "memcmp mem s1 s2 0 = Some 0"
| "memcmp mem s1 s2 (Suc count) = do {
     c1 \<leftarrow> load mem s1;
     c2 \<leftarrow> load mem s2;
     if c1 \<noteq> c2 then Some (if c1 < c2 then -1 else 1)
     else memcmp mem (s1 + 1) (s2 + 1) count }"

text \<open>The forward copy loop \<open>while (len--) *d++ = *s++\<close> and the backward one of \<open>memmove\<close>.\<close>

primrec copy_forward :: "memory \<Rightarrow> int \<Rightarrow> int \<Rightarrow> nat \<Rightarrow> memory option" where
  "copy_forward mem d s 0 = Some mem"
| "copy_forward mem d s (Suc len) = do {
     c \<leftarrow> load mem s;
     m \<leftarrow> store mem d c;
     copy_forward m (d + 1) (s + 1) len }"

primrec copy_backward :: "memory \<Rightarrow> int \<Rightarrow> int \<Rightarrow> nat \<Rightarrow> memory option" where
  "copy_backward mem lastd lasts 0 = Some mem"
| "copy_backward mem lastd lasts (Suc len) = do {
     c \<leftarrow> load mem lasts;
     m \<leftarrow> store mem lastd c;
     copy_backward m (lastd - 1) (lasts - 1) len }"

text \<open>The returned pointer is \<open>None\<close> for \<open>NULL\<close>.\<close>

definition memcpy :: "memory \<Rightarrow> int \<Rightarrow> int \<Rightarrow> nat \<Rightarrow> (int option \<times> memory) option" where
  "memcpy mem dest src len =
     (if len = 0 then Some (None, mem)
      else do { m \<leftarrow> copy_forward mem dest src len; Some (Some dest, m) })"

definition memmove :: "memory \<Rightarrow> int \<Rightarrow> int \<Rightarrow> nat \<Rightarrow> (int \<times> memory) option" where
  "memmove mem dest src len =
     (if len = 0 then Some (dest, mem)
      else if dest < src then do { m \<leftarrow> copy_forward mem dest src len; Some (dest, m) }
      else do {
        m \<leftarrow> copy_backward mem (dest + (int len - 1)) (src + (int len - 1)) len;
        Some (dest, m) })"

primrec memset_loop :: "memory \<Rightarrow> int \<Rightarrow> u8 \<Rightarrow> nat \<Rightarrow> memory option" where
  "memset_loop mem p val 0 = Some mem"
| "memset_loop mem p val (Suc len) = do {
     m \<leftarrow> store mem p val;
     memset_loop m (p + 1) val len }"

definition memset :: "memory \<Rightarrow> int \<Rightarrow> int \<Rightarrow> nat \<Rightarrow> (int \<times> memory) option" where
  "memset mem dest val len = do { m \<leftarrow> memset_loop mem dest (word_of_int val) len; Some (dest, m) }"

section \<open>Strings\<close>

lemma load_in_range: "load xs i = Some v \<Longrightarrow> 0 \<le> i \<and> nat i < length xs"
  by (simp add: load_Some)

function strcmp :: "memory \<Rightarrow> int \<Rightarrow> int \<Rightarrow> int option" where
  "strcmp mem s1 s2 = do {
     c1 \<leftarrow> load mem s1;
     c2 \<leftarrow> load mem s2;
     if c1 \<noteq> 0 \<and> c1 = c2 then strcmp mem (s1 + 1) (s2 + 1)
     else Some (sint c1 - sint c2) }"
  by pat_completeness auto
termination
  by (relation "measure (\<lambda>(mem, s1, s2). length mem - nat s1)") (auto dest: load_in_range)

declare strcmp.simps [simp del]

primrec strncmp :: "memory \<Rightarrow> int \<Rightarrow> int \<Rightarrow> nat \<Rightarrow> int option" where
  "strncmp mem s1 s2 0 = Some 0"
| "strncmp mem s1 s2 (Suc n) = do {
     u1 \<leftarrow> load mem s1;
     u2 \<leftarrow> load mem s2;
     if u1 \<noteq> u2 then Some (uint u1 - uint u2)
     else if u1 = 0 then Some 0
     else strncmp mem (s1 + 1) (s2 + 1) n }"

function strlen_loop :: "memory \<Rightarrow> int \<Rightarrow> int \<Rightarrow> int option" where
  "strlen_loop mem s len = do {
     c \<leftarrow> load mem s;
     if c \<noteq> 0 then strlen_loop mem (s + 1) (len + 1) else Some len }"
  by pat_completeness auto
termination
  by (relation "measure (\<lambda>(mem, s, len). length mem - nat s)") (auto dest: load_in_range)

declare strlen_loop.simps [simp del]

definition strlen :: "memory \<Rightarrow> int \<Rightarrow> int option" where
  "strlen mem s = strlen_loop mem s 0"

definition strcpy :: "memory \<Rightarrow> int \<Rightarrow> int \<Rightarrow> (int \<times> memory) option" where
  "strcpy mem dest src = do {
     len \<leftarrow> strlen mem src;
     m \<leftarrow> copy_forward mem dest src (nat len);
     m' \<leftarrow> store m (dest + len) 0;
     Some (dest, m') }"

function reverse_loop :: "memory \<Rightarrow> int \<Rightarrow> int \<Rightarrow> int \<Rightarrow> memory option" where
  "reverse_loop mem s i j =
     (if i < j then do {
        ch \<leftarrow> load mem (s + i);
        c \<leftarrow> load mem (s + j);
        m \<leftarrow> store mem (s + i) c;
        m' \<leftarrow> store m (s + j) ch;
        reverse_loop m' s (i + 1) (j - 1) }
      else Some mem)"
  by pat_completeness auto
termination
  by (relation "measure (\<lambda>(mem, s, i, j). nat (j - i))") auto

declare reverse_loop.simps [simp del]

definition reverse :: "memory \<Rightarrow> int \<Rightarrow> memory option" where
  "reverse mem s = do { len \<leftarrow> strlen mem s; reverse_loop mem s 0 (len - 1) }"

text \<open>
  UTF-16 strings are arrays of 16-bit units. \<open>utf16_iconvn_ascii\<close> stays on a unit outside
  ASCII; \<open>utf16_iconv_ascii\<close> never advances its source, so its loop is a partial function.
\<close>

function utf16_strlen_loop :: "u16 list \<Rightarrow> int \<Rightarrow> int \<Rightarrow> int option" where
  "utf16_strlen_loop mem s len = do {
     c \<leftarrow> load mem s;
     if c \<noteq> 0 then utf16_strlen_loop mem (s + 1) (len + 1) else Some len }"
  by pat_completeness auto
termination
  by (relation "measure (\<lambda>(mem, s, len). length mem - nat s)") (auto dest: load_in_range)

declare utf16_strlen_loop.simps [simp del]

definition utf16_strlen :: "u16 list \<Rightarrow> int \<Rightarrow> int option" where
  "utf16_strlen mem s = utf16_strlen_loop mem s 0"

partial_function (option) utf16_iconv_ascii_loop ::
  "u16 list \<Rightarrow> memory \<Rightarrow> int \<Rightarrow> int \<Rightarrow> int \<Rightarrow> (int \<times> memory) option" where
  "utf16_iconv_ascii_loop srcmem mem dest src count = do {
     c \<leftarrow> load srcmem src;
     if c \<noteq> 0 then
       (if c \<le> 127 then do {
          m \<leftarrow> store mem dest (ucast (c AND 0xFF));
          utf16_iconv_ascii_loop srcmem m (dest + 1) src (count + 1) }
        else utf16_iconv_ascii_loop srcmem mem dest src count)
     else Some (count, mem) }"

definition utf16_iconv_ascii :: "u16 list \<Rightarrow> memory \<Rightarrow> int \<Rightarrow> int \<Rightarrow> (int \<times> memory) option" where
  "utf16_iconv_ascii srcmem mem dest src = utf16_iconv_ascii_loop srcmem mem dest src 0"

primrec utf16_iconvn_ascii_loop ::
  "u16 list \<Rightarrow> memory \<Rightarrow> int \<Rightarrow> int \<Rightarrow> nat \<Rightarrow> int \<Rightarrow> (int \<times> memory) option" where
  "utf16_iconvn_ascii_loop srcmem mem dest src 0 count = Some (count, mem)"
| "utf16_iconvn_ascii_loop srcmem mem dest src (Suc n) count = do {
     c \<leftarrow> load srcmem src;
     if c \<le> 127 then do {
       m \<leftarrow> store mem dest (ucast (c AND 0xFF));
       utf16_iconvn_ascii_loop srcmem m (dest + 1) (src + 1) n (count + 1) }
     else utf16_iconvn_ascii_loop srcmem mem dest src n count }"

definition utf16_iconvn_ascii :: "u16 list \<Rightarrow> memory \<Rightarrow> int \<Rightarrow> int \<Rightarrow> nat \<Rightarrow> (int \<times> memory) option" where
  "utf16_iconvn_ascii srcmem mem dest src n = utf16_iconvn_ascii_loop srcmem mem dest src n 0"

section \<open>String conversion\<close>

definition LONG_MAX :: u64 where "LONG_MAX = 0x7FFFFFFFFFFFFFFF"
definition LONG_MIN :: u64 where "LONG_MIN = 0x8000000000000000"

function skip_spaces :: "memory \<Rightarrow> int \<Rightarrow> (int \<times> int) option" where
  "skip_spaces mem s = do {
     c \<leftarrow> load mem s;
     if c = 0x20 then skip_spaces mem (s + 1) else Some (sint c, s + 1) }"
  by pat_completeness auto
termination
  by (relation "measure (\<lambda>(mem, s). length mem - nat s)") (auto dest: load_in_range)

declare skip_spaces.simps [simp del]

text \<open>The digit a character stands for: digits, then letters of either case from 10 on.\<close>

definition digit_of :: "int \<Rightarrow> int option" where
  "digit_of c =
     (if 48 \<le> c \<and> c \<le> 57 then Some (c - 48)
      else if (65 \<le> c \<and> c \<le> 90) \<or> (97 \<le> c \<and> c \<le> 122)
        then Some (c - (if 65 \<le> c \<and> c \<le> 90 then 65 - 10 else 97 - 10))
      else None)"

function strtol_loop ::
  "memory \<Rightarrow> int \<Rightarrow> u64 \<Rightarrow> int \<Rightarrow> int \<Rightarrow> int \<Rightarrow> u64 \<Rightarrow> int \<Rightarrow> (u64 \<times> int \<times> int) option" where
  "strtol_loop mem base cutoff cutlim s c acc any =
     (case digit_of c of
        None \<Rightarrow> Some (acc, any, s)
      | Some d \<Rightarrow>
          if d \<ge> base then Some (acc, any, s)
          else do {
            let over = any < 0 \<or> acc > cutoff \<or> acc = cutoff \<and> d > cutlim;
            c' \<leftarrow> load mem s;
            strtol_loop mem base cutoff cutlim (s + 1) (sint c')
              (if over then acc else acc * word_of_int base + word_of_int d)
              (if over then -1 else 1) })"
  by pat_completeness auto
termination
  by (relation "measure (\<lambda>(mem, base, cutoff, cutlim, s, c, acc, any). length mem - nat s)")
     (auto dest: load_in_range)

declare strtol_loop.simps [simp del]

text \<open>The sign, and the prefix of hexadecimal numbers, which are read from the character \<open>c\<close> before \<open>s\<close>.\<close>

definition strtol_sign :: "memory \<Rightarrow> int \<Rightarrow> int \<Rightarrow> (int \<times> int) option" where
  "strtol_sign mem c s = (if c = 0x2D \<or> c = 0x2B
     then do { c' \<leftarrow> load mem s; Some (sint c', s + 1) } else Some (c, s))"

definition strtol_prefix :: "memory \<Rightarrow> int \<Rightarrow> int \<Rightarrow> int \<Rightarrow> (int \<times> int \<times> int) option" where
  "strtol_prefix mem base c s = (if (base = 0 \<or> base = 16) \<and> c = 0x30
     then do {
       x \<leftarrow> load mem s;
       if x = 0x78 \<or> x = 0x58
       then do { c' \<leftarrow> load mem (s + 1); Some (sint c', s + 2, 16) }
       else Some (c, s, base) }
     else Some (c, s, base))"

definition strtol :: "memory \<Rightarrow> int \<Rightarrow> int \<Rightarrow> (u64 \<times> int) option" where
  "strtol mem nptr base0 = do {
     (c0, s0) \<leftarrow> skip_spaces mem nptr;
     let neg = (c0 = 0x2D);
     (c1, s1) \<leftarrow> strtol_sign mem c0 s0;
     (c2, s2, base1) \<leftarrow> strtol_prefix mem base0 c1 s1;
     let base = (if base1 = 0 then (if c2 = 0x30 then 8 else 10) else base1);
     let limit = (if neg then - LONG_MIN else LONG_MAX);
     (acc, any, s) \<leftarrow> strtol_loop mem base (limit div word_of_int base)
        (sint (ucast (limit mod word_of_int base) :: 32 word)) s2 c2 0 0;
     let r = (if any < 0 then (if neg then LONG_MIN else LONG_MAX)
              else if neg then - acc else acc);
     Some (r, (if any \<noteq> 0 then s - 1 else nptr)) }"

section \<open>Moving and comparing memory\<close>

text \<open>Memory after the \<open>len\<close> bytes at \<open>s\<close> have been copied to \<open>d\<close>.\<close>

definition moved :: "'a list \<Rightarrow> nat \<Rightarrow> nat \<Rightarrow> nat \<Rightarrow> 'a list" where
  "moved mem d s len = take d mem @ take len (drop s mem) @ drop (d + len) mem"

lemma load_int_add [simp]:
  "s + k < length xs \<Longrightarrow> load xs (int s + int k) = Some (xs ! (s + k))"
  using load_int [of "s + k" xs] by simp

lemma store_int_add [simp]:
  "s + k < length xs \<Longrightarrow> store xs (int s + int k) v = Some (xs[s + k := v])"
  using store_int [of "s + k" xs v] by simp

lemma nth_moved:
  assumes "s + len \<le> length mem" "d + len \<le> length mem" "i < length mem"
  shows "moved mem d s len ! i = (if d \<le> i \<and> i < d + len then mem ! (s + (i - d)) else mem ! i)"
proof -
  have "length (take len (drop s mem)) = len" "length (take d mem) = d" using assms by simp_all
  then show ?thesis using assms by (auto simp: moved_def nth_append)
qed

lemma length_moved: "s + len \<le> length mem \<Longrightarrow> d + len \<le> length mem \<Longrightarrow> length (moved mem d s len) = length mem"
  by (simp add: moved_def)

lemma moved_eqI:
  assumes "s + len \<le> length mem" "d + len \<le> length mem" "length m = length mem"
    and "\<And>i. i < length mem \<Longrightarrow> m ! i = (if d \<le> i \<and> i < d + len then mem ! (s + (i - d)) else mem ! i)"
  shows "m = moved mem d s len"
  using assms by (intro nth_equalityI) (simp_all add: length_moved nth_moved)

lemma copy_forward_moved:
  assumes "s + len \<le> length mem" "d + len \<le> length mem" "d \<le> s \<or> s + len \<le> d"
  shows "copy_forward mem (int d) (int s) len = Some (moved mem d s len)"
  using assms
proof (induction len arbitrary: mem d s)
  case (Suc len)
  let ?m = "mem[d := mem ! s]"
  have "copy_forward mem (int d) (int s) (Suc len) = copy_forward ?m (int (Suc d)) (int (Suc s)) len"
    using Suc.prems by (simp add: add.commute)
  also have "\<dots> = Some (moved ?m (Suc d) (Suc s) len)"
    using Suc.prems by (intro Suc.IH) auto
  also have "moved ?m (Suc d) (Suc s) len = moved mem d s (Suc len)"
    using Suc.prems by (intro moved_eqI) (auto simp: length_moved nth_moved nth_list_update not_less_eq_eq
      intro!: arg_cong [where f = "(!) mem"])
  finally show ?case .
qed (simp add: moved_def)

lemma copy_backward_moved:
  assumes "s + len \<le> length mem" "d + len \<le> length mem" "s \<le> d"
  shows "copy_backward mem (int d + (int len - 1)) (int s + (int len - 1)) len = Some (moved mem d s len)"
  using assms
proof (induction len arbitrary: mem)
  case (Suc len)
  let ?m = "mem[d + len := mem ! (s + len)]"
  have "copy_backward mem (int d + (int (Suc len) - 1)) (int s + (int (Suc len) - 1)) (Suc len) =
      copy_backward ?m (int d + (int len - 1)) (int s + (int len - 1)) len"
    using Suc.prems by (simp add: algebra_simps)
  also have "\<dots> = Some (moved ?m d s len)"
    using Suc.prems by (intro Suc.IH) auto
  also have "moved ?m d s len = moved mem d s (Suc len)"
    using Suc.prems by (intro moved_eqI) (auto simp: length_moved nth_moved nth_list_update less_Suc_eq)
  finally show ?case .
qed (simp add: moved_def)

lemma memcmp_spec:
  assumes "a + n \<le> length mem" "b + n \<le> length mem"
  shows "memcmp mem (int a) (int b) n = Some (
    if take n (drop a mem) = take n (drop b mem) then 0
    else if ord_class.lexordp (take n (drop a mem)) (take n (drop b mem)) then -1 else 1)"
  using assms
proof (induction n arbitrary: a b)
  case (Suc n)
  have split: "take (Suc n) (drop a mem) = mem ! a # take n (drop (Suc a) mem)"
    "take (Suc n) (drop b mem) = mem ! b # take n (drop (Suc b) mem)"
    using Suc.prems by (simp_all add: Cons_nth_drop_Suc [symmetric])
  have "memcmp mem (int (Suc a)) (int (Suc b)) n = Some (
    if take n (drop (Suc a) mem) = take n (drop (Suc b) mem) then 0
    else if ord_class.lexordp (take n (drop (Suc a) mem)) (take n (drop (Suc b) mem)) then -1 else 1)"
    using Suc.prems by (intro Suc.IH) auto
  with Suc.prems show ?case unfolding split by (auto simp: add.commute)
qed simp

section \<open>What the string routines compute\<close>

text \<open>A NUL-terminated string \<open>xs\<close> at address \<open>s\<close>.\<close>

primrec cstr_at :: "memory \<Rightarrow> nat \<Rightarrow> u8 list \<Rightarrow> bool" where
  "cstr_at mem s [] \<longleftrightarrow> s < length mem \<and> mem ! s = 0"
| "cstr_at mem s (x # xs) \<longleftrightarrow> s < length mem \<and> mem ! s = x \<and> x \<noteq> 0 \<and> cstr_at mem (Suc s) xs"

lemma cstr_at_bound: "cstr_at mem s xs \<Longrightarrow> s + length xs < length mem"
  by (induction xs arbitrary: s) force+

lemma cstr_at_take: "cstr_at mem s xs \<Longrightarrow> take (length xs) (drop s mem) = xs"
  by (induction xs arbitrary: s) (auto simp: Cons_nth_drop_Suc [symmetric])

lemma cstr_at_nth: "cstr_at mem s xs \<Longrightarrow> k < length xs \<Longrightarrow> mem ! (s + k) = xs ! k"
  using cstr_at_take [of mem s xs] by (metis cstr_at_bound less_imp_le_nat nth_drop nth_take add_leD1)

lemma int_Suc_add: "int s + 1 = int (Suc s)"
  by simp

lemma strlen_loop_spec: "cstr_at mem s xs \<Longrightarrow> strlen_loop mem (int s) n = Some (n + int (length xs))"
proof (induction xs arbitrary: s n)
  case (Cons x xs)
  then show ?case by (simp add: strlen_loop.simps [of mem "int s"] int_Suc_add del: of_nat_Suc)
qed (simp add: strlen_loop.simps)

lemma strlen_spec: "cstr_at mem s xs \<Longrightarrow> strlen mem (int s) = Some (int (length xs))"
  by (simp add: strlen_def strlen_loop_spec)

lemma byte_int_eq [simp]:
  "sint a = sint b \<longleftrightarrow> a = (b :: u8)" "sint a = 0 \<longleftrightarrow> a = 0" "0 = sint a \<longleftrightarrow> a = 0"
  "uint a = uint b \<longleftrightarrow> a = b" "uint a = 0 \<longleftrightarrow> a = 0" "0 = uint a \<longleftrightarrow> a = 0"
  by (metis signed_word_eqI signed_0 word_uint_eq_iff unsigned_0)+

lemma strcmp_spec:
  assumes "cstr_at mem a xs" "cstr_at mem b ys"
  shows "\<exists>r. strcmp mem (int a) (int b) = Some r \<and> (r = 0 \<longleftrightarrow> xs = ys)"
  using assms
proof (induction xs arbitrary: a b ys)
  case Nil
  then show ?case by (cases ys) (auto simp: strcmp.simps [of mem "int a"])
next
  case (Cons x xs)
  show ?case
  proof (cases ys)
    case Nil
    then show ?thesis using Cons.prems by (simp add: strcmp.simps [of mem "int a"])
  next
    case (Cons y ys')
    then show ?thesis
      using Cons.prems Cons.IH [of "Suc a" "Suc b" ys']
      by (auto simp: strcmp.simps [of mem "int a"] int_Suc_add simp del: of_nat_Suc)
  qed
qed

lemma strncmp_spec:
  assumes "cstr_at mem a xs" "cstr_at mem b ys"
  shows "\<exists>r. strncmp mem (int a) (int b) n = Some r \<and> (r = 0 \<longleftrightarrow> take n xs = take n ys)"
  using assms
proof (induction n arbitrary: a b xs ys)
  case (Suc n)
  show ?case
  proof (cases xs; cases ys)
    fix x xs' y ys' assume "xs = x # xs'" "ys = y # ys'"
    with Suc.prems Suc.IH [of "Suc a" xs' "Suc b" ys'] show ?thesis
      by (auto simp: int_Suc_add simp del: of_nat_Suc)
  qed (use Suc.prems in auto)
qed simp

lemma reverse_loop_spec:
  assumes "s + len \<le> length mem" "i \<le> len"
  shows "\<exists>m. reverse_loop mem (int s) (int i) (int len - 1 - int i) = Some m \<and> length m = length mem \<and>
    (\<forall>k<length mem. m ! k = (if s + i \<le> k \<and> k + i < s + len then mem ! (2 * s + len - 1 - k) else mem ! k))"
  using assms
proof (induction "len - i" arbitrary: i mem rule: less_induct)
  case less
  show ?case
  proof (cases "2 * i + 1 < len")
    case True
    define j where "j = len - 1 - i"
    have j: "int len - 1 - int i = int j" "i < j" "j < len" using True by (auto simp: j_def)
    let ?m = "mem[s + i := mem ! (s + j), s + j := mem ! (s + i)]"
    have eq: "reverse_loop mem (int s) (int i) (int len - 1 - int i) = reverse_loop ?m (int s) (int (Suc i)) (int len - 1 - int (Suc i))"
    proof -
      have "int len - 1 - int (Suc i) = int j - 1" "s + i < length mem" "s + j < length mem"
        using j less.prems by auto
      then show ?thesis
        using j(2) unfolding j(1) by (subst reverse_loop.simps) (simp add: add.commute)
    qed
    obtain m where m: "reverse_loop ?m (int s) (int (Suc i)) (int len - 1 - int (Suc i)) = Some m" "length m = length mem"
      "\<And>k. k < length mem \<Longrightarrow> m ! k = (if s + Suc i \<le> k \<and> k + Suc i < s + len then ?m ! (2 * s + len - 1 - k) else ?m ! k)"
      using less.hyps [of "Suc i" ?m] less.prems True by fastforce
    have "m ! k = (if s + i \<le> k \<and> k + i < s + len then mem ! (2 * s + len - 1 - k) else mem ! k)"
      if k: "k < length mem" for k
    proof -
      consider "k = s + i" | "k = s + j" | "k \<noteq> s + i" "k \<noteq> s + j" by blast
      then show ?thesis
        using m(3) [OF k] k less.prems True j
        by cases (auto simp: j_def nth_list_update intro!: arg_cong [where f = "(!) mem"])
    qed
    with m(1,2) eq show ?thesis by auto
  next
    case False
    then have "mem ! (2 * s + len - 1 - k) = mem ! k" if "s + i \<le> k" "k + i < s + len" for k
      using that by (intro arg_cong [where f = "(!) mem"]) auto
    moreover have "\<not> int i < int len - 1 - int i" using False by auto
    ultimately show ?thesis by (auto simp: reverse_loop.simps)
  qed
qed

section \<open>Parsing numbers\<close>

text \<open>The number a sequence of digits denotes.\<close>

definition digits_val :: "nat \<Rightarrow> nat \<Rightarrow> nat list \<Rightarrow> nat" where
  "digits_val base v ds = foldl (\<lambda>a d. a * base + d) v ds"

lemma digits_val_Cons: "digits_val base v (d # ds) = digits_val base (v * base + d) ds"
  by (simp add: digits_val_def)

lemma digits_val_ge: "0 < base \<Longrightarrow> v \<le> digits_val base v ds"
proof (induction ds arbitrary: v)
  case (Cons d ds)
  have "v \<le> v * base + d" using Cons.prems by (simp add: trans_le_add1)
  also have "\<dots> \<le> digits_val base (v * base + d) ds" using Cons by simp
  finally show ?case by (simp add: digits_val_Cons)
qed (simp add: digits_val_def)

text \<open>The characters \<open>cs\<close> from address \<open>s\<close> on spell the digits \<open>ds\<close> and end at a non-digit.\<close>

primrec digits_at :: "memory \<Rightarrow> nat \<Rightarrow> nat \<Rightarrow> nat list \<Rightarrow> bool" where
  "digits_at mem base s [] \<longleftrightarrow> s < length mem \<and>
     (case digit_of (sint (mem ! s)) of None \<Rightarrow> True | Some d \<Rightarrow> int base \<le> d)"
| "digits_at mem base s (d # ds) \<longleftrightarrow> s < length mem \<and>
     digit_of (sint (mem ! s)) = Some (int d) \<and> d < base \<and> digits_at mem base (Suc s) ds"

lemma digits_at_less: "digits_at mem base s ds \<Longrightarrow> s < length mem"
  by (cases ds) auto

lemma digits_at_load: "digits_at mem base (Suc s) ds \<Longrightarrow> load mem (int (Suc s)) = Some (mem ! Suc s)"
  using load_int [OF digits_at_less] by blast

lemma strtol_loop_overflow:
  assumes "digits_at mem base s ds"
  shows "strtol_loop mem (int base) cutoff cutlim (int (Suc s)) (sint (mem ! s)) acc (-1) =
    Some (acc, -1, int (Suc s + length ds))"
  using assms
proof (induction ds arbitrary: s)
  case Nil
  then show ?case by (auto simp: strtol_loop.simps [of mem] split: option.splits)
next
  case (Cons d ds)
  then have "strtol_loop mem (int base) cutoff cutlim (int (Suc s)) (sint (mem ! s)) acc (-1) =
      strtol_loop mem (int base) cutoff cutlim (int (Suc (Suc s))) (sint (mem ! Suc s)) acc (-1)"
    using digits_at_load [of mem base s ds]
    by (subst strtol_loop.simps) (simp add: add.commute)
  with Cons.IH [of "Suc s"] Cons.prems show ?case by simp
qed

lemma cutoff_iff:
  assumes "0 < (b :: nat)" "d < b"
  shows "M div b < v \<or> v = M div b \<and> M mod b < d \<longleftrightarrow> M < v * b + d"
proof -
  have M: "M = M div b * b + M mod b" by simp
  consider "v < M div b" | "v = M div b" | "M div b < v" by linarith
  then show ?thesis
  proof cases
    case 1
    then have "Suc v * b \<le> M div b * b" by (intro mult_le_mono1) simp
    from order_trans [OF this div_times_less_eq_dividend] have "v * b + b \<le> M" by simp
    with 1 assms show ?thesis by auto
  next
    case 2
    with M show ?thesis by (metis less_irrefl nat_add_left_cancel_less)
  next
    case 3
    then have "Suc (M div b) * b \<le> v * b" by (intro mult_le_mono1) simp
    with dividend_less_div_times [OF assms(1), of M] have "M < v * b" by simp
    with 3 show ?thesis by simp
  qed
qed

lemma strtol_loop_spec:
  assumes "digits_at mem b s ds" "0 < b" "M < 2 ^ 64" "v \<le> M" "0 \<le> any"
  defines "r \<equiv> strtol_loop mem (int b) (of_nat (M div b)) (int (M mod b)) (int (Suc s)) (sint (mem ! s)) (of_nat v) any"
  shows "if digits_val b v ds \<le> M
    then r = Some (of_nat (digits_val b v ds), (if ds = [] then any else 1), int (Suc s + length ds))
    else \<exists>acc. r = Some (acc, -1, int (Suc s + length ds))"
  using assms(1,4,5) unfolding r_def
proof (induction ds arbitrary: s v any)
  case Nil
  then show ?case by (auto simp: digits_val_def strtol_loop.simps [of mem] split: option.splits)
next
  case (Cons d ds)
  from Cons.prems have d: "d < b" "digit_of (sint (mem ! s)) = Some (int d)" "digits_at mem b (Suc s) ds" by auto
  have small: "M div b < 2 ^ 64" "v < 2 ^ 64" using assms(3) Cons.prems(2) div_le_dividend [of M b] by linarith+
  have "(of_nat (M div b) :: u64) < of_nat v \<longleftrightarrow> M div b < v" "(of_nat v :: u64) = of_nat (M div b) \<longleftrightarrow> v = M div b"
    using small by (simp_all add: word_less_nat_alt word_unat_eq_iff unat_of_nat)
  then have over: "(of_nat v :: u64) > of_nat (M div b) \<or> (of_nat v :: u64) = of_nat (M div b) \<and> int d > int (M mod b)
      \<longleftrightarrow> M < v * b + d"
    using cutoff_iff [OF assms(2) d(1)] by simp
  let ?loop = "strtol_loop mem (int b) (of_nat (M div b)) (int (M mod b))"
  have step: "?loop (int (Suc s)) (sint (mem ! s)) (of_nat v) any =
     (if M < v * b + d then ?loop (int (Suc (Suc s))) (sint (mem ! Suc s)) (of_nat v) (-1)
      else ?loop (int (Suc (Suc s))) (sint (mem ! Suc s)) (of_nat (v * b + d)) 1)"
    using digits_at_load [OF d(3)] d Cons.prems(3) over
    by (subst strtol_loop.simps) (simp add: add.commute Let_def)
  show ?case
  proof (cases "M < v * b + d")
    case True
    moreover from this have "\<not> digits_val b v (d # ds) \<le> M"
      using digits_val_ge [OF assms(2), of "v * b + d" ds] by (simp add: digits_val_Cons)
    ultimately show ?thesis using step strtol_loop_overflow [OF d(3)] by simp
  next
    case False
    with step Cons.IH [OF d(3), of "v * b + d" 1] show ?thesis
      by (auto simp: digits_val_Cons split: if_splits)
  qed
qed


lemma word_div_mod_of_nat:
  assumes "M < 2 ^ 64" "b < 2 ^ 64"
  shows "(of_nat M :: u64) div of_nat b = of_nat (M div b)" "(of_nat M :: u64) mod of_nat b = of_nat (M mod b)"
proof -
  have "M div b < 2 ^ 64" "M mod b < 2 ^ 64"
    using assms(1) div_le_dividend [of M b] mod_less_eq_dividend [of M b] by linarith+
  with assms show "(of_nat M :: u64) div of_nat b = of_nat (M div b)" "(of_nat M :: u64) mod of_nat b = of_nat (M mod b)"
    by (simp_all add: word_unat_eq_iff unat_div unat_mod unat_of_nat)
qed

lemma sint_of_nat64: "n < 2 ^ 63 \<Longrightarrow> sint (of_nat n :: u64) = int n"
  by (simp add: signed_of_nat signed_take_bit_int_eq_self_iff)

lemma sint_minus_of_nat64: "n \<le> 2 ^ 63 \<Longrightarrow> sint (- of_nat n :: u64) = - int n"
proof -
  assume "n \<le> 2 ^ 63"
  then have n: "int n \<le> 2 ^ 63" by simp
  have "- of_nat n = (word_of_int (- int n) :: u64)" by simp
  then have "sint (- of_nat n :: u64) = signed_take_bit 63 (- int n)" by (simp only: signed_of_int) simp
  with n show ?thesis by (simp add: signed_take_bit_int_eq_self_iff)
qed

lemma sint_ucast32: "n < 2 ^ 31 \<Longrightarrow> sint (ucast (of_nat n :: u64) :: 32 word) = int n"
  by (simp add: unsigned_of_nat signed_of_nat signed_take_bit_int_eq_self_iff take_bit_nat_eq_self)

section \<open>Numbers\<close>

text \<open>
  The front of a number at address \<open>p\<close>: \<open>k\<close> spaces, a sign or none and a hexadecimal prefix or none,
  each as long as it can be, in front of \<open>rest\<close>; \<open>b\<close> is the base the digits in \<open>rest\<close> are read in when
  base \<open>base\<close> was asked for.
\<close>

definition number_front :: "memory \<Rightarrow> nat \<Rightarrow> nat \<Rightarrow> nat \<Rightarrow> u8 list \<Rightarrow> u8 list \<Rightarrow> u8 list \<Rightarrow> nat \<Rightarrow> bool" where
  "number_front mem p base k sg pre rest b \<longleftrightarrow> p \<le> length mem \<and> drop p mem = replicate k 0x20 @ sg @ pre @ rest \<and>
     sg \<in> {[], [0x2D], [0x2B]} \<and> pre \<in> {[], [0x30, 0x78], [0x30, 0x58]} \<and> (pre \<noteq> [] \<longrightarrow> base = 0 \<or> base = 16) \<and>
     (sg = [] \<and> pre = [] \<longrightarrow> hd rest \<notin> {0x20, 0x2D, 0x2B}) \<and>
     (pre = [] \<and> (base = 0 \<or> base = 16) \<longrightarrow> take 2 rest \<notin> {[0x30, 0x78], [0x30, 0x58]}) \<and>
     b = (if pre \<noteq> [] then 16 else if base = 0 then (if hd rest = 0x30 then 8 else 10) else base)"

lemma skip_spaces_drop:
  assumes "p \<le> length mem" "drop p mem = replicate k 0x20 @ x # xs" "x \<noteq> 0x20"
  shows "skip_spaces mem (int p) = Some (sint x, int (p + k + 1))"
  using assms
proof (induction k arbitrary: p)
  case 0
  then have "p < length mem" "mem ! p = x" by (auto simp: nth_via_drop intro: ccontr)
  then show ?case using 0 by (subst skip_spaces.simps) simp
next
  case (Suc k)
  then have "p < length mem" "mem ! p = 0x20" "drop (Suc p) mem = replicate k 0x20 @ x # xs"
    by (auto simp: nth_via_drop drop_Suc drop_tl intro: ccontr)
  then show ?case using Suc.IH [of "Suc p"] Suc.prems(3) by (subst skip_spaces.simps) (simp add: add.commute)
qed

lemma load_drop: "p \<le> length mem \<Longrightarrow> drop p mem = xs @ x # ys \<Longrightarrow> load mem (int p + int (length xs)) = Some x"
proof -
  assume a: "p \<le> length mem" "drop p mem = xs @ x # ys"
  have "length (drop p mem) = length xs + Suc (length ys)" unfolding a(2) by simp
  then have l: "p + length xs < length mem" by simp
  have "mem ! (p + length xs) = x" using a(1) nth_drop [of p mem "length xs"] unfolding a(2) by simp
  then show ?thesis using load_int [OF l] by simp
qed

lemma strtol_sign_front:
  assumes "p \<le> length mem" "drop p mem = replicate k 0x20 @ sg @ x # xs" "sg \<in> {[], [0x2D], [0x2B]}"
    and "sg = [] \<Longrightarrow> x \<notin> {0x2D, 0x2B}"
  shows "strtol_sign mem (sint (hd (sg @ [x]))) (int (p + k + 1)) = Some (sint x, int (p + k + length sg + 1))"
proof (cases sg)
  case Nil
  have "sint x \<noteq> sint (0x2D :: u8)" "sint x \<noteq> sint (0x2B :: u8)" using assms(4) Nil unfolding byte_int_eq by auto
  then show ?thesis using Nil by (simp add: strtol_sign_def)
next
  case (Cons c cs)
  then have "load mem (int p + int (length (replicate k 0x20 @ sg))) = Some x"
    using load_drop [OF assms(1), of "replicate k 0x20 @ sg" x xs] assms(2) by simp
  then show ?thesis using Cons assms(3) by (auto simp: strtol_sign_def add_ac)
qed

lemma strtol_prefix_front:
  assumes "p \<le> length mem" "drop p mem = front @ pre @ x # xs" "pre \<in> {[], [0x30, 0x78], [0x30, 0x58]}"
    and "pre \<noteq> [] \<Longrightarrow> base = 0 \<or> base = 16"
    and "pre = [] \<Longrightarrow> base = 0 \<or> base = 16 \<Longrightarrow> take 2 (x # xs) \<notin> {[0x30, 0x78], [0x30, 0x58]}"
    and "x = 0x30 \<Longrightarrow> xs \<noteq> []"
  shows "strtol_prefix mem (int base) (sint (hd (pre @ [x]))) (int (p + length front + 1)) =
    Some (sint x, int (p + length front + length pre + 1), int (if pre = [] then base else 16))"
proof (cases "pre = []")
  case True
  have z: "sint x = 0x30 \<longleftrightarrow> x = 0x30" using byte_int_eq(1) [of x "0x30"] by simp
  show ?thesis
  proof (cases "(base = 0 \<or> base = 16) \<and> x = 0x30")
    case b: True
    then obtain y ys where xs: "xs = y # ys" using assms(6) by (cases xs) auto
    have "load mem (int p + int (length (front @ [x]))) = Some y"
      using load_drop [OF assms(1), of "front @ [x]" y ys] assms(2) True xs by simp
    moreover have "y \<noteq> 0x78" "y \<noteq> 0x58" using assms(5) True b xs by auto
    ultimately show ?thesis using True b by (auto simp: strtol_prefix_def z add_ac)
  next
    case False
    then show ?thesis using True z by (auto simp: strtol_prefix_def)
  qed
next
  case False
  then obtain y where pre: "pre = [0x30, y]" "y = 0x78 \<or> y = 0x58" using assms(3) by auto
  have "load mem (int p + int (length (front @ [0x30]))) = Some y" "load mem (int p + int (length (front @ pre))) = Some x"
    using load_drop [OF assms(1), of "front @ [0x30]" y "x # xs"] load_drop [OF assms(1), of "front @ pre" x xs] assms(2) pre(1) by simp_all
  then show ?thesis using False assms(4) pre by (auto simp: strtol_prefix_def add_ac)
qed

lemma strtol_front:
  assumes f: "number_front mem p base k sg pre rest b" and d: "digits_at mem b (p + k + length sg + length pre) ds" and b: "0 < b"
  defines "q \<equiv> p + k + length sg + length pre"
  defines "limit \<equiv> (if sg = [0x2D] then - LONG_MIN else LONG_MAX)"
  shows "strtol mem (int p) (int base) = do {
     (acc, any, s) \<leftarrow> strtol_loop mem (int b) (limit div word_of_int (int b))
        (sint (ucast (limit mod word_of_int (int b)) :: 32 word)) (int (Suc q)) (sint (mem ! q)) 0 0;
     let r = (if any < 0 then (if sg = [0x2D] then LONG_MIN else LONG_MAX) else if sg = [0x2D] then - acc else acc);
     Some (r, (if any \<noteq> 0 then s - 1 else int p)) }"
proof -
  note F = f [unfolded number_front_def]
  have pl: "p \<le> length mem" and dr: "drop p mem = replicate k 0x20 @ sg @ pre @ rest" using F by blast+
  have len: "length mem = q + length rest" using pl arg_cong [OF dr, of length] by (simp add: q_def)
  obtain x xs where r: "rest = x # xs" using digits_at_less [OF d] len by (cases rest) (auto simp: q_def)
  have x: "mem ! q = x" using nth_drop [OF pl, of "k + length sg + length pre"] by (simp add: dr r nth_append q_def add_ac)
  have xs: "xs \<noteq> []" if "x = 0x30"
  proof -
    have "digit_of (sint (mem ! q)) = Some 0" using that x by (simp add: digit_of_def)
    then have "ds \<noteq> []" using d b by (cases ds) (auto simp: q_def)
    then have "Suc q < length mem" using d digits_at_less by (cases ds) (auto simp: q_def)
    then show ?thesis using len r by auto
  qed
  let ?y = "hd (pre @ [x])" and ?z = "hd (sg @ pre @ [x])"
  have pre: "pre @ rest = ?y # tl (pre @ rest)" using r by (cases pre) auto
  have y: "?y \<notin> {0x20, 0x2D, 0x2B} \<or> sg \<noteq> []" using F r by (cases pre) auto
  have skip: "skip_spaces mem (int p) = Some (sint ?z, int (p + k + 1))"
    using F r y by (intro skip_spaces_drop [OF pl, where xs = "tl (sg @ pre @ rest)"]) (cases sg; cases pre; auto)+
  have sign: "strtol_sign mem (sint ?z) (int (p + k + 1)) = Some (sint ?y, int (p + k + length sg + 1))"
    using strtol_sign_front [OF pl, of k sg ?y "tl (pre @ rest)"] dr pre F y by (cases sg) auto
  have prefix: "strtol_prefix mem (int base) (sint ?y) (int (p + k + length sg + 1)) =
      Some (sint x, int (Suc q), int (if pre = [] then base else 16))"
    using strtol_prefix_front [OF pl, of "replicate k 0x20 @ sg" pre x xs base] dr r F xs by (simp add: q_def add_ac)
  have neg: "sint ?z = 0x2D \<longleftrightarrow> sg = [0x2D]"
    using F y byte_int_eq(1) [of ?z "0x2D"] by (cases sg) auto
  have base: "(if int (if pre = [] then base else 16) = 0 then if sint x = 0x30 then 8 else 10 else int (if pre = [] then base else 16)) = int b"
    using F r byte_int_eq(1) [of x "0x30"] by auto
  show ?thesis by (simp only: strtol_def skip sign prefix neg base limit_def x Let_def Option.bind.simps prod.case)
qed

section \<open>Properties\<close>

text \<open>
  C20: \<open>memmove\<close> copies correctly whether or not the two regions overlap, in either direction:
  afterwards the destination holds the bytes the source held before the call and every other
  byte of memory is unchanged.
\<close>

theorem memmove_moves:
  assumes "s + len \<le> length mem" "d + len \<le> length mem"
  shows "memmove mem (int d) (int s) len = Some (int d, moved mem d s len)"
  using copy_forward_moved [OF assms] copy_backward_moved [OF assms]
  by (auto simp: memmove_def moved_def)

theorem memmove_moves_witness:
  "memmove [1, 2, 3, 4, 5] 1 0 4 = Some (1, [1, 1, 2, 3, 4])"
  using memmove_moves [of 0 4 "[1, 2, 3, 4, 5]" 1] by (simp add: moved_def)

text \<open>
  C21: \<open>strtol\<close> reads a number: any number of spaces, an optional sign \<open>+\<close> or
  \<open>-\<close>, in base 0 or 16 an optional prefix \<open>0x\<close> or \<open>0X\<close>, and the digits that follow, in the base asked for,
  from 2 to 36, or, for base 0, in base 16 after a prefix, 8 after a leading 0 and 10 otherwise. It
  returns the signed value of the digits clamped to the range of a 64-bit \<open>long\<close> and leaves the end
  pointer on the first character that is not a digit; without any digit it returns 0 and leaves the
  end pointer at the start.
\<close>

theorem strtol_clamps:
  assumes "number_front mem p base k sg pre rest b" "digits_at mem b (p + k + length sg + length pre) ds"
    and "base = 0 \<or> 2 \<le> base \<and> base \<le> 36"
  shows "\<exists>r. strtol mem (int p) (int base) =
      Some (r, if ds = [] then int p else int (p + k + length sg + length pre + length ds)) \<and>
    sint r = max (- (2 ^ 63)) (min (2 ^ 63 - 1)
      (if sg = [0x2D] then - int (digits_val b 0 ds) else int (digits_val b 0 ds)))"
proof -
  define q :: nat where "q = p + k + length sg + length pre"
  have b: "2 \<le> b" "b \<le> 36" using assms(1,3) by (auto simp: number_front_def)
  define M :: nat where "M = (if sg = [0x2D] then 2 ^ 63 else 2 ^ 63 - 1)"
  have M: "M < 2 ^ 64" by (simp add: M_def)
  let ?limit = "if sg = [0x2D] then - LONG_MIN else LONG_MAX"
  have limit: "?limit = of_nat M" by (simp add: M_def LONG_MIN_def LONG_MAX_def)
  have "M mod b < 36" using b(1) by (intro less_le_trans [OF mod_less_divisor b(2)]) simp
  then have small: "M mod b < 2 ^ 31" by simp
  have "b < 2 ^ 64" using b(2) by simp
  then have divmod: "?limit div word_of_int (int b) = of_nat (M div b)"
     "sint (ucast (?limit mod word_of_int (int b)) :: 32 word) = int (M mod b)"
    by (simp_all only: limit of_int_of_nat_eq word_div_mod_of_nat [OF M] sint_ucast32 [OF small])
  let ?loop = "strtol_loop mem (int b) (of_nat (M div b)) (int (M mod b)) (int (Suc q)) (sint (mem ! q)) (of_nat 0) 0"
  have head: "strtol mem (int p) (int base) = do {
     (acc, any, s) \<leftarrow> ?loop;
     let r = (if any < 0 then (if sg = [0x2D] then LONG_MIN else LONG_MAX) else if sg = [0x2D] then - acc else acc);
     Some (r, (if any \<noteq> 0 then s - 1 else int p)) }"
    using strtol_front [OF assms(1,2)] b(1) by (simp only: divmod q_def of_nat_0) simp
  have loop: "if digits_val b 0 ds \<le> M
    then ?loop = Some (of_nat (digits_val b 0 ds), (if ds = [] then 0 else 1), int (Suc q + length ds))
    else \<exists>acc. ?loop = Some (acc, -1, int (Suc q + length ds))"
    using assms(2) b(1) M by (intro strtol_loop_spec) (auto simp: q_def)
  show ?thesis
  proof (cases "digits_val b 0 ds \<le> M")
    case True
    then have "?loop = Some (of_nat (digits_val b 0 ds), (if ds = [] then 0 else 1), int (Suc q + length ds))" using loop by simp
    with True show ?thesis unfolding head
      by (auto simp: M_def q_def sint_of_nat64 sint_minus_of_nat64 digits_val_def)
  next
    case False
    with loop obtain acc where "?loop = Some (acc, -1, int (Suc q + length ds))" by auto
    moreover have "ds \<noteq> []" using False by (auto simp: digits_val_def)
    ultimately show ?thesis using False unfolding head
      by (auto simp: M_def LONG_MIN_def LONG_MAX_def q_def)
  qed
qed

text \<open>\<open>" -42"\<close> in base 10 and \<open>"+0x1f"\<close> in base 0.\<close>

theorem strtol_clamps_witness:
  "(\<exists>r. strtol [0x20, 0x2D, 0x34, 0x32, 0x00] 0 10 = Some (r, 4) \<and> sint r = -42) \<and>
   (\<exists>r. strtol [0x2B, 0x30, 0x78, 0x31, 0x66, 0x00] 0 0 = Some (r, 5) \<and> sint r = 31)"
proof
  let ?m = "[0x20, 0x2D, 0x34, 0x32, 0x00] :: u8 list"
  have "number_front ?m 0 10 1 [0x2D] [] [0x34, 0x32, 0x00] 10" "digits_at ?m 10 (0 + 1 + length [0x2D :: u8] + length ([] :: u8 list)) [4, 2]"
    by (simp_all add: number_front_def digit_of_def)
  from strtol_clamps [OF this] show "\<exists>r. strtol ?m 0 10 = Some (r, 4) \<and> sint r = -42" by (simp add: digits_val_def)
next
  let ?m = "[0x2B, 0x30, 0x78, 0x31, 0x66, 0x00] :: u8 list"
  have "number_front ?m 0 0 0 [0x2B] [0x30, 0x78] [0x31, 0x66, 0x00] 16"
    "digits_at ?m 16 (0 + 0 + length [0x2B :: u8] + length [0x30, 0x78 :: u8]) [1, 15]"
    by (simp_all add: number_front_def digit_of_def)
  from strtol_clamps [OF this] show "\<exists>r. strtol ?m 0 0 = Some (r, 5) \<and> sint r = 31" by (simp add: digits_val_def)
qed

text \<open>
  \<open>reverse\<close> reverses a NUL-terminated string in place and leaves the terminator and all
  memory around the string unchanged.
\<close>

theorem reverse_reverses:
  assumes "cstr_at mem s xs"
  shows "reverse mem (int s) = Some (take s mem @ rev xs @ drop (s + length xs) mem)"
proof -
  have len: "s + length xs \<le> length mem" using cstr_at_bound [OF assms] by simp
  obtain m where m: "reverse_loop mem (int s) 0 (int (length xs) - 1) = Some m" "length m = length mem"
    "\<And>k. k < length mem \<Longrightarrow> m ! k = (if s \<le> k \<and> k < s + length xs then mem ! (2 * s + length xs - 1 - k) else mem ! k)"
    using reverse_loop_spec [OF len, of 0] by auto
  have "m = take s mem @ rev xs @ drop (s + length xs) mem"
  proof (rule nth_equalityI)
    fix k assume k: "k < length m"
    have "mem ! (2 * s + length xs - 1 - k) = xs ! (length xs - Suc (k - s))" if "s \<le> k" "k < s + length xs"
    proof -
      have "2 * s + length xs - 1 - k = s + (length xs - Suc (k - s))" using that by simp
      then show ?thesis using cstr_at_nth [OF assms, of "length xs - Suc (k - s)"] that by simp
    qed
    with k m(2,3) len show "m ! k = (take s mem @ rev xs @ drop (s + length xs) mem) ! k"
      by (auto simp: nth_append rev_nth)
  qed (use m(2) len in simp)
  with m(1) show ?thesis by (simp add: reverse_def strlen_spec [OF assms])
qed

theorem reverse_reverses_witness: "reverse [9, 1, 2, 3, 0, 8] 1 = Some [9, 3, 2, 1, 0, 8]"
  using reverse_reverses [of "[9, 1, 2, 3, 0, 8]" 1 "[1, 2, 3]"] by simp

end
