(* ===== verification/Paths.thy ===== *)
theory Paths
  imports Strings
begin

text \<open>
  The path type of \<^verbatim>\<open>include/kernel/vfs/path.h\<close> and \<^verbatim>\<open>kernel/vfs/path.c\<close>: a constant
  backing string with a 16-bit offset and length as a view into it. The backing string is the
  list of bytes readable from the pointer, \<open>None\<close> the null pointer; reading past it is \<open>None\<close>
  in the option monad. A pointer into the string is its offset.
\<close>

section \<open>Paths and views\<close>

record path =
  p_str :: "u8 list option"
  p_slen :: u16
  p_off :: u16
  p_len :: u16
  p_orig_len :: u16
  p_valid :: bool

definition NULL_PATH :: path where
  "NULL_PATH = \<lparr>p_str = None, p_slen = 0, p_off = 0, p_len = 0, p_orig_len = 0, p_valid = False\<rparr>"

definition SLASH_PATH :: path where
  "SLASH_PATH = \<lparr>p_str = Some [0x2F, 0], p_slen = 1, p_off = 0, p_len = 1, p_orig_len = 0, p_valid = False\<rparr>"

definition DOT_PATH :: path where
  "DOT_PATH = \<lparr>p_str = Some [0x2E, 0], p_slen = 1, p_off = 0, p_len = 1, p_orig_len = 0, p_valid = False\<rparr>"

definition path_len :: "path \<Rightarrow> nat" where
  "path_len path = unat (p_len path)"

definition path_start :: "path \<Rightarrow> nat" where
  "path_start path = unat (p_off path)"

definition path_end :: "path \<Rightarrow> nat" where
  "path_end path = unat (p_off path) + unat (p_len path)"

definition path_read :: "path \<Rightarrow> nat \<Rightarrow> u8 option" where
  "path_read path i = (case p_str path of None \<Rightarrow> None | Some s \<Rightarrow> load s (int i))"

definition path_first_char :: "path \<Rightarrow> u8 option" where
  "path_first_char path = (if path_len path \<noteq> 0 then path_read path (path_start path) else Some 0)"

definition path_is_null :: "path \<Rightarrow> bool" where
  "path_is_null path \<longleftrightarrow> path_len path = 0"

definition path_is_slash :: "path \<Rightarrow> bool option" where
  "path_is_slash path = (if path_len path = 1
     then do { c \<leftarrow> path_read path (path_start path); Some (c = 0x2F) } else Some False)"

definition path_is_dot :: "path \<Rightarrow> bool option" where
  "path_is_dot path = (if path_len path = 1
     then do { c \<leftarrow> path_read path (path_start path); Some (c = 0x2E) } else Some False)"

definition path_is_dotdot :: "path \<Rightarrow> bool option" where
  "path_is_dotdot path = (if path_len path = 2
     then do {
       c \<leftarrow> path_read path (path_start path);
       if c = 0x2E then do { d \<leftarrow> path_read path (path_start path + 1); Some (d = 0x2E) }
       else Some False }
     else Some False)"

definition path_is_special :: "path \<Rightarrow> bool option" where
  "path_is_special path = do {
     a \<leftarrow> path_is_slash path;
     if a then Some True
     else do { b \<leftarrow> path_is_dot path; if b then Some True else path_is_dotdot path } }"

definition path_is_absolute :: "path \<Rightarrow> bool option" where
  "path_is_absolute path = (if path_len path \<noteq> 0
     then do { c \<leftarrow> path_read path (path_start path); Some (c = 0x2F) } else Some False)"

definition path_is_relative :: "path \<Rightarrow> bool option" where
  "path_is_relative path = map_option Not (path_is_absolute path)"

definition path_new :: "u8 list option \<Rightarrow> nat \<Rightarrow> path" where
  "path_new str len0 = (if str = None \<or> len0 = 0 then NULL_PATH
     else let len = (if len0 > 65535 then 65535 else len0) in
       \<lparr>p_str = str, p_slen = of_nat len, p_off = 0, p_len = of_nat len, p_orig_len = 0, p_valid = False\<rparr>)"

definition path_make :: "u8 list option \<Rightarrow> path option" where
  "path_make str = (case str of
     None \<Rightarrow> Some NULL_PATH
   | Some s \<Rightarrow> do {
       len \<leftarrow> strlen s 0;
       kassert (len \<le> 65535);
       Some (path_new str (nat len)) })"

text \<open>The bytes \<open>[off, off + n)\<close> of the backing string, as \<open>memcpy\<close> from it reads them.\<close>

definition path_bytes :: "path \<Rightarrow> nat \<Rightarrow> u8 list option" where
  "path_bytes path n = (if n = 0 then Some [] else case p_str path of
     None \<Rightarrow> None
   | Some s \<Rightarrow> if path_start path + n \<le> length s then Some (take n (drop (path_start path) s)) else None)"

text \<open>\<open>path2str\<close> returns a fresh buffer, \<open>path_copy\<close> writes into the caller's.\<close>

definition path2str :: "path \<Rightarrow> u8 list option option" where
  "path2str path = (if path_is_null path then Some None
     else do { b \<leftarrow> path_bytes path (path_len path); Some (Some (b @ [0])) })"

definition path_copy :: "u8 list \<Rightarrow> nat \<Rightarrow> path \<Rightarrow> (nat \<times> u8 list) option" where
  "path_copy dest sz path = (if path_is_null path \<or> sz = 0 then Some (0, dest)
     else do {
       let len = min (sz - 1) (path_len path);
       b \<leftarrow> path_bytes path len;
       kassert (len < length dest);
       Some (len, b @ 0 # drop (len + 1) dest) })"

text \<open>
  \<open>memcmp\<close> on two backing strings: the two buffers are placed one after the other in one
  memory. With a zero count nothing is read.
\<close>

definition path_memcmp :: "path \<Rightarrow> u8 list option \<Rightarrow> nat \<Rightarrow> nat \<Rightarrow> int option" where
  "path_memcmp path s2 off2 n = (if n = 0 then Some 0
     else case p_str path of
       None \<Rightarrow> None
     | Some s1 \<Rightarrow> (case s2 of
         None \<Rightarrow> None
       | Some b \<Rightarrow> memcmp (s1 @ b) (int (path_start path)) (int (length s1 + off2)) n))"

definition path_eq :: "path \<Rightarrow> path \<Rightarrow> bool option" where
  "path_eq path1 path2 = (if path_len path1 \<noteq> path_len path2 then Some False
     else do {
       r \<leftarrow> path_memcmp path1 (p_str path2) (path_start path2) (path_len path1);
       Some (r = 0) })"

definition path_eq_charp :: "path \<Rightarrow> u8 list option \<Rightarrow> bool option" where
  "path_eq_charp path str = (if path_is_null path then Some (str = None)
     else case str of
       None \<Rightarrow> None
     | Some s \<Rightarrow> do {
         len \<leftarrow> strlen s 0;
         if int (path_len path) \<noteq> len then Some False
         else do { r \<leftarrow> path_memcmp path str 0 (nat len); Some (r = 0) } })"

definition path_eq_charpn :: "path \<Rightarrow> u8 list option \<Rightarrow> u16 \<Rightarrow> bool option" where
  "path_eq_charpn path str len = (if path_is_null path then Some (str = None \<and> len = 0)
     else if path_len path \<noteq> unat len then Some False
     else do { r \<leftarrow> path_memcmp path str 0 (unat len); Some (r = 0) })"

function count_char_loop :: "path \<Rightarrow> u8 \<Rightarrow> nat \<Rightarrow> nat \<Rightarrow> int \<Rightarrow> int option" where
  "count_char_loop path c ptr eptr count =
     (if ptr < eptr then do {
        x \<leftarrow> path_read path ptr;
        count_char_loop path c (ptr + 1) eptr (if x = c then count + 1 else count) }
      else Some count)"
  by pat_completeness auto
termination
  by (relation "measure (\<lambda>(path, c, ptr, eptr, count). eptr - ptr)") auto

declare count_char_loop.simps [simp del]

definition path_count_char :: "path \<Rightarrow> u8 \<Rightarrow> int option" where
  "path_count_char path c = count_char_loop path c (path_start path) (path_end path) 0"

function subpath_loop :: "path \<Rightarrow> path \<Rightarrow> nat \<Rightarrow> nat \<Rightarrow> nat \<Rightarrow> nat \<Rightarrow> bool option" where
  "subpath_loop path1 path2 ptr1 eptr1 ptr2 eptr2 =
     (if ptr1 < eptr1 \<and> ptr2 < eptr2 then do {
        a \<leftarrow> path_read path1 ptr1;
        b \<leftarrow> path_read path2 ptr2;
        if a \<noteq> b then Some False
        else subpath_loop path1 path2 (ptr1 + 1) eptr1 (ptr2 + 1) eptr2 }
      else if ptr1 = eptr1 then
        (if ptr2 = eptr2 then Some True
         else do { b \<leftarrow> path_read path2 ptr2; Some (b = 0x2F) })
      else do { a \<leftarrow> path_read path1 ptr1; Some (a = 0x2F) })"
  by pat_completeness auto
termination
  by (relation "measure (\<lambda>(path1, path2, ptr1, eptr1, ptr2, eptr2). eptr1 - ptr1)") auto

declare subpath_loop.simps [simp del]

definition path_is_subpath :: "path \<Rightarrow> path \<Rightarrow> bool option" where
  "path_is_subpath path1 path2 = (if path_is_null path1 \<or> path_is_null path2 then Some False
     else subpath_loop path1 path2 (path_start path1) (path_end path1) (path_start path2) (path_end path2))"

section \<open>Path manipulation\<close>

definition path_drop_first :: "path \<Rightarrow> path" where
  "path_drop_first path = (let len = p_len path; off = p_off path in
     if len > 0
     then \<lparr>p_str = p_str path, p_slen = p_slen path, p_off = off + 1, p_len = len - 1, p_orig_len = 0, p_valid = False\<rparr>
     else \<lparr>p_str = p_str path, p_slen = p_slen path, p_off = off, p_len = len, p_orig_len = 0, p_valid = False\<rparr>)"

text \<open>
  The two loops that shorten a view from the front and the two that shorten it from the back
  differ in the test of a character only: \<open>P\<close> says that the character is removed.
\<close>

function trim_front :: "(u8 \<Rightarrow> bool) \<Rightarrow> path \<Rightarrow> nat \<Rightarrow> nat \<Rightarrow> path option" where
  "trim_front P path ptr eptr =
     (if ptr < eptr then do {
        x \<leftarrow> path_read path ptr;
        if P x then trim_front P (path\<lparr>p_off := p_off path + 1, p_len := p_len path - 1\<rparr>) (ptr + 1) eptr
        else Some path }
      else Some path)"
  by pat_completeness auto
termination
  by (relation "measure (\<lambda>(P, path, ptr, eptr). eptr - ptr)") auto

declare trim_front.simps [simp del]

function trim_back :: "(u8 \<Rightarrow> bool) \<Rightarrow> path \<Rightarrow> nat \<Rightarrow> nat \<Rightarrow> path option" where
  "trim_back P path ptr eptr =
     (if eptr > ptr then do {
        x \<leftarrow> path_read path (eptr - 1);
        if P x then trim_back P (path\<lparr>p_len := p_len path - 1\<rparr>) ptr (eptr - 1)
        else Some path }
      else Some path)"
  by pat_completeness auto
termination
  by (relation "measure (\<lambda>(P, path, ptr, eptr). eptr - ptr)") auto

declare trim_back.simps [simp del]

definition path_strip_leading :: "path \<Rightarrow> u8 \<Rightarrow> path option" where
  "path_strip_leading path c = trim_front (\<lambda>x. x = c) path (path_start path) (path_end path)"

definition path_strip_trailing :: "path \<Rightarrow> u8 \<Rightarrow> path option" where
  "path_strip_trailing path c = trim_back (\<lambda>x. x = c) path (path_start path) (path_end path)"

definition path_remove_until :: "path \<Rightarrow> u8 \<Rightarrow> path option" where
  "path_remove_until path c = trim_front (\<lambda>x. x \<noteq> c) path (path_start path) (path_end path)"

definition path_remove_until_reverse :: "path \<Rightarrow> u8 \<Rightarrow> path option" where
  "path_remove_until_reverse path c = trim_back (\<lambda>x. x \<noteq> c) path (path_start path) (path_end path)"

text \<open>
  The loops of \<open>path_basename\<close>. Every round of the outer loop shortens the view, which the
  next lemmas establish for the termination proof.
\<close>

lemma trim_front_shortens:
  assumes "trim_front P path ptr eptr = Some path'" "path_len path = eptr - ptr"
  shows "path' = path \<and> (ptr < eptr \<longrightarrow> (\<exists>x. path_read path ptr = Some x \<and> \<not> P x)) \<or>
    path_len path' < path_len path"
  using assms
proof (induction P path ptr eptr arbitrary: path' rule: trim_front.induct)
  case (1 P path ptr eptr)
  let ?next = "path\<lparr>p_off := p_off path + 1, p_len := p_len path - 1\<rparr>"
  show ?case
  proof (cases "ptr < eptr \<and> (\<exists>x. path_read path ptr = Some x \<and> P x)")
    case True
    then obtain x where x: "ptr < eptr" "path_read path ptr = Some x" "P x" by blast
    with "1.prems"(1) have rec: "trim_front P ?next (ptr + 1) eptr = Some path'"
      by (simp add: trim_front.simps [of P path ptr])
    have "0 < p_len path" using x(1) "1.prems"(2) by (simp add: path_len_def word_less_nat_alt)
    then have "path_len ?next = path_len path - 1" "0 < path_len path"
      by (simp_all add: path_len_def unat_minus_one word_less_nat_alt unat_gt_0)
    with "1.IH" [OF x rec] "1.prems"(2) show ?thesis by auto
  next
    case False
    with "1.prems" show ?thesis
      by (auto simp: trim_front.simps [of P path ptr] split: if_splits bind_splits)
  qed
qed

function drop_slashes :: "path \<Rightarrow> int \<Rightarrow> (path \<times> int) option" where
  "drop_slashes path slashes = do {
     c \<leftarrow> path_first_char path;
     if c = 0x2F then drop_slashes (path_drop_first path) (slashes - 1)
     else Some (path, slashes) }"
  by pat_completeness auto

lemma drop_first_shortens:
  assumes "path_first_char path = Some 0x2F"
  shows "path_len (path_drop_first path) < path_len path"
proof -
  have "0 < p_len path"
    using assms by (auto simp: path_first_char_def path_len_def word_less_nat_alt unat_gt_0 split: if_splits)
  then show ?thesis
    by (simp add: path_drop_first_def path_len_def Let_def unat_minus_one word_less_nat_alt unat_gt_0)
qed

termination drop_slashes
  by (relation "measure (\<lambda>(path, slashes). path_len path)") (auto intro: drop_first_shortens)

declare drop_slashes.simps [simp del]

lemma drop_slashes_shortens:
  assumes "drop_slashes path slashes = Some (path', n)"
  shows "path_len path' \<le> path_len path \<and>
    (path_first_char path = Some 0x2F \<longrightarrow> path_len path' < path_len path)"
  using assms
proof (induction path slashes rule: drop_slashes.induct)
  case (1 path slashes)
  show ?case
  proof (cases "path_first_char path = Some 0x2F")
    case True
    with 1 have "path_len path' \<le> path_len (path_drop_first path)"
      by (simp add: drop_slashes.simps [of path])
    with drop_first_shortens [OF True] show ?thesis by simp
  next
    case False
    with 1 show ?thesis
      by (auto simp: drop_slashes.simps [of path] split: if_splits bind_splits)
  qed
qed

function basename_loop :: "path \<Rightarrow> int \<Rightarrow> path option" where
  "basename_loop path slashes =
     (if slashes > 0 \<and> path_len path > 0 then do {
        p1 \<leftarrow> path_remove_until path 0x2F;
        (p2, n) \<leftarrow> drop_slashes p1 slashes;
        basename_loop p2 n }
      else Some path)"
  by pat_completeness auto
termination
proof (relation "measure (\<lambda>(path, slashes). path_len path)", goal_cases)
  case (2 path slashes p1 p2n p2 n)
  have "path_len path = path_end path - path_start path"
    by (simp add: path_len_def path_end_def path_start_def)
  with 2 trim_front_shortens [of "\<lambda>x. x \<noteq> 0x2F" path "path_start path" "path_end path" p1]
  have "p1 = path \<and> path_first_char path = Some 0x2F \<or> path_len p1 < path_len path"
    by (auto simp: path_remove_until_def path_first_char_def)
  with 2 drop_slashes_shortens [of p1 slashes p2 n] show ?case by auto
qed simp

declare basename_loop.simps [simp del]

definition path_basename :: "path \<Rightarrow> path option" where
  "path_basename path = (if path_is_null path then Some DOT_PATH
     else do {
       p \<leftarrow> path_strip_trailing path 0x2F;
       slashes \<leftarrow> path_count_char p 0x2F;
       if path_len p = 0 then Some SLASH_PATH
       else if slashes = 0 then Some p
       else basename_loop p slashes })"

definition path_dirname :: "path \<Rightarrow> path option" where
  "path_dirname path = (if path_is_null path \<or> path_len path = 0 then Some DOT_PATH
     else do {
       p \<leftarrow> path_strip_trailing path 0x2F;
       slashes \<leftarrow> path_count_char p 0x2F;
       if path_len p = 0 then Some SLASH_PATH
       else if slashes = 0 then Some DOT_PATH
       else do {
         p1 \<leftarrow> path_remove_until_reverse p 0x2F;
         p2 \<leftarrow> path_strip_trailing p1 0x2F;
         if path_is_null p2 then Some SLASH_PATH else Some p2 } })"

text \<open>Iterating over the components.\<close>

definition path_take_part :: "path \<Rightarrow> path option" where
  "path_take_part path0 = do {
     path \<leftarrow> path_strip_leading path0 0x2F;
     let off = p_off path;
     q \<leftarrow> path_remove_until path 0x2F;
     Some (path\<lparr>p_off := off, p_len := p_off q - off\<rparr>) }"

definition path_next_part :: "path \<Rightarrow> path option" where
  "path_next_part path = (if path_is_null path then Some path
     else if \<not> p_valid path
     then path_take_part (path\<lparr>p_valid := True, p_orig_len := p_len path, p_off := 0, p_len := p_slen path\<rparr>)
     else let off = p_off path + p_len path in
       path_take_part (path\<lparr>p_off := off, p_len := p_orig_len path - off\<rparr>))"

definition path_iter_end :: "path \<Rightarrow> bool option" where
  "path_iter_end path = do { p \<leftarrow> path_next_part path; Some (path_is_null p) }"

section \<open>The string a path stands for\<close>

definition path_view :: "path \<Rightarrow> u8 list" where
  "path_view path = (case p_str path of None \<Rightarrow> [] | Some s \<Rightarrow> take (path_len path) (drop (path_start path) s))"

definition path_ok :: "path \<Rightarrow> bool" where
  "path_ok path \<longleftrightarrow> (case p_str path of None \<Rightarrow> path_len path = 0 | Some s \<Rightarrow> path_end path \<le> length s) \<and>
     path_end path < 2 ^ 16"

lemma path_end_eq: "path_end path = path_start path + path_len path"
  by (simp add: path_end_def path_start_def path_len_def)

lemma length_path_view: "path_ok path \<Longrightarrow> length (path_view path) = path_len path"
  by (auto simp: path_ok_def path_view_def path_end_eq split: option.splits)

lemma path_read_view:
  assumes "path_ok path" "i < path_len path"
  shows "path_read path (path_start path + i) = Some (path_view path ! i)"
  using assms load_int [of "path_start path + i"]
  by (auto simp: path_read_def path_ok_def path_view_def path_end_eq split: option.splits)

text \<open>A view advanced by \<open>k\<close> at the front, or cut to \<open>n\<close>.\<close>

lemma path_advance:
  assumes "path_ok path" "k \<le> path_len path"
  defines "q \<equiv> path\<lparr>p_off := p_off path + of_nat k, p_len := p_len path - of_nat k\<rparr>"
  shows "path_ok q" "path_view q = drop k (path_view path)" "path_start q = path_start path + k"
    "path_len q = path_len path - k" "path_end q = path_end path"
proof -
  have k: "unat (of_nat k :: u16) = k" "of_nat k \<le> p_len path"
    using assms(1,2) by (auto simp: path_ok_def path_end_eq path_len_def unat_of_nat word_le_nat_alt)
  have "unat (p_off path) + k < 2 ^ 16"
    using assms(1,2) by (auto simp: path_ok_def path_end_def path_len_def)
  with k show start: "path_start q = path_start path + k"
    by (simp add: q_def path_start_def unat_word_ariths)
  show len: "path_len q = path_len path - k"
    using k by (simp add: q_def path_len_def unat_sub)
  show "path_end q = path_end path" unfolding path_end_eq start len using assms(2) by simp
  then show "path_ok q" using assms(1) len by (auto simp: path_ok_def q_def split: option.splits)
  show "path_view q = drop k (path_view path)"
    unfolding path_view_def start len using assms(2)
    by (auto simp: q_def drop_take add.commute split: option.splits)
qed

lemma path_cut:
  assumes "path_ok path" "k \<le> path_len path"
  defines "q \<equiv> path\<lparr>p_len := p_len path - of_nat k\<rparr>"
  shows "path_ok q" "path_view q = take (path_len path - k) (path_view path)" "path_start q = path_start path"
    "path_len q = path_len path - k"
proof -
  have k: "unat (of_nat k :: u16) = k" "of_nat k \<le> p_len path"
    using assms(1,2) by (auto simp: path_ok_def path_end_eq path_len_def unat_of_nat word_le_nat_alt)
  show start: "path_start q = path_start path" by (simp add: q_def path_start_def)
  show len: "path_len q = path_len path - k"
    using k by (simp add: q_def path_len_def unat_sub)
  show "path_ok q" using assms(1) start len by (auto simp: path_ok_def q_def path_end_eq split: option.splits)
  show "path_view q = take (path_len path - k) (path_view path)"
    unfolding path_view_def start len
    by (auto simp: q_def split: option.splits)
qed

lemma trim_front_view:
  fixes P :: "u8 \<Rightarrow> bool"
  assumes "path_ok path"
  defines "k \<equiv> length (takeWhile P (path_view path))"
  shows "trim_front P path (path_start path) (path_end path) =
    Some (path\<lparr>p_off := p_off path + of_nat k, p_len := p_len path - of_nat k\<rparr>)"
  using assms(1) unfolding k_def
proof (induction "path_view path" arbitrary: path)
  case Nil
  then have "path_len path = 0" using length_path_view [of path] by simp
  with Nil show ?case by (simp add: trim_front.simps [of P path] path_end_eq)
next
  case (Cons x xs)
  have len: "0 < path_len path" using length_path_view [of path] Cons by (metis length_greater_0_conv list.discI)
  have read: "path_read path (path_start path) = Some x"
    using path_read_view [of path 0] Cons len by (metis add_0_right nth_Cons_0)
  let ?q = "path\<lparr>p_off := p_off path + of_nat 1, p_len := p_len path - of_nat 1\<rparr>"
  note adv = path_advance [OF Cons.prems, of 1]
  show ?case
  proof (cases "P x")
    case True
    have "trim_front P path (path_start path) (path_end path) = trim_front P ?q (path_start ?q) (path_end ?q)"
      using len read True adv by (simp add: trim_front.simps [of P path] path_end_eq)
    moreover have "xs = path_view ?q" using adv(2) len Cons.hyps(2) by (metis One_nat_def Suc_leI drop0 drop_Suc_Cons)
    moreover have "takeWhile P (path_view path) = x # takeWhile P (path_view ?q)"
      using True Cons.hyps(2) calculation(2) by (metis takeWhile.simps(2))
    ultimately show ?thesis
      using Cons.hyps(1) [of ?q] adv len by (simp add: algebra_simps)
  next
    case False
    then have "takeWhile P (path_view path) = []" using Cons.hyps(2) by (metis takeWhile.simps(2))
    with False read len show ?thesis by (simp add: trim_front.simps [of P path] path_end_eq)
  qed
qed

lemma trim_back_view:
  fixes P :: "u8 \<Rightarrow> bool"
  assumes "path_ok path"
  defines "k \<equiv> length (takeWhile P (rev (path_view path)))"
  shows "trim_back P path (path_start path) (path_end path) = Some (path\<lparr>p_len := p_len path - of_nat k\<rparr>)"
  using assms(1) unfolding k_def
proof (induction "rev (path_view path)" arbitrary: path)
  case Nil
  then have "path_len path = 0" using length_path_view [of path] by simp
  with Nil show ?case by (simp add: trim_back.simps [of P path] path_end_eq)
next
  case (Cons x xs)
  have view: "path_view path = rev xs @ [x]" using Cons.hyps(2) by (metis rev.simps(2) rev_rev_ident)
  have len: "path_len path = Suc (length xs)" using length_path_view [OF Cons.prems] by (simp add: view)
  have read: "path_read path (path_end path - 1) = Some x"
    using path_read_view [OF Cons.prems, of "length xs"] len by (simp add: view path_end_eq nth_append)
  let ?q = "path\<lparr>p_len := p_len path - of_nat 1\<rparr>"
  note cut = path_cut [OF Cons.prems, of 1]
  show ?case
  proof (cases "P x")
    case True
    have xs: "xs = rev (path_view ?q)" using cut(2) len by (simp add: view)
    have "trim_back P path (path_start path) (path_end path) = trim_back P ?q (path_start ?q) (path_end ?q)"
      using len read True cut by (simp add: trim_back.simps [of P path] path_end_eq)
    also have "\<dots> = Some (?q\<lparr>p_len := p_len ?q - of_nat (length (takeWhile P xs))\<rparr>)"
      using Cons.hyps(1) [OF xs] cut(1) len xs by simp
    finally show ?thesis using True by (simp add: view algebra_simps)
  next
    case False
    with read len show ?thesis by (simp add: trim_back.simps [of P path] path_end_eq view)
  qed
qed

text \<open>Removing a prefix or a suffix of the view, with everything else kept.\<close>

lemma dropWhile_eq_drop_len: "dropWhile P xs = drop (length (takeWhile P xs)) xs"
  by (rule dropWhile_eq_drop)

lemma trim_front_ok:
  assumes "path_ok path"
  shows "\<exists>q. trim_front P path (path_start path) (path_end path) = Some q \<and> path_ok q \<and>
    path_view q = dropWhile P (path_view path) \<and> path_end q = path_end path \<and>
    p_str q = p_str path \<and> p_slen q = p_slen path \<and> p_orig_len q = p_orig_len path \<and> p_valid q = p_valid path"
proof -
  let ?k = "length (takeWhile P (path_view path))"
  have "?k \<le> path_len path" using length_path_view [OF assms] length_takeWhile_le by metis
  from path_advance [OF assms this] trim_front_view [OF assms, of P] show ?thesis
    by (simp add: dropWhile_eq_drop)
qed

lemma trim_back_ok:
  assumes "path_ok path"
  shows "\<exists>q. trim_back P path (path_start path) (path_end path) = Some q \<and> path_ok q \<and>
    path_view q = rev (dropWhile P (rev (path_view path)))"
proof -
  let ?k = "length (takeWhile P (rev (path_view path)))"
  have "?k \<le> path_len path" using length_path_view [OF assms] length_takeWhile_le by (metis length_rev)
  from path_cut [OF assms this] trim_back_view [OF assms, of P] length_path_view [OF assms] show ?thesis
    by (simp add: dropWhile_eq_drop rev_drop)
qed

lemma count_char_loop_view:
  assumes "path_ok path" "i \<le> path_len path"
  shows "count_char_loop path c (path_start path + i) (path_end path) n =
    Some (n + int (length (filter (\<lambda>x. x = c) (drop i (path_view path)))))"
  using assms(2)
proof (induction "path_len path - i" arbitrary: i n)
  case 0
  then show ?case using length_path_view [OF assms(1)] by (simp add: count_char_loop.simps path_end_eq)
next
  case (Suc d)
  then have i: "i < path_len path" by simp
  then have "drop i (path_view path) = path_view path ! i # drop (Suc i) (path_view path)"
    using length_path_view [OF assms(1)] by (simp add: Cons_nth_drop_Suc)
  moreover have "count_char_loop path c (path_start path + i) (path_end path) n =
      count_char_loop path c (path_start path + Suc i) (path_end path)
        (if path_view path ! i = c then n + 1 else n)"
    using i path_read_view [OF assms(1) i] by (simp add: count_char_loop.simps [of path c "path_start path + i"] path_end_eq)
  ultimately show ?case using Suc.hyps(1) [of "Suc i"] Suc.hyps(2) i by simp
qed

lemma path_count_char_view:
  "path_ok path \<Longrightarrow> path_count_char path c = Some (int (length (filter (\<lambda>x. x = c) (path_view path))))"
  using count_char_loop_view [of path 0 c 0] by (simp add: path_count_char_def)

lemma path_first_char_view:
  "path_ok path \<Longrightarrow> path_first_char path = Some (case path_view path of [] \<Rightarrow> 0 | x # xs \<Rightarrow> x)"
  using path_read_view [of path 0] length_path_view [of path]
  by (auto simp: path_first_char_def split: list.splits)

lemma path_drop_first_view:
  assumes "path_ok path" "path_view path \<noteq> []"
  shows "path_ok (path_drop_first path) \<and> path_view (path_drop_first path) = tl (path_view path)"
proof -
  have len: "1 \<le> path_len path" using assms length_path_view [of path] by (cases "path_view path") auto
  let ?q = "path\<lparr>p_off := p_off path + 1, p_len := p_len path - 1\<rparr>"
  have "0 < p_len path" using len by (auto simp: path_len_def word_less_nat_alt)
  then have "path_drop_first path = ?q\<lparr>p_orig_len := 0, p_valid := False\<rparr>"
    by (simp add: path_drop_first_def)
  moreover have "path_ok (q\<lparr>p_orig_len := 0, p_valid := False\<rparr>) = path_ok q"
    "path_view (q\<lparr>p_orig_len := 0, p_valid := False\<rparr>) = path_view q" for q
    by (cases "p_str q"; simp add: path_ok_def path_view_def path_len_def path_start_def path_end_def)+
  ultimately show ?thesis using path_advance [OF assms(1) len] by (simp add: drop_Suc)
qed

lemma drop_slashes_view:
  assumes "path_ok path"
  shows "\<exists>q. drop_slashes path n = Some (q, n - int (length (takeWhile (\<lambda>x. x = 0x2F) (path_view path)))) \<and>
    path_ok q \<and> path_view q = dropWhile (\<lambda>x. x = 0x2F) (path_view path)"
  using assms
proof (induction "path_view path" arbitrary: path n)
  case Nil
  then have "path_view path = []" by simp
  with Nil.prems show ?case by (simp add: drop_slashes.simps [of path] path_first_char_view)
next
  case (Cons x xs)
  from Cons.hyps(2) have view: "path_view path = x # xs" by simp
  note dropped = path_drop_first_view [OF Cons.prems]
  show ?case
  proof (cases "x = 0x2F")
    case True
    then have "xs = path_view (path_drop_first path)" "path_ok (path_drop_first path)"
      using dropped by (simp_all add: view)
    from Cons.hyps(1) [OF this, of "n - 1"] this(1) True show ?thesis
      using path_first_char_view [OF Cons.prems]
      by (simp add: drop_slashes.simps [of path] view diff_diff_eq)
  next
    case False
    then show ?thesis using path_first_char_view [OF Cons.prems] Cons.prems
      by (simp add: drop_slashes.simps [of path] view)
  qed
qed

section \<open>Basename and dirname\<close>

abbreviation slash :: "u8 \<Rightarrow> bool" where "slash x \<equiv> x = 0x2F"

definition strip_end :: "u8 list \<Rightarrow> u8 list" where
  "strip_end v = rev (dropWhile slash (rev v))"

definition last_part :: "u8 list \<Rightarrow> u8 list" where
  "last_part v = rev (takeWhile (\<lambda>x. \<not> slash x) (rev v))"

lemma last_part_suffix:
  assumes "s \<noteq> []" "\<forall>x\<in>set s. slash x"
  shows "last_part (a @ s @ w) = last_part w"
proof -
  obtain y ys where "rev s = y # ys" "slash y"
    using assms by (metis list.exhaust list.set_intros(1) rev_is_Nil_conv set_rev)
  then have "takeWhile (\<lambda>x. \<not> slash x) (rev w @ rev s @ rev a) = takeWhile (\<lambda>x. \<not> slash x) (rev w)"
    by (cases "\<exists>x\<in>set w. slash x") (auto simp: takeWhile_tail)
  then show ?thesis by (simp add: last_part_def)
qed

lemma last_part_no_slash: "(\<forall>x\<in>set v. \<not> slash x) \<Longrightarrow> last_part v = v"
  by (simp add: last_part_def takeWhile_eq_all_conv [THEN iffD2])

lemma slash_split:
  assumes "\<exists>x\<in>set v. slash x" "\<not> slash (last v)"
  obtains a y r where "v = a @ y # r" "slash y" "\<forall>x\<in>set a. \<not> slash x"
    "dropWhile (\<lambda>x. \<not> slash x) v = y # r" "dropWhile slash r \<noteq> []" "\<not> slash (last (dropWhile slash r))"
    "last_part v = last_part (dropWhile slash r)"
    "length (filter slash v) = Suc (length (takeWhile slash r) + length (filter slash (dropWhile slash r)))"
proof -
  obtain a y r where v: "v = a @ y # r" "slash y" "\<forall>x\<in>set a. \<not> slash x"
    using split_list_first_prop [OF assms(1)] by blast
  have d: "dropWhile (\<lambda>x. \<not> slash x) v = y # r"
    using v by (simp add: dropWhile_append2)
  define t w where "t = takeWhile slash r" and "w = dropWhile slash r"
  have r: "r = t @ w" by (simp add: t_def w_def)
  have t: "\<forall>x\<in>set t. slash x" by (auto simp: t_def dest: set_takeWhileD)
  have lv: "last v = last (y # t @ w)" using v(1) r by simp
  have w: "w \<noteq> []"
  proof
    assume "w = []"
    then have "last v \<in> set (y # t)" using lv last_in_set [of "y # t"] by simp
    then show False using assms(2) t v(2) by auto
  qed
  then have l: "\<not> slash (last w)" using lv assms(2) by simp
  have v': "v = a @ (y # t) @ w" using v(1) r by simp
  have yt: "\<forall>x\<in>set (y # t). slash x" using t v(2) by simp
  have p: "last_part v = last_part w" unfolding v' by (rule last_part_suffix [OF _ yt]) simp
  have "filter slash a = []" "filter slash t = t" using v(3) t by (simp_all add: filter_empty_conv filter_id_conv)
  then have n: "length (filter slash v) = Suc (length t + length (filter slash w))"
    using v(2) by (simp add: v')
  show thesis using that [OF v d] w l p n unfolding t_def w_def by simp
qed

lemma basename_loop_view:
  assumes "path_ok path" "path_view path \<noteq> []" "\<not> slash (last (path_view path))"
    and "n = int (length (filter slash (path_view path)))"
  shows "\<exists>q. basename_loop path n = Some q \<and> path_ok q \<and> path_view q = last_part (path_view path)"
  using assms
proof (induction path n rule: basename_loop.induct)
  case (1 path n)
  let ?v = "path_view path"
  have len: "path_len path > 0"
    using length_path_view [OF "1.prems"(1)] "1.prems"(2) by (metis length_greater_0_conv)
  show ?case
  proof (cases "\<exists>x\<in>set ?v. slash x")
    case False
    then have "filter slash ?v = []" unfolding filter_empty_conv by blast
    then have "n = 0" using "1.prems"(4) by simp
    moreover have "last_part ?v = ?v" using False by (intro last_part_no_slash) auto
    ultimately show ?thesis using 1 by (simp add: basename_loop.simps [of path])
  next
    case True
    then obtain a y r where s: "?v = a @ y # r" "slash y" "\<forall>x\<in>set a. \<not> slash x"
      "dropWhile (\<lambda>x. \<not> slash x) ?v = y # r" "dropWhile slash r \<noteq> []" "\<not> slash (last (dropWhile slash r))"
      "last_part ?v = last_part (dropWhile slash r)"
      "length (filter slash ?v) = Suc (length (takeWhile slash r) + length (filter slash (dropWhile slash r)))"
      using "1.prems"(3) by (rule slash_split)
    obtain p1 where p1: "path_remove_until path 0x2F = Some p1" "path_ok p1" "path_view p1 = y # r"
      using trim_front_ok [OF "1.prems"(1), of "\<lambda>x. \<not> slash x"] s(4) by (auto simp: path_remove_until_def)
    obtain p2 where p2: "drop_slashes p1 n = Some (p2, n - int (Suc (length (takeWhile slash r))))" "path_ok p2"
      "path_view p2 = dropWhile slash r"
      using drop_slashes_view [OF p1(2), of n] s(2) by (auto simp: p1(3))
    have n: "n - int (Suc (length (takeWhile slash r))) = int (length (filter slash (path_view p2)))"
      using "1.prems"(4) s(8) p2(3) by simp
    have pos: "n > 0 \<and> path_len path > 0" using "1.prems"(4) s(8) len by simp
    obtain q where q: "basename_loop p2 (n - int (Suc (length (takeWhile slash r)))) = Some q" "path_ok q"
       "path_view q = last_part (path_view p2)"
      using "1.IH" [OF pos p1(1) p2(1) refl p2(2) _ _ n] s(5,6) p2(3) by auto
    with s(7) p1(1) p2 pos show ?thesis by (simp add: basename_loop.simps [of path])
  qed
qed

lemma strip_trailing_ok:
  assumes "path_ok path"
  shows "\<exists>q. path_strip_trailing path 0x2F = Some q \<and> path_ok q \<and> path_view q = strip_end (path_view path)"
  using trim_back_ok [OF assms, of slash] by (simp add: path_strip_trailing_def strip_end_def)

lemma strip_end_last: "strip_end v \<noteq> [] \<Longrightarrow> \<not> slash (last (strip_end v))"
  unfolding strip_end_def using hd_dropWhile [of slash "rev v"] by (simp add: last_rev)

lemma strip_end_split: "\<exists>m. v = strip_end v @ replicate m 0x2F"
proof -
  have "v = strip_end v @ rev (takeWhile slash (rev v))"
    unfolding strip_end_def by (metis rev_append rev_rev_ident takeWhile_dropWhile_id)
  moreover have "takeWhile slash (rev v) = replicate (length (takeWhile slash (rev v))) 0x2F"
    by (intro replicate_eqI) (auto dest: set_takeWhileD)
  ultimately show ?thesis by (metis rev_replicate)
qed

lemma path_len_0_view: "path_ok path \<Longrightarrow> path_len path = 0 \<longleftrightarrow> path_view path = []"
  using length_path_view [of path] by auto

lemma DOT_SLASH_view [simp]:
  "path_view DOT_PATH = [0x2E]" "path_view SLASH_PATH = [0x2F]" "path_ok DOT_PATH" "path_ok SLASH_PATH"
  by (simp_all add: DOT_PATH_def SLASH_PATH_def path_view_def path_ok_def path_len_def path_start_def path_end_def)

lemma path_basename_view:
  assumes "path_ok path"
  shows "\<exists>q. path_basename path = Some q \<and> path_ok q \<and> path_view q =
    (if path_view path = [] then [0x2E] else if strip_end (path_view path) = [] then [0x2F]
     else last_part (strip_end (path_view path)))"
proof (cases "path_view path = []")
  case True
  then show ?thesis by (simp add: path_basename_def path_is_null_def path_len_0_view [OF assms])
next
  case nonempty: False
  obtain p where p: "path_strip_trailing path 0x2F = Some p" "path_ok p" "path_view p = strip_end (path_view path)"
    using strip_trailing_ok [OF assms] by blast
  have head: "path_basename path = (if path_view p = [] then Some SLASH_PATH
      else if int (length (filter slash (path_view p))) = 0 then Some p
      else basename_loop p (int (length (filter slash (path_view p)))))"
    using nonempty p path_count_char_view [OF p(2)]
    by (simp add: path_basename_def path_is_null_def path_len_0_view [OF assms] path_len_0_view [OF p(2)])
  show ?thesis
  proof (cases "path_view p = []")
    case True
    then show ?thesis using head p nonempty by simp
  next
    case False
    then obtain q where "basename_loop p (int (length (filter slash (path_view p)))) = Some q" "path_ok q"
      "path_view q = last_part (path_view p)"
      using basename_loop_view [OF p(2) False _ refl] strip_end_last p(3) by fastforce
    moreover have "last_part (path_view p) = path_view p" if "filter slash (path_view p) = []"
      using that by (intro last_part_no_slash) (auto simp: filter_empty_conv)
    ultimately show ?thesis using head p False nonempty by auto
  qed
qed

lemma path_dirname_view:
  assumes "path_ok path"
  defines "t \<equiv> strip_end (path_view path)"
  defines "d \<equiv> strip_end (rev (dropWhile (\<lambda>x. \<not> slash x) (rev t)))"
  shows "\<exists>q. path_dirname path = Some q \<and> path_ok q \<and> path_view q =
    (if path_view path = [] then [0x2E] else if t = [] then [0x2F]
     else if 0x2F \<notin> set t then [0x2E] else if d = [] then [0x2F] else d)"
proof (cases "path_view path = []")
  case True
  then show ?thesis by (simp add: path_dirname_def path_is_null_def path_len_0_view [OF assms(1)])
next
  case nonempty: False
  obtain p where p: "path_strip_trailing path 0x2F = Some p" "path_ok p" "path_view p = t"
    using strip_trailing_ok [OF assms(1)] t_def by blast
  obtain p1 where p1: "path_remove_until_reverse p 0x2F = Some p1" "path_ok p1"
    "path_view p1 = rev (dropWhile (\<lambda>x. \<not> slash x) (rev t))"
    using trim_back_ok [OF p(2), of "\<lambda>x. \<not> slash x"] p(3) by (auto simp: path_remove_until_reverse_def)
  obtain p2 where p2: "path_strip_trailing p1 0x2F = Some p2" "path_ok p2" "path_view p2 = d"
    using strip_trailing_ok [OF p1(2)] p1(3) d_def by auto
  have "filter slash t = [] \<longleftrightarrow> 0x2F \<notin> set t" by (auto simp: filter_empty_conv)
  then show ?thesis
    using nonempty p p1(1) p2 path_count_char_view [OF p(2)]
    by (simp add: path_dirname_def path_is_null_def path_len_0_view [OF assms(1)] path_len_0_view [OF p(2)]
        path_len_0_view [OF p2(2)])
qed

lemma strip_end_eq_Nil: "strip_end v = [] \<longleftrightarrow> (\<forall>x\<in>set v. slash x)"
  by (simp add: strip_end_def)

lemma last_part_split:
  assumes "t \<noteq> []" "\<not> slash (last t)"
  shows "\<exists>pre k. t = pre @ replicate k 0x2F @ last_part t \<and> last_part t \<noteq> [] \<and> 0x2F \<notin> set (last_part t) \<and>
    pre = strip_end (rev (dropWhile (\<lambda>x. \<not> slash x) (rev t))) \<and> (0x2F \<in> set t \<longleftrightarrow> k > 0) \<and>
    (pre \<noteq> [] \<longrightarrow> k > 0 \<and> \<not> slash (last pre))"
proof -
  let ?A = "rev (dropWhile (\<lambda>x. \<not> slash x) (rev t))"
  obtain k where k: "?A = strip_end ?A @ replicate k 0x2F" using strip_end_split by blast
  have t: "t = ?A @ last_part t"
    unfolding last_part_def by (metis rev_append rev_rev_ident takeWhile_dropWhile_id)
  have ne: "last_part t \<noteq> []"
    using assms by (cases t rule: rev_cases) (auto simp: last_part_def)
  have no: "0x2F \<notin> set (last_part t)" by (auto simp: last_part_def dest: set_takeWhileD)
  have lastA: "?A \<noteq> [] \<Longrightarrow> slash (last ?A)"
    using hd_dropWhile [of "\<lambda>x. \<not> slash x" "rev t"] by (auto simp: last_rev)
  have kpos: "?A \<noteq> [] \<longleftrightarrow> k > 0"
  proof
    assume "?A \<noteq> []"
    then show "k > 0" using k lastA strip_end_last [of ?A] by (cases k) (auto simp del: last_rev)
  next
    assume "k > 0" then show "?A \<noteq> []" using k by (metis append_is_Nil_conv replicate_empty less_irrefl)
  qed
  moreover have "0x2F \<in> set t \<longleftrightarrow> ?A \<noteq> []"
    unfolding rev_is_Nil_conv dropWhile_eq_Nil_conv by auto
  moreover have "strip_end ?A \<noteq> [] \<Longrightarrow> ?A \<noteq> []"
    by (metis strip_end_eq_Nil empty_iff list.set(1))
  ultimately show ?thesis
    using t k ne no strip_end_last [of ?A] by (metis append.assoc)
qed

text \<open>
  C16: \<open>path_basename\<close> and \<open>path_dirname\<close> always return on a well-formed path and split it
  as POSIX asks: an empty path gives \<open>.\<close> twice, a path of slashes gives \<open>/\<close> twice, and any
  other path is the directory, slashes, the base name and trailing slashes in this order,
  where the base name is nonempty and free of slashes and an absent directory is shown as
  \<open>.\<close>, or as \<open>/\<close> below the root.
\<close>

theorem path_base_dir:
  assumes "path_ok path"
  shows "\<exists>b d. path_basename path = Some b \<and> path_dirname path = Some d \<and>
    (if path_view path = [] then path_view b = [0x2E] \<and> path_view d = [0x2E]
     else if \<forall>x\<in>set (path_view path). slash x then path_view b = [0x2F] \<and> path_view d = [0x2F]
     else \<exists>pre k m. path_view path = pre @ replicate k 0x2F @ path_view b @ replicate m 0x2F \<and>
       path_view b \<noteq> [] \<and> 0x2F \<notin> set (path_view b) \<and>
       (pre \<noteq> [] \<longrightarrow> k > 0 \<and> \<not> slash (last pre)) \<and>
       path_view d = (if pre \<noteq> [] then pre else if k = 0 then [0x2E] else [0x2F]))"
proof -
  let ?v = "path_view path"
  obtain b d where b: "path_basename path = Some b" "path_view b =
      (if ?v = [] then [0x2E] else if strip_end ?v = [] then [0x2F] else last_part (strip_end ?v))"
    and d: "path_dirname path = Some d" "path_view d = (let t = strip_end ?v; 
        d = strip_end (rev (dropWhile (\<lambda>x. \<not> slash x) (rev t))) in if ?v = [] then [0x2E] else if t = [] then [0x2F]
     else if 0x2F \<notin> set t then [0x2E] else if d = [] then [0x2F] else d)"
    using path_basename_view [OF assms] path_dirname_view [OF assms] unfolding Let_def by blast
  show ?thesis
  proof (cases "strip_end ?v = []")
    case True
    then have "\<forall>x\<in>set ?v. slash x" by (simp add: strip_end_eq_Nil)
    with True b d show ?thesis by auto
  next
    case False
    then have notall: "\<not> (\<forall>x\<in>set ?v. slash x)" "?v \<noteq> []" by (auto simp: strip_end_eq_Nil)
    obtain m where m: "?v = strip_end ?v @ replicate m 0x2F" using strip_end_split by blast
    obtain pre k where s: "strip_end ?v = pre @ replicate k 0x2F @ last_part (strip_end ?v)"
      "last_part (strip_end ?v) \<noteq> []" "0x2F \<notin> set (last_part (strip_end ?v))"
      "pre = strip_end (rev (dropWhile (\<lambda>x. \<not> slash x) (rev (strip_end ?v))))" "0x2F \<in> set (strip_end ?v) \<longleftrightarrow> k > 0"
      "pre \<noteq> [] \<longrightarrow> k > 0 \<and> \<not> slash (last pre)"
      using last_part_split [OF False strip_end_last [OF False]] by blast
    have vb: "path_view b = last_part (strip_end ?v)" using b False notall by simp
    have vd: "path_view d = (if pre \<noteq> [] then pre else if k = 0 then [0x2E] else [0x2F])"
      using d(2) False notall(2) s(5,6) by (auto simp: Let_def simp flip: s(4))
    have "?v = pre @ replicate k 0x2F @ path_view b @ replicate m 0x2F"
      using m s(1) unfolding vb by (metis append.assoc)
    with vb vd s(2,3,6) b(1) d(1) notall show ?thesis by (simp only: if_False) blast
  qed
qed

theorem path_base_dir_witness:
  "\<exists>b d. path_basename (path_new (Some [0x2F, 0x61, 0x2F, 0x62, 0x2F, 0]) 5) = Some b \<and>
     path_dirname (path_new (Some [0x2F, 0x61, 0x2F, 0x62, 0x2F, 0]) 5) = Some d \<and>
     path_view b \<noteq> [] \<and> 0x2F \<notin> set (path_view b) \<and> path_view d \<noteq> [0x2E]"
proof -
  let ?p = "path_new (Some [0x2F, 0x61, 0x2F, 0x62, 0x2F, 0]) 5"
  have ok: "path_ok ?p" by (simp add: path_new_def path_ok_def path_len_def path_start_def path_end_def)
  have v: "path_view ?p = [0x2F, 0x61, 0x2F, 0x62, 0x2F]"
    by (simp add: path_new_def path_view_def path_len_def path_start_def)
  have ne: "path_view ?p \<noteq> []" "\<not> (\<forall>x\<in>set (path_view ?p). slash x)" by (simp_all add: v)
  from path_base_dir [OF ok, unfolded if_not_P [OF ne(1)] if_not_P [OF ne(2)]]
  obtain b d pre k m where
    r: "path_basename ?p = Some b" "path_dirname ?p = Some d"
    "path_view ?p = pre @ replicate k 0x2F @ path_view b @ replicate m 0x2F"
    "path_view b \<noteq> []" "0x2F \<notin> set (path_view b)" "pre \<noteq> [] \<longrightarrow> k > 0 \<and> \<not> slash (last pre)"
    "path_view d = (if pre \<noteq> [] then pre else if k = 0 then [0x2E] else [0x2F])"
    by blast
  have "path_view d \<noteq> [0x2E]"
  proof
    assume "path_view d = [0x2E]"
    then have "pre = [0x2E] \<or> pre = [] \<and> k = 0" using r(7) by (auto split: if_splits)
    then have "pre = [] \<and> k = 0" using r(3) by (auto simp: v)
    then have "path_view b @ replicate m 0x2F = [0x2F, 0x61, 0x2F, 0x62, 0x2F]" using r(3) v by simp
    then have "hd (path_view b @ replicate m 0x2F) = 0x2F" by simp
    then show False using r(4,5) by (metis hd_append2 hd_in_set)
  qed
  with r show ?thesis by blast
qed

section \<open>Components\<close>

function components :: "u8 list \<Rightarrow> u8 list list" where
  "components v = (let w = dropWhile slash v in
     if w = [] then [] else takeWhile (\<lambda>x. \<not> slash x) w # components (dropWhile (\<lambda>x. \<not> slash x) w))"
  by pat_completeness auto

lemma components_shorter:
  assumes "dropWhile slash v \<noteq> []"
  shows "length (dropWhile (\<lambda>x. \<not> slash x) (dropWhile slash v)) < length v"
proof -
  obtain x xs where w: "dropWhile slash v = x # xs" "\<not> slash x"
    using hd_dropWhile [OF assms] assms by (metis list.exhaust_sel)
  then have "length (dropWhile (\<lambda>x. \<not> slash x) (dropWhile slash v)) \<le> length xs"
    by (simp add: length_dropWhile_le)
  also have "\<dots> < length (dropWhile slash v)" using w by simp
  also have "\<dots> \<le> length v" by (simp add: length_dropWhile_le)
  finally show ?thesis .
qed

termination components
  by (relation "measure length") (auto intro: components_shorter simp del: dropWhile_eq_Nil_conv)

declare components.simps [simp del]

text \<open>
  The loop a caller runs: take the next part until it is null. \<open>fuel\<close> bounds the number of
  parts; a path of \<open>n\<close> bytes has at most \<open>n\<close>.
\<close>

fun path_iterate :: "nat \<Rightarrow> path \<Rightarrow> u8 list list option" where
  "path_iterate 0 path = None"
| "path_iterate (Suc fuel) path = do {
     q \<leftarrow> path_next_part path;
     if path_is_null q then Some []
     else do { rest \<leftarrow> path_iterate fuel q; Some (path_view q # rest) } }"

lemma path_take_part_view:
  assumes "path_ok path"
  defines "w \<equiv> dropWhile slash (path_view path)"
  shows "\<exists>q. path_take_part path = Some q \<and> path_ok q \<and> path_view q = takeWhile (\<lambda>x. \<not> slash x) w \<and>
     path_start q + length w = path_end path \<and>
     p_str q = p_str path \<and> p_slen q = p_slen path \<and> p_orig_len q = p_orig_len path \<and> p_valid q = p_valid path"
proof -
  obtain p where p: "path_strip_leading path 0x2F = Some p" "path_ok p" "path_view p = w" "path_end p = path_end path"
    "p_str p = p_str path" "p_slen p = p_slen path" "p_orig_len p = p_orig_len path" "p_valid p = p_valid path"
    using trim_front_ok [OF assms(1), of slash] by (auto simp: path_strip_leading_def w_def)
  let ?k = "length (takeWhile (\<lambda>x. \<not> slash x) w)"
  have q: "path_remove_until p 0x2F = Some (p\<lparr>p_off := p_off p + of_nat ?k, p_len := p_len p - of_nat ?k\<rparr>)"
    using trim_front_view [OF p(2), of "\<lambda>x. \<not> slash x"] by (simp add: path_remove_until_def p(3))
  have len: "path_len p = length w" using length_path_view [OF p(2)] p(3) by simp
  have k: "?k \<le> path_len p" by (simp add: len length_takeWhile_le)
  let ?q = "p\<lparr>p_off := p_off p, p_len := of_nat ?k\<rparr>"
  have take: "path_take_part path = Some ?q" using p(1) q by (simp add: path_take_part_def Let_def)
  have cut: "p_len p - of_nat (path_len p - ?k) = of_nat ?k"
    using k by (simp add: path_len_def of_nat_diff)
  note c = path_cut [OF p(2), of "path_len p - ?k", unfolded cut]
  have "path_view (p\<lparr>p_len := of_nat ?k\<rparr>) = takeWhile (\<lambda>x. \<not> slash x) w"
    using c(2) k len p(3) by (simp add: takeWhile_eq_take [symmetric])
  moreover have "path_start p + length w = path_end path" using p(4) len by (simp add: path_end_eq)
  ultimately show ?thesis using take c(1,3) p by simp
qed

lemma path_null_view: "path_ok path \<Longrightarrow> path_is_null path \<longleftrightarrow> path_view path = []"
  by (simp add: path_is_null_def path_len_0_view)

text \<open>
  An iterator over a path viewed as a whole: the part it stands on ends where the rest of the
  string begins.
\<close>

definition iter_ok :: "path \<Rightarrow> bool" where
  "iter_ok path \<longleftrightarrow> path_ok path \<and> p_valid path \<and> path_end path \<le> unat (p_orig_len path) \<and>
     (\<exists>s. p_str path = Some s \<and> unat (p_orig_len path) \<le> length s)"

definition iter_rest :: "path \<Rightarrow> u8 list" where
  "iter_rest path = drop (path_end path) (take (unat (p_orig_len path)) (the (p_str path)))"

lemma path_take_part_iter:
  assumes "path_ok path" "p_valid path" "path_end path = unat (p_orig_len path)"
    and "p_str path = Some s" "unat (p_orig_len path) \<le> length s"
  defines "w \<equiv> dropWhile slash (path_view path)"
  shows "\<exists>q. path_take_part path = Some q \<and> iter_ok q \<and> path_view q = takeWhile (\<lambda>x. \<not> slash x) w \<and>
     iter_rest q = dropWhile (\<lambda>x. \<not> slash x) w"
proof -
  obtain q where q: "path_take_part path = Some q" "path_ok q" "path_view q = takeWhile (\<lambda>x. \<not> slash x) w"
     "path_start q + length w = path_end path" "p_str q = Some s" "p_orig_len q = p_orig_len path" "p_valid q"
    using path_take_part_view [OF assms(1)] assms(2,4) unfolding w_def by auto
  have len: "path_len q = length (takeWhile (\<lambda>x. \<not> slash x) w)" using length_path_view [OF q(2)] q(3) by simp
  have "w = drop (length (takeWhile slash (path_view path))) (path_view path)"
    unfolding w_def by (rule dropWhile_eq_drop)
  moreover have "path_view path = drop (path_start path) (take (path_end path) s)"
    using assms(4) by (simp add: path_view_def path_end_eq drop_take)
  ultimately have suffix: "\<exists>j. w = drop j (take (path_end path) s)" by (metis drop_drop)
  have "w = drop (path_start q) (take (path_end path) s)"
  proof -
    obtain j where j: "w = drop j (take (path_end path) s)" using suffix by blast
    have l: "length (take (path_end path) s) = path_end path" using assms(3,5) by simp
    show ?thesis
    proof (cases "j \<le> path_end path")
      case True
      then have "path_start q = j" using q(4) j l by simp
      then show ?thesis using j by simp
    qed (use j q(4) l in simp)
  qed
  moreover have "dropWhile (\<lambda>x. \<not> slash x) w = drop (path_len q) w" by (simp add: len dropWhile_eq_drop)
  ultimately have "iter_rest q = dropWhile (\<lambda>x. \<not> slash x) w"
    using q(5,6) assms(3) by (simp add: iter_rest_def path_end_eq add.commute)
  moreover have "path_end q \<le> unat (p_orig_len q)"
    using q(4,6) assms(3) len length_takeWhile_le [of "\<lambda>x. \<not> slash x" w] by (simp add: path_end_eq)
  ultimately show ?thesis using q assms(5) by (simp add: iter_ok_def)
qed

lemma path_iterate_rest:
  assumes "iter_ok path" "\<not> path_is_null path" "length (iter_rest path) < fuel"
  shows "path_iterate fuel path = Some (components (iter_rest path))"
  using assms
proof (induction fuel arbitrary: path)
  case (Suc fuel)
  obtain s where ok: "path_ok path" "p_valid path" "path_end path \<le> unat (p_orig_len path)" 
    "p_str path = Some s" "unat (p_orig_len path) \<le> length s"
    using Suc.prems(1) by (auto simp: iter_ok_def)
  let ?off = "p_off path + p_len path"
  let ?p = "path\<lparr>p_off := ?off, p_len := p_orig_len path - ?off\<rparr>"
  have off: "unat ?off = path_end path"
    using ok(1) by (simp add: path_ok_def path_end_def unat_word_ariths)
  have len: "unat (p_orig_len path - ?off) = unat (p_orig_len path) - path_end path"
    using ok(3) off by (simp add: unat_sub word_le_nat_alt)
  have e: "path_end ?p = unat (p_orig_len path)" using off len ok(3) by (simp add: path_end_def)
  then have okp: "path_ok ?p"
    using ok(4,5) unsigned_less [of "p_orig_len path", where 'a = nat] by (simp add: path_ok_def)
  have view: "path_view ?p = iter_rest path"
    using ok(4) off len by (simp add: path_view_def iter_rest_def path_start_def path_len_def drop_take)
  let ?w = "dropWhile slash (iter_rest path)"
  obtain q where q: "path_take_part ?p = Some q" "iter_ok q" "path_view q = takeWhile (\<lambda>x. \<not> slash x) ?w"
     "iter_rest q = dropWhile (\<lambda>x. \<not> slash x) ?w"
    using path_take_part_iter [OF okp] ok(2,4,5) e view by auto
  have nxt: "path_next_part path = Some q"
    using q(1) Suc.prems(2) ok(2) by (simp add: path_next_part_def Let_def)
  have null: "path_is_null q \<longleftrightarrow> ?w = []"
    using path_null_view [of q] q(2,3) hd_dropWhile [of slash "iter_rest path"]
    by (cases ?w) (auto simp: iter_ok_def simp del: dropWhile_eq_Nil_conv)
  show ?case
  proof (cases "?w = []")
    case True
    then show ?thesis using nxt null by (simp add: components.simps Let_def)
  next
    case False
    have "length (iter_rest q) < fuel"
      using components_shorter [OF False] Suc.prems(3) q(4) by simp
    with Suc.IH [OF q(2)] False null have "path_iterate fuel q = Some (components (iter_rest q))" by simp
    then show ?thesis using nxt null False q(3,4)
      by (simp add: components.simps [of "iter_rest path"] Let_def del: dropWhile_eq_Nil_conv)
  qed
qed simp

lemma path_iterate_whole:
  assumes "path_ok path" "p_off path = 0" "p_len path = p_slen path" "\<not> p_valid path" "path_len path < fuel"
  shows "path_iterate (Suc fuel) path = Some (components (path_view path))"
proof (cases "path_is_null path")
  case True
  then show ?thesis
    using path_null_view [OF assms(1)] by (simp add: path_next_part_def components.simps)
next
  case False
  let ?p = "path\<lparr>p_valid := True, p_orig_len := p_len path, p_off := 0, p_len := p_slen path\<rparr>"
  let ?w = "dropWhile slash (path_view path)"
  obtain s where s: "p_str path = Some s" "path_len path \<le> length s"
    using assms(1) False by (auto simp: path_ok_def path_is_null_def path_end_eq split: option.splits)
  have same: "path_ok ?p" "path_view ?p = path_view path" "path_end ?p = unat (p_orig_len ?p)"
    using assms by (auto simp: path_ok_def path_view_def path_end_def path_start_def path_len_def split: option.splits)
  obtain q where q: "path_take_part ?p = Some q" "iter_ok q" "path_view q = takeWhile (\<lambda>x. \<not> slash x) ?w"
     "iter_rest q = dropWhile (\<lambda>x. \<not> slash x) ?w"
    using path_take_part_iter [OF same(1) _ same(3)] s same(2) by (auto simp: path_len_def)
  have nxt: "path_next_part path = Some q" using q(1) False assms(4) by (simp add: path_next_part_def)
  have null: "path_is_null q \<longleftrightarrow> ?w = []" 
    using path_null_view [of q] q(2,3) hd_dropWhile [of slash "path_view path"]
    by (cases ?w) (auto simp: iter_ok_def simp del: dropWhile_eq_Nil_conv)
  show ?thesis
  proof (cases "?w = []")
    case True
    then show ?thesis using nxt null by (simp add: components.simps Let_def)
  next
    case False
    have "length (iter_rest q) < fuel"
      using components_shorter [OF False] assms(5) q(4) length_path_view [OF assms(1)] by simp
    with path_iterate_rest [OF q(2)] False null have "path_iterate fuel q = Some (components (iter_rest q))" by simp
    then show ?thesis using nxt null False q(3,4)
      by (simp add: components.simps [of "path_view path"] Let_def del: dropWhile_eq_Nil_conv)
  qed
qed

text \<open>The first call goes back to the start of the backing string, whatever the path views.\<close>

lemma path_first_part:
  assumes "\<not> p_valid path" "\<not> path_is_null path" "p_str path = Some s" "unat (p_slen path) \<le> length s"
  shows "\<exists>q. path_next_part path = Some q \<and>
    path_view q = takeWhile (\<lambda>x. \<not> slash x) (dropWhile slash (take (unat (p_slen path)) s))"
proof -
  let ?p = "path\<lparr>p_valid := True, p_orig_len := p_len path, p_off := 0, p_len := p_slen path\<rparr>"
  have "path_ok ?p" "path_view ?p = take (unat (p_slen path)) s"
    using assms(3,4) unsigned_less [of "p_slen path", where 'a = nat]
    by (simp_all add: path_ok_def path_view_def path_end_def path_start_def path_len_def)
  then show ?thesis using path_take_part_view [of ?p] assms(1,2) by (auto simp: path_next_part_def)
qed

text \<open>
  C15: Calling \<open>path_next_part\<close> on a path whose iteration has not begun and that views the whole of its
  backing string, as the constructors make it, until the part is null, ends and yields the components
  of the path in order: the maximal runs of bytes without a slash, none of them empty. On a path that
  views only a part of its string the first call ignores the view: it yields the first component of
  the whole string.
\<close>

theorem path_iterates_components:
  assumes "path_ok path" "\<not> p_valid path"
  shows "(p_off path = 0 \<and> p_len path = p_slen path \<and> path_len path < fuel \<longrightarrow>
      path_iterate (Suc fuel) path = Some (components (path_view path))) \<and>
    (\<not> path_is_null path \<and> p_str path = Some s \<and> unat (p_slen path) \<le> length s \<longrightarrow>
      (\<exists>q. path_next_part path = Some q \<and>
        path_view q = takeWhile (\<lambda>x. \<not> slash x) (dropWhile slash (take (unat (p_slen path)) s))))"
  using path_iterate_whole [OF assms(1) _ _ assms(2)] path_first_part [OF assms(2)] by blast

text \<open>The components of \<open>/a//b\<close>, and the first part of the view \<open>b\<close> of the same string, which is \<open>a\<close>.\<close>

theorem path_iterates_components_witness:
  "path_iterate 7 (path_new (Some [0x2F, 0x61, 0x2F, 0x2F, 0x62, 0]) 5) = Some [[0x61], [0x62]] \<and>
   (\<exists>q. path_next_part ((path_new (Some [0x2F, 0x61, 0x2F, 0x2F, 0x62, 0]) 5)\<lparr>p_off := 4, p_len := 1\<rparr>) = Some q \<and>
     path_view q = [0x61])"
proof -
  let ?s = "[0x2F, 0x61, 0x2F, 0x2F, 0x62, 0] :: u8 list"
  let ?p = "path_new (Some ?s) 5" and ?q = "(path_new (Some ?s) 5)\<lparr>p_off := 4, p_len := 1\<rparr>"
  note defs = path_new_def path_ok_def path_len_def path_start_def path_end_def
  have "path_ok ?p" "p_off ?p = 0" "p_len ?p = p_slen ?p" "\<not> p_valid ?p" "path_len ?p < 6" by (simp_all add: defs)
  moreover have "path_view ?p = [0x2F, 0x61, 0x2F, 0x2F, 0x62]" by (simp add: defs path_view_def)
  ultimately have "path_iterate 7 ?p = Some [[0x61], [0x62]]"
    using path_iterates_components [of ?p 6 ?s] by (simp add: components.simps)
  moreover have "path_ok ?q" "\<not> p_valid ?q" "\<not> path_is_null ?q" "p_str ?q = Some ?s" "unat (p_slen ?q) = 5"
    by (simp_all add: defs path_is_null_def)
  then have "\<exists>q. path_next_part ?q = Some q \<and> path_view q = [0x61]"
    using path_iterates_components [of ?q 0 ?s] by simp
  ultimately show ?thesis by blast
qed

section \<open>Comparing paths\<close>

lemma path_bytes_view:
  assumes "path_ok path" "n \<le> path_len path"
  shows "path_bytes path n = Some (take n (path_view path))"
  using assms by (auto simp: path_bytes_def path_ok_def path_view_def path_end_eq min_def split: option.splits)

lemma path_eq_view:
  assumes "path_ok p" "path_ok q"
  shows "path_eq p q = Some (path_view p = path_view q)"
proof (cases "path_len p = path_len q \<and> path_len p \<noteq> 0")
  case True
  then obtain s t where st: "p_str p = Some s" "p_str q = Some t" "path_end p \<le> length s" "path_end q \<le> length t"
    using assms by (auto simp: path_ok_def split: option.splits)
  have "memcmp (s @ t) (int (path_start p)) (int (length s + path_start q)) (path_len p) = Some (
    if path_view p = path_view q then 0 else if ord_class.lexordp (path_view p) (path_view q) then -1 else 1)"
    using memcmp_spec [of "path_start p" "path_len p" "s @ t" "length s + path_start q"] st True
    by (simp add: path_end_eq path_view_def)
  then show ?thesis using True st(1,2) by (simp add: path_eq_def path_memcmp_def)
next
  case False
  then show ?thesis
    using length_path_view [OF assms(1)] length_path_view [OF assms(2)]
    by (auto simp: path_eq_def path_memcmp_def)
qed

text \<open>Two strings of which one continues the other at a component boundary.\<close>

definition at_boundary :: "u8 list \<Rightarrow> u8 list \<Rightarrow> bool" where
  "at_boundary u v \<longleftrightarrow> (\<exists>w. v = u @ w \<and> (w = [] \<or> slash (hd w)))"

lemma at_boundary_simps [simp]:
  "at_boundary [] v \<longleftrightarrow> v = [] \<or> slash (hd v)"
  "at_boundary (x # u) [] \<longleftrightarrow> False"
  "at_boundary (x # u) (y # v) \<longleftrightarrow> x = y \<and> at_boundary u v"
  by (auto simp: at_boundary_def)

lemma subpath_loop_view:
  assumes "path_ok p" "path_ok q" "i \<le> path_len p" "i \<le> path_len q"
  shows "subpath_loop p q (path_start p + i) (path_end p) (path_start q + i) (path_end q) =
    Some (at_boundary (drop i (path_view p)) (drop i (path_view q)) \<or> at_boundary (drop i (path_view q)) (drop i (path_view p)))"
  using assms(3,4)
proof (induction "path_len p - i" arbitrary: i rule: less_induct)
  case less
  have lens: "length (path_view p) = path_len p" "length (path_view q) = path_len q"
    using assms length_path_view by auto
  have u: "drop i (path_view p) = path_view p ! i # drop (Suc i) (path_view p)"
    "path_read p (path_start p + i) = Some (path_view p ! i)" if "i < path_len p"
    using that lens path_read_view [OF assms(1)] by (simp_all add: Cons_nth_drop_Suc)
  have v: "drop i (path_view q) = path_view q ! i # drop (Suc i) (path_view q)"
    "path_read q (path_start q + i) = Some (path_view q ! i)" if "i < path_len q"
    using that lens path_read_view [OF assms(2)] by (simp_all add: Cons_nth_drop_Suc)
  consider "i < path_len p" "i < path_len q" | "i = path_len p" "i < path_len q"
    | "i < path_len p" "i = path_len q" | "i = path_len p" "i = path_len q" using less.prems by linarith
  then show ?case
  proof cases
    case 1
    then show ?thesis
      using less.hyps [of "Suc i"] u v
      by (auto simp: subpath_loop.simps [of p q "path_start p + i"] path_end_eq)
  next
    case 2
    then show ?thesis using v lens by (subst subpath_loop.simps) (auto simp: path_end_eq)
  next
    case 3
    then show ?thesis using u lens by (subst subpath_loop.simps) (auto simp: path_end_eq)
  next
    case 4
    then show ?thesis using lens by (subst subpath_loop.simps) (simp add: path_end_eq)
  qed
qed

text \<open>
  C23: \<open>path_is_subpath\<close> holds exactly when both paths are nonempty and the string of one of the two
  continues that of the other with nothing or with a slash, so \<open>/ab\<close> is not under \<open>/a\<close>. This departs
  from its header, by which the first path is at or under the second, in two ways: it is symmetric in
  its arguments, and a path that ends in a slash, the root \<open>/\<close> in particular, has nothing under it but
  itself and what follows with another slash.
\<close>

theorem path_is_subpath_boundary:
  assumes "path_ok p" "path_ok q"
  shows "path_is_subpath p q = Some (path_view p \<noteq> [] \<and> path_view q \<noteq> [] \<and>
      (at_boundary (path_view p) (path_view q) \<or> at_boundary (path_view q) (path_view p))) \<and>
    path_is_subpath p q = path_is_subpath q p \<and>
    (\<forall>u w. path_view q = u @ [0x2F] \<and> path_view p = path_view q @ w \<and> w \<noteq> [] \<and> \<not> slash (hd w) \<longrightarrow>
      path_is_subpath p q = Some False)"
proof -
  have eq: "path_is_subpath p q = Some (path_view p \<noteq> [] \<and> path_view q \<noteq> [] \<and>
      (at_boundary (path_view p) (path_view q) \<or> at_boundary (path_view q) (path_view p)))"
    if "path_ok p" "path_ok q" for p q
    using subpath_loop_view [OF that, of 0] path_null_view [OF that(1)] path_null_view [OF that(2)]
    by (auto simp: path_is_subpath_def)
  have "path_is_subpath p q = Some False" if "path_view p = path_view q @ w" "w \<noteq> []" "\<not> slash (hd w)" for w
    using that eq [OF assms] by (auto simp: at_boundary_def)
  then show ?thesis using eq [OF assms] eq [OF assms(2,1)] by auto
qed

text \<open>\<open>/a/b\<close> is under \<open>/a\<close>, \<open>/ab\<close> is not, and neither is \<open>/a\<close> under the root.\<close>

theorem path_is_subpath_boundary_witness:
  "path_is_subpath (path_new (Some [0x2F, 0x61, 0x2F, 0x62, 0]) 4) (path_new (Some [0x2F, 0x61, 0]) 2) = Some True \<and>
   path_is_subpath (path_new (Some [0x2F, 0x61, 0x62, 0]) 3) (path_new (Some [0x2F, 0x61, 0]) 2) = Some False \<and>
   path_is_subpath (path_new (Some [0x2F, 0x61, 0]) 2) SLASH_PATH = Some False"
proof -
  let ?p = "path_new (Some [0x2F, 0x61, 0x2F, 0x62, 0]) 4" and ?q = "path_new (Some [0x2F, 0x61, 0]) 2"
    and ?r = "path_new (Some [0x2F, 0x61, 0x62, 0]) 3"
  note defs = path_new_def SLASH_PATH_def path_ok_def path_len_def path_start_def path_end_def path_view_def
  have "path_ok ?p" "path_ok ?q" "path_ok ?r" "path_ok SLASH_PATH" by (simp_all add: defs)
  moreover have "path_view ?p = [0x2F, 0x61, 0x2F, 0x62]" "path_view ?q = [0x2F, 0x61]" "path_view ?r = [0x2F, 0x61, 0x62]"
    "path_view SLASH_PATH = [0x2F]" by (simp_all add: defs)
  ultimately show ?thesis
    using path_is_subpath_boundary [of ?p ?q] path_is_subpath_boundary [of ?r ?q] path_is_subpath_boundary [of ?q SLASH_PATH] by simp
qed

end
