(* ===== verification/Mutex.thy ===== *)
theory Mutex
  imports Kernel_Prelude
begin

text \<open>
  Mutexes, from \<^verbatim>\<open>kernel/mutex.c\<close>, with the lock claim lists of \<^verbatim>\<open>kernel/lock.c\<close> and the
  critical sections of \<^verbatim>\<open>kernel/proc.c\<close>. The lock word holds the owner's address with the
  state in its low three bits. \<open>None\<close> is a failed assertion; the atomic operations are the
  steps of the threads that share a mutex.
\<close>

section \<open>Lock claims\<close>

text \<open>
  A claim list is a chain of nodes with eight slots each; a slot is the address of the claimed
  lock, 0 when cleared. The call site recorded with a claim is debugging data and left out.
\<close>

record claim_node =
  cl_claims :: "u64 list"
  cl_nclaims :: nat

definition lock_claim_list_alloc :: claim_node where
  "lock_claim_list_alloc = \<lparr>cl_claims = replicate 8 0, cl_nclaims = 0\<rparr>"

definition node_put :: "claim_node \<Rightarrow> u64 \<Rightarrow> claim_node" where
  "node_put n lock = \<lparr>cl_claims = (cl_claims n)[cl_nclaims n := lock], cl_nclaims = cl_nclaims n + 1\<rparr>"

fun lock_claim_list_add :: "claim_node list \<Rightarrow> u64 \<Rightarrow> claim_node list" where
  "lock_claim_list_add [] lock = []"
| "lock_claim_list_add (n # ns) lock =
     (if cl_nclaims n = 8 then [n, node_put lock_claim_list_alloc lock]
      else node_put n lock # ns)"

text \<open>The reverse scan over the first \<open>i\<close> slots of a node.\<close>

fun claim_scan :: "claim_node \<Rightarrow> u64 \<Rightarrow> nat \<Rightarrow> claim_node option" where
  "claim_scan n lock 0 = None"
| "claim_scan n lock (Suc i) =
     (if cl_claims n ! i = lock
      then Some \<lparr>cl_claims = (cl_claims n)[i := 0], cl_nclaims = cl_nclaims n - 1\<rparr>
      else claim_scan n lock i)"

fun lock_claim_list_remove :: "claim_node list \<Rightarrow> u64 \<Rightarrow> claim_node list option" where
  "lock_claim_list_remove [] lock = None"
| "lock_claim_list_remove (n # ns) lock =
     (if cl_nclaims n = 8 \<and> ns \<noteq> []
      then do { ms \<leftarrow> lock_claim_list_remove ns lock; Some (n # ms) }
      else do { m \<leftarrow> claim_scan n lock (cl_nclaims n); Some (m # ns) })"

section \<open>The context a lock operation runs in\<close>

text \<open>
  The processor the caller runs on, with the counters of its current thread; the address 0
  stands for no current thread, as during early boot.
\<close>

record cpu_ctx =
  c_thread :: u64
  c_intr :: bool
  c_saved :: bool
  c_claims :: "claim_node list option"
  c_lock_count :: int
  c_spin_count :: int
  c_crit :: int

definition critical_enter :: "cpu_ctx \<Rightarrow> cpu_ctx" where
  "critical_enter c = (let rflags = c_intr c; c1 = c\<lparr>c_intr := False\<rparr> in
     if c_thread c = 0 then c1\<lparr>c_saved := rflags\<rparr>
     else let c2 = c1\<lparr>c_crit := c_crit c + 1\<rparr> in
       if c_crit c = 0 then c2\<lparr>c_saved := rflags\<rparr> else c2)"

definition critical_exit :: "cpu_ctx \<Rightarrow> cpu_ctx" where
  "critical_exit c =
     (if c_thread c = 0 then c\<lparr>c_intr := c_saved c\<rparr>
      else let c1 = c\<lparr>c_crit := c_crit c - 1\<rparr> in
        if c_crit c = 1 then c1\<lparr>c_intr := c_saved c\<rparr> else c1)"

definition spinlock_enter :: "cpu_ctx \<Rightarrow> cpu_ctx" where
  "spinlock_enter c = critical_enter
     (if c_thread c \<noteq> 0 then c\<lparr>c_spin_count := c_spin_count c + 1\<rparr> else c)"

definition spinlock_exit :: "cpu_ctx \<Rightarrow> cpu_ctx option" where
  "spinlock_exit c = do {
     c1 \<leftarrow> (if c_thread c \<noteq> 0
           then do { kassert (c_spin_count c > 0); Some (c\<lparr>c_spin_count := c_spin_count c - 1\<rparr>) }
           else Some c);
     Some (critical_exit c1) }"

definition SPIN_CLAIMS_ADD :: "u64 \<Rightarrow> cpu_ctx \<Rightarrow> cpu_ctx" where
  "SPIN_CLAIMS_ADD lock c = c\<lparr>c_claims := map_option (\<lambda>l. lock_claim_list_add l lock) (c_claims c)\<rparr>"

definition SPIN_CLAIMS_REMOVE :: "u64 \<Rightarrow> cpu_ctx \<Rightarrow> cpu_ctx option" where
  "SPIN_CLAIMS_REMOVE lock c = (case c_claims c of
     None \<Rightarrow> Some c
   | Some l \<Rightarrow> do { l' \<leftarrow> lock_claim_list_remove l lock; Some (c\<lparr>c_claims := Some l'\<rparr>) })"

section \<open>Mutexes\<close>

record mtx =
  m_addr :: u64
  m_flags :: u32
  m_data :: u32
  m_lock :: u64

definition MTX_UNOWNED :: u64 where "MTX_UNOWNED = 0"
definition MTX_LOCKED :: u64 where "MTX_LOCKED = 1"
definition MTX_DESTROYED :: u64 where "MTX_DESTROYED = 2"
definition MTX_RECURSED :: u64 where "MTX_RECURSED = 4"
definition MTX_STATE_MASK :: u64 where "MTX_STATE_MASK = 7"

definition MTX_SPIN :: u32 where "MTX_SPIN = 1"
definition MTX_DEBUG :: u32 where "MTX_DEBUG = 2"
definition MTX_RECURSIVE :: u32 where "MTX_RECURSIVE = 4"
definition MTX_NOCLAIMS :: u32 where "MTX_NOCLAIMS = 8"

definition SPINLOCK_LOCKCLASS :: u32 where "SPINLOCK_LOCKCLASS = 1"
definition MUTEX_LOCKCLASS :: u32 where "MUTEX_LOCKCLASS = 2"
definition LO_DEBUG :: u32 where "LO_DEBUG = 0x100"
definition LO_NOCLAIMS :: u32 where "LO_NOCLAIMS = 0x200"
definition LO_RECURSABLE :: u32 where "LO_RECURSABLE = 0x400"
definition LO_INITIALIZED :: u32 where "LO_INITIALIZED = 0x1000"

definition new_mtx_lock :: "u64 \<Rightarrow> u64 \<Rightarrow> u64" where
  "new_mtx_lock td state = td OR (state AND MTX_STATE_MASK)"

definition mtx_lock_owner :: "u64 \<Rightarrow> u64" where
  "mtx_lock_owner ml = ml AND NOT MTX_STATE_MASK"

definition mtx_get_lc :: "mtx \<Rightarrow> u32" where
  "mtx_get_lc m = m_flags m AND 0xFF"

definition mtx_get_lo :: "mtx \<Rightarrow> u32" where
  "mtx_get_lo m = m_flags m AND 0xFFFF"

definition mtx_opts_to_lockobject_flags :: "u32 \<Rightarrow> u32" where
  "mtx_opts_to_lockobject_flags opts0 =
     (let opts = (if opts0 AND MTX_SPIN \<noteq> 0 then opts0 AND NOT MTX_RECURSIVE else opts0);
          cls = (if opts0 AND MTX_SPIN \<noteq> 0 then SPINLOCK_LOCKCLASS else MUTEX_LOCKCLASS) in
      LO_INITIALIZED OR cls
        OR (if opts AND MTX_DEBUG \<noteq> 0 then LO_DEBUG else 0)
        OR (if opts AND MTX_NOCLAIMS \<noteq> 0 then LO_NOCLAIMS else 0)
        OR (if opts AND MTX_RECURSIVE \<noteq> 0 then LO_RECURSABLE else 0))"

definition mtx_init :: "u64 \<Rightarrow> u32 \<Rightarrow> mtx" where
  "mtx_init addr opts = \<lparr>m_addr = addr, m_flags = mtx_opts_to_lockobject_flags opts,
     m_data = 0, m_lock = MTX_UNOWNED\<rparr>"

definition mtx_destroy :: "mtx \<Rightarrow> mtx option" where
  "mtx_destroy m = do {
     kassert (m_lock m \<noteq> MTX_DESTROYED);
     Some (m\<lparr>m_flags := ucast MTX_DESTROYED, m_data := 0, m_lock := MTX_DESTROYED\<rparr>) }"

definition mtx_owner :: "mtx \<Rightarrow> u64 option" where
  "mtx_owner m = do { kassert (m_lock m \<noteq> MTX_DESTROYED); Some (mtx_lock_owner (m_lock m)) }"

definition MA_UNLOCKED :: "32 word" where "MA_UNLOCKED = 0x00"
definition MA_LOCKED :: "32 word" where "MA_LOCKED = 0x01"
definition MA_OWNED :: "32 word" where "MA_OWNED = 0x08"
definition MA_NOTOWNED :: "32 word" where "MA_NOTOWNED = 0x10"
definition MA_RECURSED :: "32 word" where "MA_RECURSED = 0x20"
definition MA_NOTRECURSED :: "32 word" where "MA_NOTRECURSED = 0x40"

definition mtx_assert :: "u64 \<Rightarrow> mtx \<Rightarrow> 32 word \<Rightarrow> unit option" where
  "mtx_assert curthread m what =
     (if what = MA_UNLOCKED then kassert (m_lock m = MTX_UNOWNED)
      else if what AND MA_LOCKED \<noteq> 0 then kassert (m_lock m AND MTX_LOCKED \<noteq> 0)
      else if what AND MA_OWNED \<noteq> 0
        then kassert (m_lock m AND MTX_LOCKED \<noteq> 0 \<and> mtx_lock_owner (m_lock m) = curthread)
      else if what AND MA_NOTOWNED \<noteq> 0 then kassert (mtx_lock_owner (m_lock m) \<noteq> curthread)
      else if what AND MA_RECURSED \<noteq> 0 then kassert (m_lock m AND MTX_LOCKED \<noteq> 0 \<and> m_data m > 0)
      else if what AND MA_NOTRECURSED \<noteq> 0 then kassert (m_lock m AND MTX_LOCKED \<noteq> 0 \<and> m_data m = 1)
      else None)"

text \<open>Taking a lock the current thread owns already.\<close>

definition mtx_recurse :: "mtx \<Rightarrow> cpu_ctx \<Rightarrow> (mtx \<times> cpu_ctx) option" where
  "mtx_recurse m c = do {
     kassert (mtx_get_lo m AND LO_RECURSABLE \<noteq> 0);
     Some (m\<lparr>m_lock := m_lock m OR MTX_RECURSED, m_data := m_data m + 1\<rparr>,
           c\<lparr>c_lock_count := c_lock_count c + 1\<rparr>) }"

definition owned_by_current :: "mtx \<Rightarrow> cpu_ctx \<Rightarrow> bool" where
  "owned_by_current m c \<longleftrightarrow> c_thread c \<noteq> 0 \<and> mtx_lock_owner (m_lock m) = c_thread c"

definition mtx_spin_trylock :: "mtx \<Rightarrow> cpu_ctx \<Rightarrow> (bool \<times> mtx \<times> cpu_ctx) option" where
  "mtx_spin_trylock m c = do {
     kassert (m_lock m \<noteq> MTX_DESTROYED);
     kassert (mtx_get_lc m = SPINLOCK_LOCKCLASS);
     kassert (mtx_lock_owner (m_lock m) = 0 \<or> mtx_lock_owner (m_lock m) \<noteq> c_thread c);
     let c1 = SPIN_CLAIMS_ADD (m_addr m) (spinlock_enter c);
     if owned_by_current m c1 then do { (m', c') \<leftarrow> mtx_recurse m c1; Some (True, m', c') }
     else if m_lock m = MTX_UNOWNED
       then Some (True, m\<lparr>m_lock := new_mtx_lock (c_thread c1) MTX_LOCKED, m_data := 1\<rparr>, c1)
     else do {
       c2 \<leftarrow> SPIN_CLAIMS_REMOVE (m_addr m) c1;
       c3 \<leftarrow> spinlock_exit c2;
       Some (False, m, c3) } }"

text \<open>
  One pass of \<open>_mtx_spin_lock\<close> up to the exchange: \<open>True\<close> when the lock was taken, \<open>False\<close>
  when the thread is left spinning on it.
\<close>

definition mtx_spin_lock :: "mtx \<Rightarrow> cpu_ctx \<Rightarrow> (bool \<times> mtx \<times> cpu_ctx) option" where
  "mtx_spin_lock m c = do {
     kassert (m_lock m \<noteq> MTX_DESTROYED);
     kassert (mtx_get_lc m = SPINLOCK_LOCKCLASS);
     let c1 = SPIN_CLAIMS_ADD (m_addr m) (spinlock_enter c);
     if owned_by_current m c1 then do { (m', c') \<leftarrow> mtx_recurse m c1; Some (True, m', c') }
     else if m_lock m = MTX_UNOWNED
       then Some (True, m\<lparr>m_lock := new_mtx_lock (c_thread c1) MTX_LOCKED, m_data := 1\<rparr>, c1)
     else Some (False, m, c1) }"

definition mtx_spin_unlock :: "mtx \<Rightarrow> cpu_ctx \<Rightarrow> (mtx \<times> cpu_ctx) option" where
  "mtx_spin_unlock m c = do {
     kassert (m_lock m \<noteq> MTX_DESTROYED);
     kassert (mtx_get_lc m = SPINLOCK_LOCKCLASS);
     kassert (mtx_lock_owner (m_lock m) = c_thread c);
     let m1 = m\<lparr>m_data := m_data m - 1\<rparr>;
     if m_lock m1 AND MTX_RECURSED \<noteq> 0 \<and> m_data m1 > 0 then do {
       kassert (mtx_get_lo m1 AND LO_RECURSABLE \<noteq> 0);
       Some (if m_data m1 = 1 then m1\<lparr>m_lock := m_lock m1 AND NOT MTX_RECURSED\<rparr> else m1, c) }
     else do {
       kassert (m_data m1 = 0);
       c1 \<leftarrow> SPIN_CLAIMS_REMOVE (m_addr m) c;
       c2 \<leftarrow> spinlock_exit c1;
       Some (m1\<lparr>m_lock := MTX_UNOWNED\<rparr>, c2) } }"

definition mtx_wait_trylock :: "mtx \<Rightarrow> cpu_ctx \<Rightarrow> (bool \<times> mtx \<times> cpu_ctx) option" where
  "mtx_wait_trylock m c = do {
     kassert (m_lock m \<noteq> MTX_DESTROYED);
     kassert (mtx_get_lc m = MUTEX_LOCKCLASS);
     if owned_by_current m c then do { (m', c') \<leftarrow> mtx_recurse m c; Some (True, m', c') }
     else if m_lock m = MTX_UNOWNED then do {
       kassert (c_thread c \<noteq> 0);
       Some (True, m\<lparr>m_lock := new_mtx_lock (c_thread c) MTX_LOCKED, m_data := 1\<rparr>,
             c\<lparr>c_lock_count := c_lock_count c + 1\<rparr>) }
     else Some (False, m, c) }"

text \<open>
  A contended \<open>_mtx_wait_lock\<close> first locks the chain of lock queues for the lock with
  \<open>mtx_lock\<close>, that is with \<open>_mtx_wait_lock\<close> itself, whose assertions it must pass;
  \<open>lockq_static_init\<close> has created every chain lock as a spin lock. The result \<open>False\<close> is
  reached when the thread would block on the queue.
\<close>

definition mtx_wait_lock_check :: "mtx \<Rightarrow> unit option" where
  "mtx_wait_lock_check m = do {
     kassert (m_lock m \<noteq> MTX_DESTROYED);
     kassert (mtx_get_lc m = MUTEX_LOCKCLASS) }"

definition lockq_chain_mtx :: "u64 \<Rightarrow> mtx" where
  "lockq_chain_mtx addr = mtx_init addr MTX_SPIN"

definition mtx_wait_lock :: "mtx \<Rightarrow> mtx \<Rightarrow> cpu_ctx \<Rightarrow> (bool \<times> mtx \<times> cpu_ctx) option" where
  "mtx_wait_lock chain m c = do {
     mtx_wait_lock_check m;
     if owned_by_current m c then do { (m', c') \<leftarrow> mtx_recurse m c; Some (True, m', c') }
     else if m_lock m = MTX_UNOWNED then do {
       kassert (c_thread c \<noteq> 0);
       Some (True, m\<lparr>m_lock := new_mtx_lock (c_thread c) MTX_LOCKED, m_data := 1\<rparr>,
             c\<lparr>c_lock_count := c_lock_count c + 1\<rparr>) }
     else do {
       mtx_wait_lock_check chain;
       Some (False, m, c) } }"

definition mtx_wait_unlock :: "mtx \<Rightarrow> cpu_ctx \<Rightarrow> (mtx \<times> cpu_ctx) option" where
  "mtx_wait_unlock m c = do {
     kassert (mtx_lock_owner (m_lock m) \<noteq> 0);
     kassert (m_lock m \<noteq> MTX_DESTROYED);
     kassert (mtx_get_lc m = MUTEX_LOCKCLASS);
     kassert (mtx_lock_owner (m_lock m) = c_thread c);
     let m1 = m\<lparr>m_data := m_data m - 1\<rparr>;
     let c1 = c\<lparr>c_lock_count := c_lock_count c - 1\<rparr>;
     if m_lock m1 AND MTX_RECURSED \<noteq> 0 \<and> m_data m1 > 0 then do {
       kassert (mtx_get_lo m1 AND LO_RECURSABLE \<noteq> 0);
       Some (if m_data m1 = 1 then m1\<lparr>m_lock := m_lock m1 AND NOT MTX_RECURSED\<rparr> else m1, c1) }
     else do {
       kassert (m_data m1 = 0);
       Some (m1\<lparr>m_lock := MTX_UNOWNED\<rparr>, c1) } }"

section \<open>The lock word\<close>

text \<open>Thread structures are aligned, so their addresses leave the state bits free.\<close>

definition thread_ptr :: "u64 \<Rightarrow> bool" where
  "thread_ptr t \<longleftrightarrow> t \<noteq> 0 \<and> t AND MTX_STATE_MASK = 0"

definition lock_word :: "u64 \<Rightarrow> bool \<Rightarrow> u64" where
  "lock_word t recursed = t OR MTX_LOCKED OR (if recursed then MTX_RECURSED else 0)"

lemmas mtx_consts = MTX_UNOWNED_def MTX_LOCKED_def MTX_DESTROYED_def MTX_RECURSED_def MTX_STATE_MASK_def

lemma thread_ptr_bits: "thread_ptr t \<Longrightarrow> j < 3 \<Longrightarrow> \<not> bit t j"
proof -
  assume t: "thread_ptr t" and j: "j < 3"
  have "t AND mask 3 = 0" using t by (simp add: thread_ptr_def MTX_STATE_MASK_def mask_eq_exp_minus_1)
  then have "\<not> bit (t AND mask 3) j" by simp
  then show ?thesis using j by (simp add: bit_and_iff bit_mask_iff)
qed

lemma bit_mtx_consts [simp]:
  "bit MTX_STATE_MASK j \<longleftrightarrow> j < 3" "bit MTX_RECURSED j \<longleftrightarrow> j = 2" "bit MTX_DESTROYED j \<longleftrightarrow> j = 1"
  "bit MTX_LOCKED j \<longleftrightarrow> j = 0" "\<not> bit MTX_UNOWNED j"
proof -
  have c: "MTX_STATE_MASK = mask 3" "MTX_RECURSED = 2 ^ 2" "MTX_DESTROYED = 2 ^ 1"
    by (simp_all add: mtx_consts mask_eq_exp_minus_1)
  show "bit MTX_STATE_MASK j \<longleftrightarrow> j < 3" unfolding c bit_mask_iff by auto
  show "bit MTX_RECURSED j \<longleftrightarrow> j = 2" "bit MTX_DESTROYED j \<longleftrightarrow> j = 1" unfolding c bit_exp_iff by auto
  show "bit MTX_LOCKED j \<longleftrightarrow> j = 0" "\<not> bit MTX_UNOWNED j" by (auto simp: mtx_consts bit_1_iff)
qed

lemma lock_word_bit [simp]: "bit (lock_word t r) j \<longleftrightarrow> bit t j \<or> j = 0 \<or> r \<and> j = 2"
  by (auto simp: lock_word_def bit_or_iff)

lemma lock_word_owner: "thread_ptr t \<Longrightarrow> mtx_lock_owner (lock_word t r) = t"
  by (rule bit_word_eqI)
     (auto simp: mtx_lock_owner_def bit_and_iff bit_not_iff dest: thread_ptr_bits)

lemma lock_word_state: "lock_word t r \<noteq> MTX_UNOWNED" "lock_word t r \<noteq> MTX_DESTROYED"
proof -
  have "bit (lock_word t r) 0" "\<not> bit MTX_UNOWNED 0" "\<not> bit MTX_DESTROYED 0" by simp_all
  then show "lock_word t r \<noteq> MTX_UNOWNED" "lock_word t r \<noteq> MTX_DESTROYED" by metis+
qed

lemma lock_word_recursed: "thread_ptr t \<Longrightarrow> lock_word t r AND MTX_RECURSED = 0 \<longleftrightarrow> \<not> r"
proof -
  assume t: "thread_ptr t"
  have "lock_word t r AND MTX_RECURSED = (if r then MTX_RECURSED else 0)"
    using thread_ptr_bits [OF t, of 2] by (intro bit_word_eqI) (auto simp: bit_and_iff)
  then show ?thesis by (simp add: mtx_consts)
qed

lemma lock_word_ops:
  assumes "thread_ptr t"
  shows "lock_word t r OR MTX_RECURSED = lock_word t True"
    "lock_word t True AND NOT MTX_RECURSED = lock_word t False"
    "new_mtx_lock t MTX_LOCKED = lock_word t False"
  using thread_ptr_bits [OF assms, of 2]
  by (intro bit_word_eqI; auto simp: new_mtx_lock_def bit_and_iff bit_or_iff bit_not_iff)+

text \<open>Thread \<open>t\<close> holds the mutex \<open>d\<close> times.\<close>

definition holds :: "mtx \<Rightarrow> u64 \<Rightarrow> nat \<Rightarrow> bool" where
  "holds m t d \<longleftrightarrow> thread_ptr t \<and> 0 < d \<and> d < 2 ^ 32 \<and> m_lock m = lock_word t (1 < d) \<and> m_data m = of_nat d"

lemma holds_owner: "holds m t d \<Longrightarrow> mtx_lock_owner (m_lock m) = t"
  by (simp add: holds_def lock_word_owner)

lemma holds_state: "holds m t d \<Longrightarrow> m_lock m \<noteq> MTX_UNOWNED \<and> m_lock m \<noteq> MTX_DESTROYED"
  by (simp add: holds_def lock_word_state)

lemma owner_unowned: "mtx_lock_owner MTX_UNOWNED = 0"
  by (simp add: mtx_lock_owner_def mtx_consts)

lemma recurse_holds:
  assumes "holds m t d" "Suc d < 2 ^ 32" "mtx_recurse m c = Some (m', c')"
  shows "holds m' t (Suc d)"
  using assms by (auto simp: holds_def mtx_recurse_def lock_word_ops split: if_splits)

lemma lock_free_holds:
  assumes "thread_ptr t"
  shows "holds (m\<lparr>m_lock := new_mtx_lock t MTX_LOCKED, m_data := 1\<rparr>) t 1"
  using assms by (simp add: holds_def lock_word_ops)

lemma unlock_holds:
  assumes "holds m t d" "mtx_wait_unlock m c = Some (m', c')"
  shows "c_thread c = t \<and> (if d = 1 then m_lock m' = MTX_UNOWNED else holds m' t (d - 1))"
proof -
  have t: "thread_ptr t" and d: "0 < d" "d < 2 ^ 32" and l: "m_lock m = lock_word t (1 < d)" and n: "m_data m = of_nat d"
    using assms(1) by (auto simp: holds_def)
  obtain e where e: "d = Suc e" using d(1) by (cases d) auto
  have data: "m_data m - 1 = of_nat e" using n by (simp add: e)
  have pos: "(0 :: u32) < of_nat e \<longleftrightarrow> 1 < d" "(of_nat e :: u32) = 1 \<longleftrightarrow> d = 2" "(of_nat e :: u32) = 0 \<longleftrightarrow> d = 1"
    using d(2) by (auto simp: e word_less_nat_alt word_unat_eq_iff unat_of_nat)
  have gt: "1 < d - 1 \<longleftrightarrow> 2 < d" by arith
  note simps = gt [simplified] mtx_wait_unlock_def l data pos lock_word_owner [OF t] lock_word_recursed [OF t]
  have "d = 1 \<or> d = 2 \<or> 2 < d" using d(1) by linarith
  moreover have "d - 1 = e" by (simp add: e)
  moreover have "e < 2 ^ 32" using d(2) by (simp add: e)
  ultimately show ?thesis
    using assms(2) t unfolding holds_def
    by (elim disjE) (auto simp: simps lock_word_ops [OF t] Let_def split: if_splits)
qed

section \<open>Threads sharing a mutex\<close>

text \<open>
  The steps of threads that share one mutex, with the number of times each holds it as ghost
  state. \<open>mtx_reach n\<close> are the states \<open>n\<close> steps after initialisation.
\<close>

type_synonym mtx_state = "mtx \<times> (u64 \<Rightarrow> nat)"

inductive mtx_step :: "mtx_state \<Rightarrow> mtx_state \<Rightarrow> bool" where
  step_lock: "thread_ptr (c_thread c) \<Longrightarrow> mtx_wait_lock chain m c = Some (True, m', c') \<Longrightarrow>
    mtx_step (m, h) (m', h(c_thread c := h (c_thread c) + 1))"
| step_trylock: "thread_ptr (c_thread c) \<Longrightarrow> mtx_wait_trylock m c = Some (r, m', c') \<Longrightarrow>
    mtx_step (m, h) (m', if r then h(c_thread c := h (c_thread c) + 1) else h)"
| step_unlock: "thread_ptr (c_thread c) \<Longrightarrow> mtx_wait_unlock m c = Some (m', c') \<Longrightarrow>
    mtx_step (m, h) (m', h(c_thread c := h (c_thread c) - 1))"

inductive mtx_reach :: "nat \<Rightarrow> mtx_state \<Rightarrow> bool" where
  reach_init: "mtx_reach 0 (mtx_init addr opts, \<lambda>_. 0)"
| reach_step: "mtx_reach n s \<Longrightarrow> mtx_step s s' \<Longrightarrow> mtx_reach (Suc n) s'"

inductive_cases mtx_stepE: "mtx_step s s'"

definition mtx_inv :: "nat \<Rightarrow> mtx_state \<Rightarrow> bool" where
  "mtx_inv n s \<longleftrightarrow> (case s of (m, h) \<Rightarrow>
     m_lock m = MTX_UNOWNED \<and> h = (\<lambda>_. 0) \<or>
     (\<exists>t d. holds m t d \<and> d \<le> n \<and> h = (\<lambda>_. 0)(t := d)))"

lemma inv_take:
  assumes "mtx_inv n (m, h)" "Suc n < 2 ^ 32" "thread_ptr (c_thread c)"
    and "m_lock m = MTX_UNOWNED \<Longrightarrow> m' = m\<lparr>m_lock := new_mtx_lock (c_thread c) MTX_LOCKED, m_data := 1\<rparr>"
    and "m_lock m \<noteq> MTX_UNOWNED \<Longrightarrow> owned_by_current m c \<and> (\<exists>c'. mtx_recurse m c = Some (m', c'))"
  shows "mtx_inv (Suc n) (m', h(c_thread c := h (c_thread c) + 1))"
proof (cases "m_lock m = MTX_UNOWNED")
  case True
  then have "h = (\<lambda>_. 0)" using assms(1) holds_state by (auto simp: mtx_inv_def)
  moreover have "holds m' (c_thread c) 1" using lock_free_holds [OF assms(3), of m] assms(4) [OF True] by simp
  ultimately show ?thesis
    unfolding mtx_inv_def prod.case by (intro disjI2 exI [of _ "c_thread c"] exI [of _ 1]) simp
next
  case False
  then obtain t d where td: "holds m t d" "d \<le> n" "h = (\<lambda>_. 0)(t := d)" using assms(1) by (auto simp: mtx_inv_def)
  from assms(5) [OF False] obtain c' where o: "owned_by_current m c" "mtx_recurse m c = Some (m', c')" by blast
  then have t: "c_thread c = t" using holds_owner [OF td(1)] by (simp add: owned_by_current_def)
  have "holds m' t (Suc d)" using recurse_holds [OF td(1) _ o(2)] td(2) assms(2) by simp
  then show ?thesis using td(2,3) by (auto simp: mtx_inv_def t)
qed

lemma inv_mono: "mtx_inv n s \<Longrightarrow> mtx_inv (Suc n) s"
  by (force simp: mtx_inv_def)

lemma inv_step:
  assumes "mtx_inv n s" "mtx_step s s'" "Suc n < 2 ^ 32"
  shows "mtx_inv (Suc n) s'"
  using assms(2)
proof cases
  case (step_lock c chain m m' c' h)
  show ?thesis unfolding step_lock
    using assms(1,3) step_lock
    by (intro inv_take [of n m])
       (auto simp: mtx_wait_lock_def owned_by_current_def owner_unowned split: if_splits bind_splits)
next
  case (step_trylock c m r m' c' h)
  show ?thesis
  proof (cases r)
    case True
    then have "s' = (m', h(c_thread c := h (c_thread c) + 1))" using step_trylock by simp
    then show ?thesis using True assms(1,3) step_trylock
      by (simp only:) (intro inv_take [of n m],
          auto simp: mtx_wait_trylock_def owned_by_current_def owner_unowned split: if_splits bind_splits)
  next
    case False
    then have "m' = m" using step_trylock(4) by (auto simp: mtx_wait_trylock_def split: if_splits bind_splits)
    then show ?thesis using False assms(1) step_trylock inv_mono by simp
  qed
next
  case (step_unlock c m m' c' h)
  then have "m_lock m \<noteq> MTX_UNOWNED" by (auto simp: mtx_wait_unlock_def owner_unowned split: if_splits)
  then obtain t d where td: "holds m t d" "d \<le> n" "h = (\<lambda>_. 0)(t := d)"
    using assms(1) step_unlock by (auto simp: mtx_inv_def)
  note u = unlock_holds [OF td(1) step_unlock(4)]
  show ?thesis
  proof (cases "d = 1")
    case True
    then show ?thesis using u td(3) step_unlock(2) by (auto simp: mtx_inv_def)
  next
    case False
    then show ?thesis using u td(2,3) step_unlock(2) by (fastforce simp: mtx_inv_def)
  qed
qed

lemma reach_inv: "mtx_reach n s \<Longrightarrow> n < 2 ^ 32 \<Longrightarrow> mtx_inv n s"
proof (induction rule: mtx_reach.induct)
  case (reach_init addr opts)
  then show ?case by (simp add: mtx_inv_def mtx_init_def)
next
  case (reach_step n s s')
  then show ?case using inv_step by simp
qed

lemmas mtx_flag_consts = MTX_SPIN_def MTX_DEBUG_def MTX_NOCLAIMS_def MTX_RECURSIVE_def
  SPINLOCK_LOCKCLASS_def MUTEX_LOCKCLASS_def LO_INITIALIZED_def LO_DEBUG_def LO_NOCLAIMS_def LO_RECURSABLE_def

lemma mtx_init_class:
  "mtx_get_lc (mtx_init a 0) = MUTEX_LOCKCLASS" "mtx_get_lc (mtx_init a MTX_SPIN) = SPINLOCK_LOCKCLASS"
  by (simp_all add: mtx_init_def mtx_get_lc_def mtx_opts_to_lockobject_flags_def mtx_flag_consts)

section \<open>Recursive mutexes held by the running thread\<close>

text \<open>A mutex nobody holds that may be taken recursively, and one held \<open>d\<close> times.\<close>

definition mtx_idle :: "mtx \<Rightarrow> bool" where
  "mtx_idle m \<longleftrightarrow> m_lock m = MTX_UNOWNED \<and> m_data m = 0 \<and> mtx_get_lc m = MUTEX_LOCKCLASS \<and>
     mtx_get_lo m AND LO_RECURSABLE \<noteq> 0"

definition held :: "mtx \<Rightarrow> u64 \<Rightarrow> nat \<Rightarrow> mtx" where
  "held m t d = (if d = 0 then m else m\<lparr>m_lock := lock_word t (1 < d), m_data := of_nat d\<rparr>)"

definition ctx_locks :: "cpu_ctx \<Rightarrow> int \<Rightarrow> cpu_ctx" where
  "ctx_locks c k = c\<lparr>c_lock_count := c_lock_count c + k\<rparr>"

lemma held_0 [simp]: "held m t 0 = m"
  by (simp add: held_def)

lemma held_class: "mtx_get_lc (held m t d) = mtx_get_lc m" "mtx_get_lo (held m t d) = mtx_get_lo m"
  by (simp_all add: held_def mtx_get_lc_def mtx_get_lo_def)

lemma idle_owner: "mtx_idle m \<Longrightarrow> mtx_lock_owner (m_lock m) = 0"
  by (simp add: mtx_idle_def owner_unowned)

lemma idle_not_destroyed: "mtx_idle m \<Longrightarrow> m_lock m \<noteq> MTX_DESTROYED"
  by (simp add: mtx_idle_def mtx_consts)

lemma unat_of_nat_u32: "d < 2 ^ 32 \<Longrightarrow> unat (of_nat d :: u32) = d"
  by (simp add: unat_of_nat)

lemma of_nat_u32_eq: "d < 2 ^ 32 \<Longrightarrow> e < 2 ^ 32 \<Longrightarrow> (of_nat d :: u32) = of_nat e \<longleftrightarrow> d = e"
  using unat_of_nat_u32 by metis

lemma lock_held:
  assumes "mtx_idle m" "thread_ptr (c_thread c)" "Suc d < 2 ^ 32"
  shows "mtx_wait_lock chain (held m (c_thread c) d) c =
    Some (True, held m (c_thread c) (Suc d), c\<lparr>c_lock_count := c_lock_count c + 1\<rparr>)"
proof (cases "d = 0")
  case True
  then show ?thesis
    using assms idle_owner [OF assms(1)] idle_not_destroyed [OF assms(1)]
    by (auto simp: mtx_wait_lock_def mtx_wait_lock_check_def owned_by_current_def mtx_idle_def held_def
        thread_ptr_def lock_word_ops)
next
  case False
  let ?t = "c_thread c"
  have t: "?t \<noteq> 0" using assms(2) by (simp add: thread_ptr_def)
  have "held m ?t d = m\<lparr>m_lock := lock_word ?t (1 < d), m_data := of_nat d\<rparr>" using False by (simp add: held_def)
  then show ?thesis
    using False assms t
    by (simp add: mtx_wait_lock_def mtx_wait_lock_check_def owned_by_current_def held_class lock_word_owner
        lock_word_state mtx_recurse_def mtx_idle_def mtx_get_lc_def mtx_get_lo_def)
       (simp add: held_def lock_word_ops add.commute)
qed

lemma unlock_held:
  assumes "mtx_idle m" "thread_ptr (c_thread c)" "Suc d < 2 ^ 32"
  shows "mtx_wait_unlock (held m (c_thread c) (Suc d)) c =
    Some (held m (c_thread c) d, c\<lparr>c_lock_count := c_lock_count c - 1\<rparr>)"
proof -
  let ?t = "c_thread c"
  have t: "?t \<noteq> 0" using assms(2) by (simp add: thread_ptr_def)
  have h: "held m ?t (Suc d) = m\<lparr>m_lock := lock_word ?t (0 < d), m_data := 1 + of_nat d\<rparr>" by (simp add: held_def)
  have "(of_nat d :: u32) = 1 \<longleftrightarrow> d = 1" using of_nat_u32_eq [of d 1] assms(3) by simp
  moreover have "(of_nat d :: u32) = 0 \<longleftrightarrow> d = 0" using of_nat_u32_eq [of d 0] assms(3) by simp
  ultimately show ?thesis
    using assms t unfolding h
    by (cases "d = 0")
       (auto simp: mtx_wait_unlock_def lock_word_owner lock_word_state lock_word_recursed mtx_idle_def held_def
         mtx_get_lc_def mtx_get_lo_def lock_word_ops word_gt_0)
qed

lemma ctx_locks_simps [simp]:
  "c_thread (ctx_locks c k) = c_thread c" "ctx_locks (ctx_locks c j) k = ctx_locks c (j + k)" "ctx_locks c 0 = c"
  by (simp_all add: ctx_locks_def)

section \<open>Spin locks taken and released\<close>

lemma spin_lock_unlock:
  assumes "mtx_get_lc m = SPINLOCK_LOCKCLASS" "m_lock m = MTX_UNOWNED"
    and "thread_ptr (c_thread c)" "0 \<le> c_spin_count c" "0 \<le> c_crit c"
    and "c_claims c = Some (n # ns)" "cl_nclaims n < 8" "length (cl_claims n) = 8"
    and "cl_nclaims n < 7 \<or> ns = []"
  shows "\<exists>m1 c1 m2 c2 n2. mtx_spin_lock m c = Some (True, m1, c1) \<and> \<not> c_intr c1 \<and>
    mtx_lock_owner (m_lock m1) = c_thread c \<and>
    mtx_spin_unlock m1 c1 = Some (m2, c2) \<and> m2 = m\<lparr>m_data := 0, m_lock := MTX_UNOWNED\<rparr> \<and> c_thread c2 = c_thread c \<and>
    c_intr c2 = (c_intr c \<and> c_crit c = 0) \<and>
    c_spin_count c2 = c_spin_count c \<and> c_crit c2 = c_crit c \<and>
    c_claims c2 = Some (n2 # ns) \<and> cl_nclaims n2 = cl_nclaims n \<and> length (cl_claims n2) = 8 \<and>
    take (cl_nclaims n) (cl_claims n2) = take (cl_nclaims n) (cl_claims n)"
proof -
  let ?t = "c_thread c"
  have t0: "?t \<noteq> 0" using assms(3) by (simp add: thread_ptr_def)
  define n1 where "n1 = node_put n (m_addr m)"
  define n2 where "n2 = \<lparr>cl_claims = (cl_claims n1)[cl_nclaims n := 0], cl_nclaims = cl_nclaims n\<rparr>"
  have scan: "claim_scan n1 (m_addr m) (cl_nclaims n1) = Some n2"
    using assms(7,8) by (simp add: n1_def n2_def node_put_def)
  define c1 where "c1 = SPIN_CLAIMS_ADD (m_addr m) (spinlock_enter c)"
  define m1 where "m1 = m\<lparr>m_lock := lock_word ?t False, m_data := 1\<rparr>"
  have c1: "c_thread c1 = ?t" "\<not> c_intr c1" "c_crit c1 = c_crit c + 1" "c_spin_count c1 = c_spin_count c + 1"
    "c_claims c1 = Some (n1 # ns)" "c_crit c = 0 \<Longrightarrow> c_saved c1 = c_intr c"
    using t0 assms(6,7)
    by (auto simp: c1_def SPIN_CLAIMS_ADD_def spinlock_enter_def critical_enter_def n1_def Let_def)
  have "mtx_lock_owner (m_lock m) \<noteq> c_thread c1" using t0 assms(2) c1(1) by (simp add: owner_unowned)
  moreover have "m_lock m \<noteq> MTX_DESTROYED" using assms(2) by (simp add: mtx_consts)
  ultimately have lock: "mtx_spin_lock m c = Some (True, m1, c1)"
    using assms(1,2) c1(1)
    by (simp add: mtx_spin_lock_def owned_by_current_def m1_def lock_word_ops [OF assms(3)] flip: c1_def)
  have m1: "mtx_lock_owner (m_lock m1) = ?t" "m_lock m1 AND MTX_RECURSED = 0" "m_lock m1 \<noteq> MTX_DESTROYED"
    "mtx_get_lc m1 = SPINLOCK_LOCKCLASS" "m_data m1 - 1 = 0" "m_addr m1 = m_addr m"
    using assms(1) lock_word_state
    by (simp_all add: m1_def lock_word_owner [OF assms(3)] lock_word_recursed [OF assms(3)] mtx_get_lc_def)
  have "lock_claim_list_remove (n1 # ns) (m_addr m) = Some (n2 # ns)"
    using scan assms(9) by (auto simp: n1_def node_put_def)
  then have rem: "SPIN_CLAIMS_REMOVE (m_addr m) c1 = Some (c1\<lparr>c_claims := Some (n2 # ns)\<rparr>)"
    by (simp add: SPIN_CLAIMS_REMOVE_def c1(5))
  define c2 where "c2 = critical_exit (c1\<lparr>c_claims := Some (n2 # ns), c_spin_count := c_spin_count c\<rparr>)"
  have "spinlock_exit (c1\<lparr>c_claims := Some (n2 # ns)\<rparr>) = Some c2"
    using t0 c1(1,4) assms(4) by (simp add: spinlock_exit_def c2_def)
  then have unlock: "mtx_spin_unlock m1 c1 = Some (m1\<lparr>m_data := 0, m_lock := MTX_UNOWNED\<rparr>, c2)"
    using m1 rem c1(1) by (simp add: mtx_spin_unlock_def Let_def)
  have "c_intr c2 = (c_intr c \<and> c_crit c = 0)" "c_spin_count c2 = c_spin_count c" "c_crit c2 = c_crit c"
    "c_claims c2 = Some (n2 # ns)" "c_thread c2 = c_thread c"
    using t0 c1 assms(5) by (auto simp: c2_def critical_exit_def Let_def)
  moreover have "m1\<lparr>m_data := 0, m_lock := MTX_UNOWNED\<rparr> = m\<lparr>m_data := 0, m_lock := MTX_UNOWNED\<rparr>" by (simp add: m1_def)
  moreover have "length (cl_claims n2) = 8" using assms(8) by (simp add: n2_def n1_def node_put_def)
  moreover have "cl_nclaims n2 = cl_nclaims n" "take (cl_nclaims n) (cl_claims n2) = take (cl_nclaims n) (cl_claims n)"
    by (simp_all add: n2_def n1_def node_put_def)
  ultimately show ?thesis using lock c1(2) m1(1) unlock
    by (intro exI [of _ m1] exI [of _ c1] exI [of _ "m1\<lparr>m_data := 0, m_lock := MTX_UNOWNED\<rparr>"] exI [of _ c2] exI [of _ n2]) simp
qed

lemma early_locking:
  assumes "m_lock kl = MTX_UNOWNED" "m_data kl = 0" "mtx_get_lc kl = SPINLOCK_LOCKCLASS" "c_claims c = None" "c_thread c = 0"
  shows "\<exists>kl1 c1. mtx_spin_lock kl c = Some (True, kl1, c1) \<and> c_thread c1 = 0 \<and>
    mtx_spin_unlock kl1 c1 = Some (kl, c\<lparr>c_saved := c_intr c\<rparr>)"
proof -
  have o: "mtx_lock_owner (new_mtx_lock 0 MTX_LOCKED) = 0" "new_mtx_lock 0 MTX_LOCKED AND MTX_RECURSED = 0"
    "new_mtx_lock 0 MTX_LOCKED \<noteq> MTX_DESTROYED"
    by (simp_all add: mtx_lock_owner_def new_mtx_lock_def mtx_consts)
  have "MTX_UNOWNED \<noteq> MTX_DESTROYED" by (simp add: mtx_consts)
  then show ?thesis using assms o
    by (simp add: mtx_spin_lock_def mtx_spin_unlock_def spinlock_enter_def spinlock_exit_def critical_enter_def
        critical_exit_def SPIN_CLAIMS_ADD_def SPIN_CLAIMS_REMOVE_def owned_by_current_def mtx_get_lc_def Let_def)
qed

text \<open>
  A free spin lock, and a processor on which it can be taken and given back: it runs a thread with
  room in its first node of claims, or no thread and no claims.
\<close>

definition spin_idle :: "mtx \<Rightarrow> bool" where
  "spin_idle m \<longleftrightarrow> m_lock m = MTX_UNOWNED \<and> m_data m = 0 \<and> mtx_get_lc m = SPINLOCK_LOCKCLASS"

definition spin_ctx :: "cpu_ctx \<Rightarrow> bool" where
  "spin_ctx c \<longleftrightarrow> (if c_thread c = 0 then c_claims c = None
     else thread_ptr (c_thread c) \<and> 0 \<le> c_spin_count c \<and> 0 \<le> c_crit c \<and>
       (\<exists>n ns. c_claims c = Some (n # ns) \<and> cl_nclaims n < 8 \<and> length (cl_claims n) = 8 \<and> (cl_nclaims n < 7 \<or> ns = [])))"

lemma spin_pair:
  assumes "spin_idle m" "spin_ctx c"
  shows "\<exists>m1 c1 c2. mtx_spin_lock m c = Some (True, m1, c1) \<and> mtx_spin_unlock m1 c1 = Some (m, c2) \<and> spin_ctx c2"
proof (cases "c_thread c = 0")
  case True
  then have "c_claims c = None" using assms(2) by (simp add: spin_ctx_def)
  then obtain m1 c1 where "mtx_spin_lock m c = Some (True, m1, c1)" "mtx_spin_unlock m1 c1 = Some (m, c\<lparr>c_saved := c_intr c\<rparr>)"
    using early_locking [of m c] assms(1) True by (auto simp: spin_idle_def)
  moreover have "spin_ctx (c\<lparr>c_saved := c_intr c\<rparr>)" using assms(2) by (simp add: spin_ctx_def)
  ultimately show ?thesis by blast
next
  case False
  then obtain n ns where c: "thread_ptr (c_thread c)" "0 \<le> c_spin_count c" "0 \<le> c_crit c" "c_claims c = Some (n # ns)"
    "cl_nclaims n < 8" "length (cl_claims n) = 8" "cl_nclaims n < 7 \<or> ns = []"
    using assms(2) by (auto simp: spin_ctx_def)
  have m: "mtx_get_lc m = SPINLOCK_LOCKCLASS" "m_lock m = MTX_UNOWNED" "m\<lparr>m_data := 0, m_lock := MTX_UNOWNED\<rparr> = m"
    using assms(1) by (auto simp: spin_idle_def)
  from spin_lock_unlock [OF m(1,2) c] obtain m1 c1 c2 n2 where "mtx_spin_lock m c = Some (True, m1, c1)"
    "mtx_spin_unlock m1 c1 = Some (m, c2)" "c_thread c2 = c_thread c" "c_spin_count c2 = c_spin_count c" "c_crit c2 = c_crit c"
    "c_claims c2 = Some (n2 # ns)" "cl_nclaims n2 = cl_nclaims n" "length (cl_claims n2) = 8"
    unfolding m(3) by blast
  moreover from this have "spin_ctx c2" using False c by (auto simp: spin_ctx_def)
  ultimately show ?thesis by blast
qed

section \<open>Properties\<close>

text \<open>
  C13: A mutex excludes: after any sequence of fewer than \<open>2^32\<close> lock, trylock and unlock steps
  of any threads on a freshly initialised mutex, at most one thread holds it, the lock word is
  unowned exactly when nobody holds it, and otherwise it names the holder and the recursion
  counter is the number of times the holder has taken it.
\<close>

theorem mutex_mutual_exclusion:
  assumes "mtx_reach n (m, h)" "n < 2 ^ 32"
  shows "(\<forall>t u. 0 < h t \<and> 0 < h u \<longrightarrow> t = u) \<and>
    (m_lock m = MTX_UNOWNED \<longleftrightarrow> (\<forall>t. h t = 0)) \<and>
    (\<forall>t. 0 < h t \<longrightarrow> mtx_lock_owner (m_lock m) = t \<and> m_data m = of_nat (h t))"
  using reach_inv [OF assms] holds_state holds_owner
  by (fastforce simp: mtx_inv_def holds_def split: if_splits)

theorem mutex_mutual_exclusion_witness:
  "\<exists>m h. mtx_reach 1 (m, h) \<and> h 0x1000 = 1 \<and> mtx_lock_owner (m_lock m) = 0x1000"
proof -
  define c :: cpu_ctx where "c = \<lparr>c_thread = 0x1000, c_intr = True, c_saved = False, c_claims = None,
    c_lock_count = 0, c_spin_count = 0, c_crit = 0\<rparr>"
  define m where "m = mtx_init 0x40 0"
  have t: "thread_ptr (c_thread c)" by (simp add: c_def thread_ptr_def MTX_STATE_MASK_def)
  have u: "m_lock m = MTX_UNOWNED" "MTX_UNOWNED \<noteq> MTX_DESTROYED" "mtx_get_lc m = MUTEX_LOCKCLASS"
    using mtx_init_class by (simp_all add: m_def mtx_init_def mtx_consts)
  have "0 \<noteq> c_thread c" by (simp add: c_def)
  then have "\<exists>m' c'. mtx_wait_trylock m c = Some (True, m', c')"
    using u by (simp add: mtx_wait_trylock_def owned_by_current_def owner_unowned)
  then obtain m' c' where l: "mtx_wait_trylock m c = Some (True, m', c')" by blast
  let ?h = "(\<lambda>_. 0)(c_thread c := 1)"
  have "mtx_step (m, \<lambda>_. 0) (m', ?h)" using mtx_step.step_trylock [OF t l, of "\<lambda>_. 0"] by simp
  from mtx_reach.reach_step [OF mtx_reach.reach_init this [unfolded m_def]]
  have r: "mtx_reach 1 (m', ?h)" by simp
  have "(1 :: nat) < 2 ^ 32" by simp
  from mutex_mutual_exclusion [OF r this, THEN conjunct2, THEN conjunct2, rule_format, of "c_thread c"]
  have "mtx_lock_owner (m_lock m') = c_thread c" by simp
  with r show ?thesis by (intro exI [of _ m'] exI [of _ ?h]) (simp add: c_def)
qed



text \<open>The claims taken in the order of a list on a fresh claim list, and a sequence of releases.\<close>

definition claims_of :: "u64 list \<Rightarrow> claim_node list" where
  "claims_of xs = foldl lock_claim_list_add [lock_claim_list_alloc] xs"

fun release_all :: "u64 list \<Rightarrow> claim_node list \<Rightarrow> claim_node list option" where
  "release_all [] l = Some l"
| "release_all (x # xs) l = do { l' \<leftarrow> lock_claim_list_remove l x; release_all xs l' }"

lemma claims_one_node:
  "length xs \<le> 8 \<Longrightarrow> claims_of xs = [\<lparr>cl_claims = xs @ replicate (8 - length xs) 0, cl_nclaims = length xs\<rparr>]"
proof (induction xs rule: rev_induct)
  case Nil
  then show ?case by (simp add: claims_of_def lock_claim_list_alloc_def)
next
  case (snoc x xs)
  then have "replicate (8 - length xs) (0 :: u64) = 0 # replicate (8 - length (xs @ [x])) 0"
    by (metis Suc_diff_le diff_Suc_Suc length_append_singleton replicate_Suc)
  with snoc show ?case by (simp add: claims_of_def node_put_def)
qed

lemma claims_two_nodes:
  "9 \<le> length xs \<Longrightarrow> claims_of xs = [\<lparr>cl_claims = take 8 xs, cl_nclaims = 8\<rparr>, \<lparr>cl_claims = last xs # replicate 7 0, cl_nclaims = 1\<rparr>]"
proof (induction xs rule: rev_induct)
  case (snoc x xs)
  show ?case
  proof (cases "length xs = 8")
    case True
    then show ?thesis using claims_one_node [of xs]
      by (simp add: claims_of_def node_put_def lock_claim_list_alloc_def eval_nat_numeral)
  next
    case False
    then show ?thesis using snoc
      by (simp add: claims_of_def node_put_def lock_claim_list_alloc_def eval_nat_numeral)
  qed
qed simp

lemma claim_scan_none: "(\<And>i. i < k \<Longrightarrow> cl_claims n ! i \<noteq> x) \<Longrightarrow> claim_scan n x k = None"
  by (induction k) auto

lemma claim_scan_hit:
  "i < k \<Longrightarrow> cl_claims n ! i = x \<Longrightarrow> (\<And>j. i < j \<Longrightarrow> j < k \<Longrightarrow> cl_claims n ! j \<noteq> x) \<Longrightarrow>
    claim_scan n x k = Some \<lparr>cl_claims = (cl_claims n)[i := 0], cl_nclaims = cl_nclaims n - 1\<rparr>"
  by (induction k) (auto simp: less_Suc_eq)

lemma release_reverse:
  "release_all (rev xs) [\<lparr>cl_claims = xs @ replicate m 0, cl_nclaims = length xs\<rparr>] =
    Some [\<lparr>cl_claims = replicate (length xs + m) 0, cl_nclaims = 0\<rparr>]"
proof (induction xs arbitrary: m rule: rev_induct)
  case (snoc x xs)
  then show ?case using snoc.IH [of "Suc m"] by (simp add: nth_append)
qed simp

text \<open>
  C24: The claim list works only for claims that are released in the reverse order of taking them
  and that fit its first node. Up to eight locks taken on a fresh list and released in reverse
  order leave the fresh list. But for up to eight different locks, after releasing any one except
  the last the release of the last one panics, because the count shrinks without moving the later
  claims. And with more than eight locks, once the last one is released every further release
  panics, whatever the lock: the full first node sends the search to the second, which is empty.
\<close>

theorem claim_list_order:
  assumes "0 \<notin> set xs"
  shows "(length xs \<le> 8 \<longrightarrow> release_all (rev xs) (claims_of xs) = Some [lock_claim_list_alloc]) \<and>
    (length xs \<le> 8 \<and> distinct xs \<longrightarrow> (\<forall>i. Suc i < length xs \<longrightarrow>
      (\<exists>l. lock_claim_list_remove (claims_of xs) (xs ! i) = Some l \<and> lock_claim_list_remove l (last xs) = None))) \<and>
    (8 < length xs \<longrightarrow>
      (\<exists>l. lock_claim_list_remove (claims_of xs) (last xs) = Some l \<and> (\<forall>y. lock_claim_list_remove l y = None)))"
proof (intro conjI impI allI)
  assume "length xs \<le> 8"
  then show "release_all (rev xs) (claims_of xs) = Some [lock_claim_list_alloc]"
    using claims_one_node [of xs] release_reverse [of xs "8 - length xs"] by (simp add: lock_claim_list_alloc_def)
next
  fix i assume a: "length xs \<le> 8 \<and> distinct xs" "Suc i < length xs"
  let ?n = "\<lparr>cl_claims = xs @ replicate (8 - length xs) 0, cl_nclaims = length xs\<rparr>"
  let ?m = "\<lparr>cl_claims = (xs @ replicate (8 - length xs) 0)[i := 0], cl_nclaims = length xs - 1\<rparr>"
  have "claim_scan ?n (xs ! i) (length xs) = Some ?m"
    using a claim_scan_hit [of i "length xs" ?n "xs ! i"] by (simp add: nth_append nth_eq_iff_index_eq)
  moreover have "claim_scan ?m (last xs) (length xs - 1) = None"
  proof (rule claim_scan_none)
    fix j assume j: "j < length xs - 1"
    have l: "last xs = xs ! (length xs - 1)" using a(2) by (intro last_conv_nth) auto
    have "last xs \<noteq> 0" using assms a(2) last_in_set [of xs] by (metis less_zeroE list.size(3))
    then show "cl_claims ?m ! j \<noteq> last xs" using a j by (auto simp: nth_list_update nth_append l nth_eq_iff_index_eq)
  qed
  ultimately show "\<exists>l. lock_claim_list_remove (claims_of xs) (xs ! i) = Some l \<and> lock_claim_list_remove l (last xs) = None"
    using claims_one_node [of xs] a(1) by simp
next
  assume "8 < length xs"
  then show "\<exists>l. lock_claim_list_remove (claims_of xs) (last xs) = Some l \<and> (\<forall>y. lock_claim_list_remove l y = None)"
    using claims_two_nodes [of xs] by simp
qed

theorem claim_list_order_witness:
  "\<exists>l. lock_claim_list_remove (claims_of [0x40, 0x80, 0xC0]) 0x80 = Some l \<and> lock_claim_list_remove l 0xC0 = None"
  using claim_list_order [of "[0x40, 0x80, 0xC0]"] by (simp, metis lessI nth_Cons_0 nth_Cons_Suc)

text \<open>
  C29: Blocking on a held mutex always panics: for a mutex another thread holds, \<open>mtx_trylock\<close>
  fails cleanly, but \<open>mtx_lock\<close> goes on to lock the chain of lock queues with \<open>mtx_lock\<close>, and
  every chain lock is a spin lock, which the assertion in \<open>_mtx_wait_lock\<close> rejects.
\<close>

theorem contended_wait_lock_panics:
  assumes "holds m t d" "mtx_get_lc m = MUTEX_LOCKCLASS" "c_thread c \<noteq> t"
  shows "mtx_wait_trylock m c = Some (False, m, c) \<and> mtx_wait_lock (lockq_chain_mtx addr) m c = None"
proof -
  have "mtx_get_lc (lockq_chain_mtx addr) \<noteq> MUTEX_LOCKCLASS"
    unfolding lockq_chain_mtx_def mtx_init_class by (simp add: mtx_flag_consts)
  then show ?thesis
    using holds_state [OF assms(1)] holds_owner [OF assms(1)] assms(2,3)
    by (auto simp: mtx_wait_trylock_def mtx_wait_lock_def mtx_wait_lock_check_def owned_by_current_def kassert_def)
qed

theorem contended_wait_lock_panics_witness:
  "mtx_wait_lock (lockq_chain_mtx 0x200)
     \<lparr>m_addr = 0x40, m_flags = mtx_opts_to_lockobject_flags 0, m_data = 1, m_lock = 0x1001\<rparr>
     \<lparr>c_thread = 0x2000, c_intr = True, c_saved = False, c_claims = None,
      c_lock_count = 0, c_spin_count = 0, c_crit = 0\<rparr> = None"
proof -
  let ?m = "\<lparr>m_addr = 0x40, m_flags = mtx_opts_to_lockobject_flags 0, m_data = 1, m_lock = 0x1001\<rparr> :: mtx"
    and ?c = "\<lparr>c_thread = 0x2000, c_intr = True, c_saved = False, c_claims = None,
      c_lock_count = 0, c_spin_count = 0, c_crit = 0\<rparr> :: cpu_ctx"
  have h: "holds ?m 0x1000 1"
    by (simp add: holds_def thread_ptr_def lock_word_def mtx_consts)
  have "mtx_get_lc ?m = MUTEX_LOCKCLASS"
    using mtx_init_class(1) by (simp add: mtx_init_def mtx_get_lc_def)
  with contended_wait_lock_panics [OF h, of ?c] show ?thesis by simp
qed

end
