(* ===== verification/Channel.thy ===== *)
theory Channel
  imports Mutex Interfaces
begin

text \<open>
  Channels, \<^verbatim>\<open>kernel/chan.c\<close>: ring buffers of 64-bit values guarded by three recursive
  mutexes. The channel is the C struct with the mutexes of \<^verbatim>\<open>kernel/mutex.c\<close> inside, and
  every operation takes and releases them through the mutex operations. A function pointer is a
  word, 0 for NULL; \<open>ch_calls\<close> records the calls of the free callback in order. An operation runs
  as one thread's sequence of steps on its cpu; a contended mutex does not return.
\<close>

section \<open>The channel and its operations\<close>

record chan =
  ch_id :: u32
  ch_flags :: u32
  ch_lock :: mtx
  ch_read_idx :: u16
  ch_write_idx :: u16
  ch_max_idx :: u16
  ch_buffer :: "u64 list"
  ch_free_cb :: u64
  ch_reader :: mtx
  ch_writer :: mtx
  ch_calls :: "(u64 \<times> u64) list"

definition CHAN_CLOSED :: u32 where "CHAN_CLOSED = 1"

definition chan_closed :: "chan \<Rightarrow> bool" where
  "chan_closed ch \<longleftrightarrow> ch_flags ch AND CHAN_CLOSED \<noteq> 0"

text \<open>\<open>mtx_lock\<close> and \<open>mtx_unlock\<close> on one of the channel's mutexes.\<close>

definition lock_field ::
  "(chan \<Rightarrow> mtx) \<Rightarrow> ((mtx \<Rightarrow> mtx) \<Rightarrow> chan \<Rightarrow> chan) \<Rightarrow> chan \<times> cpu_ctx \<Rightarrow> (chan \<times> cpu_ctx) option" where
  "lock_field get upd = (\<lambda>(ch, c). do {
     (ok, m, c') \<leftarrow> mtx_wait_lock (lockq_chain_mtx 0) (get ch) c;
     kassert ok;
     Some (upd (\<lambda>_. m) ch, c') })"

definition unlock_field ::
  "(chan \<Rightarrow> mtx) \<Rightarrow> ((mtx \<Rightarrow> mtx) \<Rightarrow> chan \<Rightarrow> chan) \<Rightarrow> chan \<times> cpu_ctx \<Rightarrow> (chan \<times> cpu_ctx) option" where
  "unlock_field get upd = (\<lambda>(ch, c). do {
     (m, c') \<leftarrow> mtx_wait_unlock (get ch) c;
     Some (upd (\<lambda>_. m) ch, c') })"

abbreviation "lock_lock \<equiv> lock_field ch_lock ch_lock_update"
abbreviation "unlock_lock \<equiv> unlock_field ch_lock ch_lock_update"
abbreviation "lock_reader \<equiv> lock_field ch_reader ch_reader_update"
abbreviation "unlock_reader \<equiv> unlock_field ch_reader ch_reader_update"
abbreviation "lock_writer \<equiv> lock_field ch_writer ch_writer_update"
abbreviation "unlock_writer \<equiv> unlock_field ch_writer ch_writer_update"

definition get_next_index :: "chan \<Rightarrow> u16 \<Rightarrow> u16" where
  "get_next_index ch curr_index = (if curr_index = ch_max_idx ch then 0 else curr_index + 1)"

definition cleanup_data :: "u64 \<Rightarrow> chan \<Rightarrow> chan" where
  "cleanup_data data ch = (if data \<noteq> 0 \<and> ch_free_cb ch \<noteq> 0
     then ch\<lparr>ch_calls := ch_calls ch @ [(ch_free_cb ch, data)]\<rparr> else ch)"

text \<open>
  The three addresses are those of the mutexes inside the new structure, \<open>mem\<close> the memory of
  \<open>size\<close> words that \<open>kmalloc\<close> returns for the buffer, with whatever it holds.
\<close>

definition chan_alloc ::
  "u32 \<Rightarrow> u64 \<times> u64 \<times> u64 \<Rightarrow> u64 list \<Rightarrow> u16 \<Rightarrow> u32 \<Rightarrow> chan option \<times> u32" where
  "chan_alloc chan_id = (\<lambda>(lock_a, reader_a, writer_a) mem size flags.
     if size = 0 then (None, chan_id)
     else (Some \<lparr>ch_id = chan_id, ch_flags = flags AND NOT CHAN_CLOSED,
            ch_lock = mtx_init lock_a MTX_RECURSIVE,
            ch_read_idx = 0, ch_write_idx = 0, ch_max_idx = size - 1,
            ch_buffer = take (unat size) mem, ch_free_cb = 0,
            ch_reader = mtx_init reader_a MTX_RECURSIVE,
            ch_writer = mtx_init writer_a MTX_RECURSIVE, ch_calls = []\<rparr>, chan_id + 1))"

text \<open>Taking the entry under the read index off the buffer.\<close>

definition chan_take :: "chan \<Rightarrow> (u64 \<times> chan) option" where
  "chan_take ch = do {
     data \<leftarrow> load (ch_buffer ch) (uint (ch_read_idx ch));
     buf \<leftarrow> store (ch_buffer ch) (uint (ch_read_idx ch)) 0;
     Some (data, ch\<lparr>ch_buffer := buf, ch_read_idx := get_next_index ch (ch_read_idx ch)\<rparr>) }"

text \<open>The loop that frees what is left; it ends only if the read index meets the write index.\<close>

partial_function (option) drain :: "chan \<Rightarrow> chan option" where
  "drain ch = (if ch_read_idx ch = ch_write_idx ch then Some ch
     else do {
       (data, ch1) \<leftarrow> chan_take ch;
       drain (cleanup_data data ch1) })"

definition chan_free :: "chan \<Rightarrow> (int \<times> chan) option" where
  "chan_free ch = (if \<not> chan_closed ch then Some (-1, ch)
     else do {
       ch1 \<leftarrow> drain ch;
       Some (0, ch1\<lparr>ch_buffer := []\<rparr>) })"

definition chan_set_free_cb :: "chan \<Rightarrow> u64 \<Rightarrow> int \<times> chan" where
  "chan_set_free_cb ch fn = (0, ch\<lparr>ch_free_cb := fn\<rparr>)"

text \<open>What \<open>chan_send\<close> does between taking and releasing the two mutexes.\<close>

definition chan_put :: "chan \<Rightarrow> u64 \<Rightarrow> chan option" where
  "chan_put ch data = do {
     buf \<leftarrow> store (ch_buffer ch) (uint (ch_write_idx ch)) data;
     let ch1 = ch\<lparr>ch_buffer := buf\<rparr>;
     if get_next_index ch1 (ch_write_idx ch1) = ch_read_idx ch1 then do {
       (old_data, ch2) \<leftarrow> chan_take ch1;
       let ch3 = ch2\<lparr>ch_write_idx := get_next_index ch2 (ch_write_idx ch2)\<rparr>;
       Some (cleanup_data old_data ch3) }
     else Some (ch1\<lparr>ch_write_idx := get_next_index ch1 (ch_write_idx ch1)\<rparr>) }"

definition chan_send :: "u64 \<Rightarrow> chan \<times> cpu_ctx \<Rightarrow> (int \<times> chan \<times> cpu_ctx) option" where
  "chan_send data s = (if chan_closed (fst s) then Some (-1, s)
     else do {
       s1 \<leftarrow> lock_writer s;
       (ch, c) \<leftarrow> lock_lock s1;
       ch' \<leftarrow> chan_put ch data;
       s2 \<leftarrow> unlock_lock (ch', c);
       s3 \<leftarrow> unlock_writer s2;
       Some (0, s3) })"

definition chan_sendb :: "u64 \<Rightarrow> chan \<times> cpu_ctx \<Rightarrow> (int \<times> chan \<times> cpu_ctx) option" where
  "chan_sendb data s = (if chan_closed (fst s) then Some (-1, s)
     else do {
       s1 \<leftarrow> lock_writer s;
       (r, s2) \<leftarrow> chan_send data s1;
       s3 \<leftarrow> unlock_writer s2;
       Some (if r < 0 then -1 else 0, s3) })"

text \<open>
  The end of both receive operations: the entry is taken, the lock released, and the value
  stored through \<open>result\<close>, or freed when \<open>result\<close> is NULL.
\<close>

definition recv_tail :: "bool \<Rightarrow> chan \<times> cpu_ctx \<Rightarrow> (int \<times> u64 option \<times> chan \<times> cpu_ctx) option" where
  "recv_tail result = (\<lambda>(ch, c). do {
     kassert (ch_read_idx ch \<noteq> ch_write_idx ch);
     (data, ch1) \<leftarrow> chan_take ch;
     (ch2, c2) \<leftarrow> unlock_lock (ch1, c);
     let ch3 = (if result then ch2 else cleanup_data data ch2);
     s \<leftarrow> unlock_reader (ch3, c2);
     Some (0, (if result then Some data else None), s) })"

definition chan_recv :: "bool \<Rightarrow> chan \<times> cpu_ctx \<Rightarrow> (int \<times> u64 option \<times> chan \<times> cpu_ctx) option" where
  "chan_recv result s = (if chan_closed (fst s) then Some (-1, None, s)
     else do {
       s1 \<leftarrow> lock_reader s;
       (ch, c) \<leftarrow> lock_lock s1;
       if ch_read_idx ch = ch_write_idx ch then do {
         s2 \<leftarrow> unlock_lock (ch, c);
         if chan_closed (fst s2) then do { s3 \<leftarrow> unlock_reader s2; Some (-1, None, s3) }
         else do { s3 \<leftarrow> lock_lock s2; recv_tail result s3 } }
       else recv_tail result (ch, c) })"

definition chan_recv_noblock :: "bool \<Rightarrow> chan \<times> cpu_ctx \<Rightarrow> (int \<times> u64 option \<times> chan \<times> cpu_ctx) option" where
  "chan_recv_noblock result s = (if chan_closed (fst s) then Some (-1, None, s)
     else do {
       s1 \<leftarrow> lock_reader s;
       (ch, c) \<leftarrow> lock_lock s1;
       if ch_read_idx ch = ch_write_idx ch then do {
         s2 \<leftarrow> unlock_lock (ch, c);
         s3 \<leftarrow> unlock_reader s2;
         Some (-2, None, s3) }
       else recv_tail result (ch, c) })"

text \<open>The values go to \<open>results\<close>; they are returned in the order they are stored.\<close>

primrec recvn_loop :: "nat \<Rightarrow> chan \<times> cpu_ctx \<Rightarrow> (int \<times> u64 list \<times> chan \<times> cpu_ctx) option" where
  "recvn_loop 0 s = Some (0, [], s)"
| "recvn_loop (Suc n) s = do {
     (r, data, s1) \<leftarrow> chan_recv True s;
     if r < 0 then Some (-1, [], s1)
     else do {
       x \<leftarrow> data;
       (r', xs, s2) \<leftarrow> recvn_loop n s1;
       Some (r', x # xs, s2) } }"

definition chan_recvn :: "nat \<Rightarrow> bool \<Rightarrow> chan \<times> cpu_ctx \<Rightarrow> (int \<times> u64 list \<times> chan \<times> cpu_ctx) option" where
  "chan_recvn n results s = (if n = 0 \<or> chan_closed (fst s) then Some (-1, [], s)
     else do {
       s1 \<leftarrow> lock_reader s;
       (r, xs, s2) \<leftarrow> recvn_loop n s1;
       s3 \<leftarrow> unlock_reader s2;
       Some (r, (if results then xs else []), s3) })"

definition chan_wait :: "chan \<times> cpu_ctx \<Rightarrow> (int \<times> chan \<times> cpu_ctx) option" where
  "chan_wait s = (if chan_closed (fst s) then Some (-1, s)
     else do {
       s1 \<leftarrow> lock_reader s;
       (ch, c) \<leftarrow> lock_lock s1;
       if ch_read_idx ch = ch_write_idx ch then do {
         s2 \<leftarrow> unlock_lock (ch, c);
         if chan_closed (fst s2) then do { s3 \<leftarrow> unlock_reader s2; Some (-1, s3) }
         else Some (0, s2) }
       else do {
         s2 \<leftarrow> unlock_lock (ch, c);
         s3 \<leftarrow> unlock_reader s2;
         Some (0, s3) } })"

definition chan_close :: "chan \<times> cpu_ctx \<Rightarrow> (int \<times> chan \<times> cpu_ctx) option" where
  "chan_close s = (if chan_closed (fst s) then Some (-1, s)
     else do {
       s1 \<leftarrow> lock_writer s;
       (ch, c) \<leftarrow> lock_lock s1;
       ch1 \<leftarrow> drain (ch\<lparr>ch_flags := ch_flags ch OR CHAN_CLOSED\<rparr>);
       s2 \<leftarrow> unlock_lock (ch1, c);
       s3 \<leftarrow> unlock_writer s2;
       Some (0, s3) })"

section \<open>Contents and well-formedness\<close>

text \<open>
  The entries from the read index to the write index, oldest first. One slot always stays
  empty, so a channel of size \<open>max_idx + 1\<close> holds \<open>max_idx\<close> entries.
\<close>

definition chan_size :: "chan \<Rightarrow> nat" where
  "chan_size ch = Suc (unat (ch_max_idx ch))"

definition chan_count :: "chan \<Rightarrow> nat" where
  "chan_count ch = (unat (ch_write_idx ch) + chan_size ch - unat (ch_read_idx ch)) mod chan_size ch"

definition chan_items :: "chan \<Rightarrow> u64 list" where
  "chan_items ch = map (\<lambda>k. ch_buffer ch ! ((unat (ch_read_idx ch) + k) mod chan_size ch)) [0..<chan_count ch]"

definition chan_ok :: "chan \<Rightarrow> bool" where
  "chan_ok ch \<longleftrightarrow> length (ch_buffer ch) = chan_size ch \<and>
     unat (ch_read_idx ch) < chan_size ch \<and> unat (ch_write_idx ch) < chan_size ch"

definition chan_idle :: "chan \<Rightarrow> bool" where
  "chan_idle ch \<longleftrightarrow> mtx_idle (ch_lock ch) \<and> mtx_idle (ch_reader ch) \<and> mtx_idle (ch_writer ch)"

text \<open>What the free callback is called with for the values that are dropped.\<close>

definition cb_calls :: "chan \<Rightarrow> u64 list \<Rightarrow> (u64 \<times> u64) list" where
  "cb_calls ch xs = (if ch_free_cb ch = 0 then [] else map (Pair (ch_free_cb ch)) (filter (\<lambda>x. x \<noteq> 0) xs))"

section \<open>The mutexes of a channel\<close>

text \<open>The channel with its three mutexes held the given numbers of times by thread \<open>t\<close>.\<close>

definition chan_at :: "chan \<Rightarrow> u64 \<Rightarrow> nat \<Rightarrow> nat \<Rightarrow> nat \<Rightarrow> chan" where
  "chan_at ch t r w l = ch\<lparr>ch_reader := held (ch_reader ch) t r, ch_writer := held (ch_writer ch) t w,
     ch_lock := held (ch_lock ch) t l\<rparr>"

lemma chan_at_fields [simp]:
  "ch_read_idx (chan_at ch t r w l) = ch_read_idx ch" "ch_write_idx (chan_at ch t r w l) = ch_write_idx ch"
  "chan_closed (chan_at ch t r w l) = chan_closed ch" "chan_at ch t 0 0 0 = ch"
  "ch_flags (chan_at ch t r w l) = ch_flags ch"
  by (simp_all add: chan_at_def chan_closed_def)

lemma chan_lock_steps:
  assumes "chan_idle ch" "c_thread c = t" "thread_ptr t" "Suc d < 2 ^ 32"
  shows "lock_reader (chan_at ch t d w l, c) = Some (chan_at ch t (Suc d) w l, ctx_locks c 1)"
    "lock_writer (chan_at ch t r d l, c) = Some (chan_at ch t r (Suc d) l, ctx_locks c 1)"
    "lock_lock (chan_at ch t r w d, c) = Some (chan_at ch t r w (Suc d), ctx_locks c 1)"
    "unlock_reader (chan_at ch t (Suc d) w l, c) = Some (chan_at ch t d w l, ctx_locks c (- 1))"
    "unlock_writer (chan_at ch t r (Suc d) l, c) = Some (chan_at ch t r d l, ctx_locks c (- 1))"
    "unlock_lock (chan_at ch t r w (Suc d), c) = Some (chan_at ch t r w d, ctx_locks c (- 1))"
  using assms lock_held [of "ch_reader ch" c d] lock_held [of "ch_writer ch" c d] lock_held [of "ch_lock ch" c d]
    unlock_held [of "ch_reader ch" c d] unlock_held [of "ch_writer ch" c d] unlock_held [of "ch_lock ch" c d]
  by (simp_all add: lock_field_def unlock_field_def chan_at_def chan_idle_def ctx_locks_def)

text \<open>The buffer operations do not look at the mutexes.\<close>

lemma next_index_at [simp]: "get_next_index (chan_at ch t r w l) i = get_next_index ch i"
  by (simp add: get_next_index_def chan_at_def)

lemma cleanup_at: "cleanup_data x (chan_at ch t r w l) = chan_at (cleanup_data x ch) t r w l"
  by (simp add: cleanup_data_def chan_at_def)

lemma take_at: "chan_take (chan_at ch t r w l) = map_option (\<lambda>(x, ch'). (x, chan_at ch' t r w l)) (chan_take ch)"
  by (cases "load (ch_buffer ch) (uint (ch_read_idx ch))"; cases "store (ch_buffer ch) (uint (ch_read_idx ch)) 0")
     (simp_all add: chan_take_def chan_at_def get_next_index_def)

lemma put_at: "chan_put (chan_at ch t r w l) x = map_option (\<lambda>ch'. chan_at ch' t r w l) (chan_put ch x)"
proof (cases "store (ch_buffer ch) (uint (ch_write_idx ch)) x")
  case None
  then show ?thesis by (simp add: chan_put_def chan_at_def)
next
  case (Some buf)
  have u: "(chan_at ch t r w l)\<lparr>ch_buffer := buf\<rparr> = chan_at (ch\<lparr>ch_buffer := buf\<rparr>) t r w l"
    "ch_buffer (chan_at ch t r w l) = ch_buffer ch" for ch by (simp_all add: chan_at_def)
  have v: "(chan_at ch t r w l)\<lparr>ch_write_idx := i\<rparr> = chan_at (ch\<lparr>ch_write_idx := i\<rparr>) t r w l" for ch i
    by (simp add: chan_at_def)
  show ?thesis
    by (cases "chan_take (ch\<lparr>ch_buffer := buf\<rparr>)") (auto simp: chan_put_def u v Some take_at cleanup_at Let_def)
qed


lemma cleanup_fields [simp]:
  "ch_lock (cleanup_data x ch) = ch_lock ch" "ch_reader (cleanup_data x ch) = ch_reader ch"
  "ch_writer (cleanup_data x ch) = ch_writer ch" "ch_buffer (cleanup_data x ch) = ch_buffer ch"
  "ch_read_idx (cleanup_data x ch) = ch_read_idx ch" "ch_write_idx (cleanup_data x ch) = ch_write_idx ch"
  "ch_max_idx (cleanup_data x ch) = ch_max_idx ch" "ch_flags (cleanup_data x ch) = ch_flags ch"
  "ch_free_cb (cleanup_data x ch) = ch_free_cb ch"
  by (simp_all add: cleanup_data_def)

lemma take_idle: "chan_take ch = Some (x, ch') \<Longrightarrow> chan_idle ch' = chan_idle ch"
  by (auto simp: chan_take_def chan_idle_def split: bind_splits)

lemma cleanup_idle [simp]: "chan_idle (cleanup_data x ch) = chan_idle ch"
  by (simp add: chan_idle_def)

lemma put_idle: "chan_put ch x = Some ch' \<Longrightarrow> chan_idle ch' = chan_idle ch"
proof -
  assume "chan_put ch x = Some ch'"
  then show ?thesis
    by (auto simp: chan_put_def chan_idle_def chan_take_def Let_def split: bind_splits if_splits)
qed

text \<open>Seen from outside, each operation is its effect on the buffer: the mutexes come back as they were.\<close>

lemma send_eq:
  assumes "chan_idle ch" "c_thread c = t" "thread_ptr t" "Suc w < 2 ^ 32"
  shows "chan_send x (chan_at ch t r w 0, c) = (if chan_closed ch then Some (-1, chan_at ch t r w 0, c)
    else map_option (\<lambda>ch'. (0, chan_at ch' t r w 0, c)) (chan_put ch x))"
proof (cases "chan_put ch x")
  case None
  then show ?thesis using assms by (simp add: chan_send_def chan_lock_steps put_at)
next
  case (Some ch')
  then have "chan_idle ch'" using put_idle assms(1) by blast
  with Some assms show ?thesis by (simp add: chan_send_def chan_lock_steps put_at)
qed

lemma sendb_eq:
  assumes "chan_idle ch" "c_thread c = t" "thread_ptr t"
  shows "chan_sendb x (ch, c) = chan_send x (ch, c)"
proof (cases "chan_put ch x")
  case None
  then show ?thesis
    using assms chan_lock_steps(2) [of ch c t 0 0 0] send_eq [of ch "ctx_locks c 1" t 1 x 0] send_eq [of ch c t 0 x 0]
    by (simp add: chan_sendb_def)
next
  case (Some ch')
  then have "chan_idle ch'" using put_idle assms(1) by blast
  then show ?thesis
    using Some assms chan_lock_steps(2) [of ch c t 0 0 0] chan_lock_steps(5) [of ch' "ctx_locks c 1" t 0 0 0]
      send_eq [of ch "ctx_locks c 1" t 1 x 0] send_eq [of ch c t 0 x 0]
    by (simp add: chan_sendb_def)
qed

lemma recv_tail_eq:
  assumes "chan_idle ch" "c_thread c = t" "thread_ptr t" "Suc r < 2 ^ 32" "ch_read_idx ch \<noteq> ch_write_idx ch"
  shows "recv_tail result (chan_at ch t (Suc r) 0 1, ctx_locks c 2) =
    map_option (\<lambda>(x, ch'). (0, if result then Some x else None,
      chan_at (if result then ch' else cleanup_data x ch') t r 0 0, c)) (chan_take ch)"
proof (cases "chan_take ch")
  case None
  then show ?thesis using assms by (simp add: recv_tail_def take_at)
next
  case (Some a)
  then obtain x ch' where a: "chan_take ch = Some (x, ch')" by (cases a) simp
  then have "chan_idle ch'" using take_idle assms(1) by blast
  with a assms show ?thesis
    using chan_lock_steps(6) [of ch' "ctx_locks c 2" t 0 "Suc r" 0]
    by (simp add: recv_tail_def take_at cleanup_at chan_lock_steps)
qed

lemma recv_noblock_eq:
  assumes "chan_idle ch" "c_thread c = t" "thread_ptr t"
  shows "chan_recv_noblock result (ch, c) = (if chan_closed ch then Some (-1, None, ch, c)
    else if ch_read_idx ch = ch_write_idx ch then Some (-2, None, ch, c)
    else map_option (\<lambda>(x, ch'). (0, if result then Some x else None,
      (if result then ch' else cleanup_data x ch'), c)) (chan_take ch))"
  using assms chan_lock_steps(1) [of ch c t 0 0 0] chan_lock_steps(3) [of ch "ctx_locks c 1" t 0 1 0]
    chan_lock_steps(6) [of ch "ctx_locks c 2" t 0 1 0] chan_lock_steps(4) [of ch "ctx_locks c 1" t 0 0 0]
    recv_tail_eq [of ch c t 0 result]
  by (simp add: chan_recv_noblock_def)

lemma recv_eq:
  assumes "chan_idle ch" "c_thread c = t" "thread_ptr t" "Suc r < 2 ^ 32"
  shows "chan_recv result (chan_at ch t r 0 0, c) = (if chan_closed ch then Some (-1, None, chan_at ch t r 0 0, c)
    else if ch_read_idx ch = ch_write_idx ch then None
    else map_option (\<lambda>(x, ch'). (0, if result then Some x else None,
      chan_at (if result then ch' else cleanup_data x ch') t r 0 0, c)) (chan_take ch))"
  using assms chan_lock_steps(1) [of ch c t r 0 0] chan_lock_steps(3) [of ch "ctx_locks c 1" t 0 "Suc r" 0]
    chan_lock_steps(6) [of ch "ctx_locks c 2" t 0 "Suc r" 0]
    recv_tail_eq [of ch c t r result]
  by (simp add: chan_recv_def recv_tail_def)

section \<open>The ring\<close>

lemma next_unat:
  "unat i < chan_size ch \<Longrightarrow> unat (get_next_index ch i) = (if Suc (unat i) = chan_size ch then 0 else Suc (unat i))"
proof -
  assume i: "unat i < chan_size ch"
  show ?thesis
  proof (cases "i = ch_max_idx ch")
    case False
    then have "unat i \<noteq> unat (ch_max_idx ch)" by simp
    then have "unat i < unat (ch_max_idx ch)" using i unfolding chan_size_def by linarith
    moreover have "unat (ch_max_idx ch) < 2 ^ 16" using unsigned_less [of "ch_max_idx ch"] by simp
    ultimately have "unat (i + 1) = Suc (unat i)" by (simp add: unat_word_ariths(1))
    moreover note \<open>unat i < unat (ch_max_idx ch)\<close>
    ultimately show ?thesis using False by (simp add: get_next_index_def chan_size_def)
  qed (simp add: get_next_index_def chan_size_def)
qed

lemma ring_count:
  fixes r w n :: nat
  assumes "r < n" "w < n"
  shows "(w + n - r) mod n = (if r \<le> w then w - r else w + n - r)"
proof (cases "r \<le> w")
  case True
  then have "w + n - r = (w - r) + n" by simp
  then have "(w + n - r) mod n = (w - r) mod n" by simp
  then show ?thesis using assms True by simp
qed (use assms in simp)

lemma ring_mod: "(r :: nat) < n \<Longrightarrow> k < n \<Longrightarrow> (r + k) mod n = (if r + k < n then r + k else r + k - n)"
  by (simp add: mod_if)

lemma length_chan_items [simp]: "length (chan_items ch) = chan_count ch"
  by (simp add: chan_items_def)

lemma count_less: "chan_count ch < chan_size ch"
  by (simp add: chan_count_def chan_size_def)

lemma count_zero: "chan_ok ch \<Longrightarrow> chan_count ch = 0 \<longleftrightarrow> ch_read_idx ch = ch_write_idx ch"
  by (auto simp: chan_count_def chan_ok_def ring_count)

lemma chan_items_empty: "chan_ok ch \<Longrightarrow> chan_items ch = [] \<longleftrightarrow> ch_read_idx ch = ch_write_idx ch"
  using count_zero by (metis length_0_conv length_chan_items)

text \<open>What an operation on the buffer leaves alone.\<close>

definition same_rest :: "chan \<Rightarrow> chan \<Rightarrow> bool" where
  "same_rest ch ch' \<longleftrightarrow> ch_max_idx ch' = ch_max_idx ch \<and> ch_flags ch' = ch_flags ch \<and>
     ch_free_cb ch' = ch_free_cb ch \<and> (chan_idle ch' \<longleftrightarrow> chan_idle ch) \<and> ch_id ch' = ch_id ch"

lemma same_rest_closed: "same_rest ch ch' \<Longrightarrow> chan_closed ch' = chan_closed ch"
  by (simp add: same_rest_def chan_closed_def)

lemma same_rest_refl: "same_rest ch ch"
  by (simp add: same_rest_def)

lemma same_rest_trans: "same_rest a b \<Longrightarrow> same_rest b c \<Longrightarrow> same_rest a c"
  by (simp add: same_rest_def)

lemma cleanup_rest: "same_rest ch (cleanup_data x ch)"
  "chan_items (cleanup_data x ch) = chan_items ch" "chan_ok (cleanup_data x ch) = chan_ok ch"
  "ch_calls (cleanup_data x ch) = ch_calls ch @ cb_calls ch [x]"
  by (simp_all add: cleanup_data_def same_rest_def chan_items_def chan_ok_def chan_size_def chan_count_def
      cb_calls_def chan_idle_def)

lemma take_spec:
  assumes "chan_ok ch" "ch_read_idx ch \<noteq> ch_write_idx ch"
  shows "\<exists>ch'. chan_take ch = Some (hd (chan_items ch), ch') \<and> chan_ok ch' \<and>
    chan_items ch' = tl (chan_items ch) \<and> same_rest ch ch' \<and> ch_calls ch' = ch_calls ch \<and>
    ch_write_idx ch' = ch_write_idx ch \<and> ch_buffer ch' = (ch_buffer ch)[unat (ch_read_idx ch) := 0]"
proof -
  define n where "n = chan_size ch"
  define r where "r = unat (ch_read_idx ch)"
  define w where "w = unat (ch_write_idx ch)"
  define buf where "buf = ch_buffer ch"
  have b: "length buf = n" "r < n" "w < n" using assms(1) by (auto simp: chan_ok_def n_def r_def w_def buf_def)
  have rw: "r \<noteq> w" using assms(2) by (simp add: r_def w_def)
  define ch' where "ch' = ch\<lparr>ch_buffer := buf[r := 0], ch_read_idx := get_next_index ch (ch_read_idx ch)\<rparr>"
  have r': "unat (ch_read_idx ch') = (if Suc r = n then 0 else Suc r)"
    using next_unat [of "ch_read_idx ch" ch] b by (simp add: ch'_def n_def r_def)
  have sz: "chan_size ch' = n" "unat (ch_write_idx ch') = w" "ch_buffer ch' = buf[r := 0]"
    by (simp_all add: ch'_def chan_size_def n_def w_def)
  have cnt: "chan_count ch = (if r \<le> w then w - r else w + n - r)"
    using b by (simp add: chan_count_def ring_count flip: n_def r_def w_def)
  have cnt': "chan_count ch' = chan_count ch - 1"
    using b rw unfolding cnt unfolding chan_count_def sz r' by (auto simp: ring_count)
  have ok': "chan_ok ch'" using b by (simp add: chan_ok_def sz r')
  have c0: "0 < chan_count ch" using cnt rw b by auto
  have "chan_items ch' = tl (chan_items ch)"
  proof (rule nth_equalityI)
    fix k assume "k < length (chan_items ch')"
    then have k: "Suc k < chan_count ch" by (simp add: cnt')
    have kn: "Suc k < n" using k count_less [of ch] by (simp add: n_def)
    have "r + Suc k = Suc r + k" by simp
    then have "(unat (ch_read_idx ch') + k) mod n = (r + Suc k) mod n" by (auto simp only: r' mod_add_self1 add_0 split: if_splits)
    moreover have "r \<noteq> (r + Suc k) mod n" using b kn ring_mod [of r n "Suc k"] by (auto split: if_splits)
    moreover have "k < chan_count ch - Suc 0" using k by simp
    ultimately show "chan_items ch' ! k = tl (chan_items ch) ! k"
      using k by (simp add: chan_items_def sz cnt' nth_tl nth_list_update_neq flip: n_def r_def buf_def)
  qed (simp add: cnt')
  moreover have "hd (chan_items ch) = buf ! r"
    using c0 b by (simp add: chan_items_def hd_map hd_upt flip: n_def r_def buf_def)
  moreover have "same_rest ch ch'" by (simp add: same_rest_def ch'_def chan_idle_def)
  moreover have "chan_take ch = Some (buf ! r, ch')"
    using b by (simp add: chan_take_def ch'_def r_def buf_def)
  ultimately show ?thesis using ok' by (simp add: ch'_def buf_def r_def)
qed

lemma scribble:
  assumes "chan_ok ch"
  shows "chan_items (ch\<lparr>ch_buffer := (ch_buffer ch)[unat (ch_write_idx ch) := x]\<rparr>) = chan_items ch"
proof -
  define n where "n = chan_size ch"
  define r where "r = unat (ch_read_idx ch)"
  define w where "w = unat (ch_write_idx ch)"
  have b: "r < n" "w < n" using assms by (auto simp: chan_ok_def n_def r_def w_def)
  have neq: "w \<noteq> (r + k) mod n" if "k < (w + n - r) mod n" for k
  proof -
    have "k < n" using that b by (metis mod_less_divisor less_trans gr_implies_not0 not_gr_zero)
    then show ?thesis using that b by (auto simp: ring_count ring_mod split: if_splits)
  qed
  show ?thesis
    unfolding chan_items_def
    by (rule map_cong) (use neq in \<open>simp_all add: chan_count_def chan_size_def n_def r_def w_def\<close>)
qed

lemma commit:
  assumes "chan_ok ch" "Suc (chan_count ch) < chan_size ch"
  defines "ch' \<equiv> ch\<lparr>ch_write_idx := get_next_index ch (ch_write_idx ch)\<rparr>"
  shows "chan_items ch' = chan_items ch @ [ch_buffer ch ! unat (ch_write_idx ch)]" "chan_ok ch'"
proof -
  define n where "n = chan_size ch"
  define r where "r = unat (ch_read_idx ch)"
  define w where "w = unat (ch_write_idx ch)"
  have b: "r < n" "w < n" using assms(1) by (auto simp: chan_ok_def n_def r_def w_def)
  have w': "unat (ch_write_idx ch') = (if Suc w = n then 0 else Suc w)"
    using next_unat [of "ch_write_idx ch" ch] b by (simp add: ch'_def n_def w_def)
  have sz: "chan_size ch' = n" "unat (ch_read_idx ch') = r" "ch_buffer ch' = ch_buffer ch"
    by (simp_all add: ch'_def chan_size_def n_def r_def)
  have cnt: "chan_count ch = (if r \<le> w then w - r else w + n - r)"
    using b by (simp add: chan_count_def ring_count flip: n_def r_def w_def)
  have "Suc (if r \<le> w then w - r else w + n - r) < n" using assms(2) by (simp only: cnt n_def)
  then have cnt': "chan_count ch' = Suc (chan_count ch)"
    using b unfolding cnt unfolding chan_count_def sz w' by (auto simp: ring_count)
  have "(r + chan_count ch) mod n = w" using b unfolding cnt by (cases "r \<le> w") simp_all
  then show "chan_items ch' = chan_items ch @ [ch_buffer ch ! unat (ch_write_idx ch)]"
    by (simp add: chan_items_def cnt' sz flip: n_def r_def w_def)
  have "length (ch_buffer ch) = n" using assms(1) by (simp add: chan_ok_def n_def)
  then show "chan_ok ch'" unfolding chan_ok_def sz w' using b by simp
qed

lemma full_iff:
  assumes "chan_ok ch"
  shows "get_next_index ch (ch_write_idx ch) = ch_read_idx ch \<longleftrightarrow> Suc (chan_count ch) = chan_size ch"
proof -
  define n where "n = chan_size ch"
  define r where "r = unat (ch_read_idx ch)"
  define w where "w = unat (ch_write_idx ch)"
  have b: "r < n" "w < n" using assms by (auto simp: chan_ok_def n_def r_def w_def)
  have w': "unat (get_next_index ch (ch_write_idx ch)) = (if Suc w = n then 0 else Suc w)"
    using next_unat [of "ch_write_idx ch" ch] b by (simp add: n_def w_def)
  have "chan_count ch = (if r \<le> w then w - r else w + n - r)"
    using b by (simp add: chan_count_def ring_count flip: n_def r_def w_def)
  then have "Suc (chan_count ch) = n \<longleftrightarrow> (if Suc w = n then 0 else Suc w) = r" using b by auto
  then show ?thesis using w' by (metis n_def r_def unat_inject)
qed

lemma put_spec:
  assumes "chan_ok ch" "0 < ch_max_idx ch"
  shows "\<exists>ch'. chan_put ch x = Some ch' \<and> chan_ok ch' \<and> same_rest ch ch' \<and>
    (if Suc (chan_count ch) < chan_size ch
     then chan_items ch' = chan_items ch @ [x] \<and> ch_calls ch' = ch_calls ch
     else chan_items ch' = tl (chan_items ch) @ [x] \<and> ch_calls ch' = ch_calls ch @ cb_calls ch [hd (chan_items ch)])"
proof -
  let ?w = "unat (ch_write_idx ch)"
  define ch1 where "ch1 = ch\<lparr>ch_buffer := (ch_buffer ch)[?w := x]\<rparr>"
  have wl: "?w < length (ch_buffer ch)" using assms(1) by (simp add: chan_ok_def)
  then have st: "store (ch_buffer ch) (uint (ch_write_idx ch)) x = Some ((ch_buffer ch)[?w := x])"
    by simp
  have ok1: "chan_ok ch1" and sz: "chan_size ch1 = chan_size ch" and cnt: "chan_count ch1 = chan_count ch"
    and items1: "chan_items ch1 = chan_items ch" and rest1: "same_rest ch ch1"
    and w1: "ch_write_idx ch1 = ch_write_idx ch" "ch_buffer ch1 ! ?w = x" "ch_calls ch1 = ch_calls ch"
    "ch_free_cb ch1 = ch_free_cb ch"
    using assms(1) scribble [OF assms(1)] wl
    by (simp_all add: ch1_def chan_ok_def chan_size_def chan_count_def same_rest_def chan_idle_def)
  have put: "chan_put ch x = (if get_next_index ch1 (ch_write_idx ch1) = ch_read_idx ch1 then do {
       (old_data, ch2) \<leftarrow> chan_take ch1;
       Some (cleanup_data old_data (ch2\<lparr>ch_write_idx := get_next_index ch2 (ch_write_idx ch2)\<rparr>)) }
     else Some (ch1\<lparr>ch_write_idx := get_next_index ch1 (ch_write_idx ch1)\<rparr>))"
    by (simp add: chan_put_def st Let_def ch1_def)
  show ?thesis
  proof (cases "Suc (chan_count ch) < chan_size ch")
    case True
    then have room: "Suc (chan_count ch1) < chan_size ch1" by (simp add: sz cnt)
    define ch' where "ch' = ch1\<lparr>ch_write_idx := get_next_index ch1 (ch_write_idx ch1)\<rparr>"
    have "chan_put ch x = Some ch'" using put full_iff [OF ok1] room by (simp add: ch'_def)
    moreover have "chan_items ch' = chan_items ch @ [x]" "chan_ok ch'"
      using commit [OF ok1 room] w1 items1 by (simp_all add: ch'_def)
    moreover have "same_rest ch ch'" "ch_calls ch' = ch_calls ch"
      using rest1 w1 by (simp_all add: ch'_def same_rest_def chan_idle_def)
    ultimately show ?thesis using True by simp
  next
    case False
    then have full: "Suc (chan_count ch1) = chan_size ch1" using count_less [of ch] sz cnt by simp
    have "0 < unat (ch_max_idx ch)" using assms(2) by (simp add: word_less_nat_alt)
    then have "1 < chan_size ch1" by (simp add: sz) (simp add: chan_size_def)
    then have "chan_count ch1 \<noteq> 0" using full by simp
    then have ne: "ch_read_idx ch1 \<noteq> ch_write_idx ch1" using count_zero [OF ok1] by simp
    from take_spec [OF ok1 this] obtain ch2 where t: "chan_take ch1 = Some (hd (chan_items ch1), ch2)"
      and ch2: "chan_ok ch2" "chan_items ch2 = tl (chan_items ch1)" "same_rest ch1 ch2" "ch_calls ch2 = ch_calls ch1"
        "ch_write_idx ch2 = ch_write_idx ch1" "ch_buffer ch2 = (ch_buffer ch1)[unat (ch_read_idx ch1) := 0]"
      by blast
    have sz2: "chan_size ch2 = chan_size ch1" using ch2(3) by (simp add: same_rest_def chan_size_def)
    have "chan_count ch2 = chan_count ch1 - 1" using arg_cong [OF ch2(2), of length] by simp
    then have room: "Suc (chan_count ch2) < chan_size ch2" using full \<open>chan_count ch1 \<noteq> 0\<close> sz2 by simp
    define ch3 where "ch3 = ch2\<lparr>ch_write_idx := get_next_index ch2 (ch_write_idx ch2)\<rparr>"
    have "ch_buffer ch2 ! ?w = x" using ch2(6) w1 ne by (simp add: nth_list_update)
    then have i3: "chan_items ch3 = tl (chan_items ch) @ [x]" "chan_ok ch3"
      using commit [OF ch2(1) room] ch2(2,5) items1 w1 by (simp_all add: ch3_def)
    have r3: "same_rest ch1 ch3" "ch_calls ch3 = ch_calls ch" "ch_free_cb ch3 = ch_free_cb ch"
      using ch2(3,4) w1 by (simp_all add: ch3_def same_rest_def chan_idle_def)
    have "chan_put ch x = Some (cleanup_data (hd (chan_items ch)) ch3)"
      using put full_iff [OF ok1] full t by (simp add: ch3_def items1)
    then show ?thesis
      using False i3 r3 cleanup_rest [where ch = ch3 and x = "hd (chan_items ch)"] same_rest_trans [OF rest1]
        same_rest_trans [of ch1 ch3] by (auto simp: cb_calls_def)
  qed
qed

lemma cb_calls_simps:
  "cb_calls ch [] = []" "cb_calls ch (x # xs) = cb_calls ch [x] @ cb_calls ch xs"
  "same_rest ch ch' \<Longrightarrow> cb_calls ch' xs = cb_calls ch xs"
  by (simp_all add: cb_calls_def same_rest_def)

text \<open>The loop ends, and calls the callback once for every value that is not 0, in order.\<close>

lemma drain_spec:
  assumes "chan_ok ch"
  shows "\<exists>ch'. (\<forall>r w l. drain (chan_at ch t r w l) = Some (chan_at ch' t r w l)) \<and> chan_ok ch' \<and> chan_items ch' = [] \<and>
    same_rest ch ch' \<and> ch_calls ch' = ch_calls ch @ cb_calls ch (chan_items ch)"
  using assms
proof (induction "chan_count ch" arbitrary: ch)
  case 0
  then have "ch_read_idx ch = ch_write_idx ch" "chan_items ch = []"
    using count_zero [OF 0(2)] chan_items_empty [OF 0(2)] by auto
  then show ?case using 0(2) by (intro exI [of _ ch]) (simp add: drain.simps same_rest_refl cb_calls_def)
next
  case (Suc n)
  then have ne: "ch_read_idx ch \<noteq> ch_write_idx ch" using count_zero [OF Suc(3)] by simp
  let ?x = "hd (chan_items ch)"
  from take_spec [OF Suc(3) ne] obtain ch1 where t: "chan_take ch = Some (?x, ch1)"
    and ch1: "chan_ok ch1" "chan_items ch1 = tl (chan_items ch)" "same_rest ch ch1" "ch_calls ch1 = ch_calls ch"
    by blast
  define ch2 where "ch2 = cleanup_data ?x ch1"
  have ch2: "chan_ok ch2" "chan_items ch2 = tl (chan_items ch)" "same_rest ch ch2"
    "ch_calls ch2 = ch_calls ch @ cb_calls ch [?x]"
    using ch1 cleanup_rest [where ch = ch1 and x = ?x] same_rest_trans [OF ch1(3)]
    by (simp_all add: ch2_def cb_calls_def same_rest_def)
  have "n = chan_count ch2" using arg_cong [OF ch2(2), of length] Suc(2) by simp
  from Suc(1) [OF this ch2(1)] obtain ch' where d: "\<forall>r w l. drain (chan_at ch2 t r w l) = Some (chan_at ch' t r w l)"
    and ch': "chan_ok ch'" "chan_items ch' = []" "same_rest ch2 ch'"
      "ch_calls ch' = ch_calls ch2 @ cb_calls ch2 (chan_items ch2)" by blast
  have "drain (chan_at ch t r w l) = Some (chan_at ch' t r w l)" for r w l
    using d ne t by (subst drain.simps) (simp add: take_at cleanup_at ch2_def)
  moreover have "ch_calls ch' = ch_calls ch @ cb_calls ch [?x] @ cb_calls ch (tl (chan_items ch))"
    using ch' ch2 cb_calls_simps(3) [OF ch2(3)] by simp
  then have "ch_calls ch' = ch_calls ch @ cb_calls ch (?x # tl (chan_items ch))"
    by (simp only: cb_calls_simps(2) [of ch ?x "tl (chan_items ch)"])
  then have "ch_calls ch' = ch_calls ch @ cb_calls ch (chan_items ch)" using ne chan_items_empty [OF Suc(3)] by simp
  ultimately show ?case using ch' same_rest_trans [OF ch2(3)] by blast
qed

definition chan_ready :: "chan \<times> cpu_ctx \<Rightarrow> bool" where
  "chan_ready s \<longleftrightarrow> chan_ok (fst s) \<and> chan_idle (fst s) \<and> \<not> chan_closed (fst s) \<and> 0 < ch_max_idx (fst s) \<and>
     thread_ptr (c_thread (snd s))"

lemma same_rest_ready: "chan_ready (ch, c) \<Longrightarrow> chan_ok ch' \<Longrightarrow> same_rest ch ch' \<Longrightarrow> chan_ready (ch', c)"
  by (simp add: chan_ready_def same_rest_def chan_closed_def)

lemma size_max: "chan_size ch = Suc (unat (ch_max_idx ch))"
  by (simp add: chan_size_def)

lemma send_spec:
  assumes "chan_ready (ch, c)"
  shows "\<exists>ch'. chan_send x (ch, c) = Some (0, ch', c) \<and> chan_ready (ch', c) \<and> same_rest ch ch' \<and>
    (if length (chan_items ch) < unat (ch_max_idx ch)
     then chan_items ch' = chan_items ch @ [x] \<and> ch_calls ch' = ch_calls ch
     else chan_items ch' = tl (chan_items ch) @ [x] \<and> ch_calls ch' = ch_calls ch @ cb_calls ch [hd (chan_items ch)])"
proof -
  have a: "chan_ok ch" "chan_idle ch" "0 < ch_max_idx ch" "\<not> chan_closed ch" "thread_ptr (c_thread c)"
    using assms by (simp_all add: chan_ready_def)
  from put_spec [OF a(1,3), of x] obtain ch' where p: "chan_put ch x = Some ch'" "chan_ok ch'" "same_rest ch ch'"
    "if length (chan_items ch) < unat (ch_max_idx ch)
     then chan_items ch' = chan_items ch @ [x] \<and> ch_calls ch' = ch_calls ch
     else chan_items ch' = tl (chan_items ch) @ [x] \<and> ch_calls ch' = ch_calls ch @ cb_calls ch [hd (chan_items ch)]"
    by (auto simp: size_max)
  have "chan_send x (ch, c) = Some (0, ch', c)"
    using send_eq [OF a(2) refl a(5), of 0 x 0] a(4) p(1) by simp
  with p same_rest_ready [OF assms p(2,3)] show ?thesis by blast
qed

lemma recv_spec:
  assumes "chan_ready (ch, c)"
  shows "chan_items ch = [] \<Longrightarrow> chan_recv_noblock result (ch, c) = Some (-2, None, ch, c) \<and> chan_recv result (ch, c) = None"
    and "chan_items ch \<noteq> [] \<Longrightarrow> \<exists>ch'. chan_recv_noblock True (ch, c) = Some (0, Some (hd (chan_items ch)), ch', c) \<and>
      (\<forall>r. Suc r < 2 ^ 32 \<longrightarrow> chan_recv True (chan_at ch (c_thread c) r 0 0, c) =
         Some (0, Some (hd (chan_items ch)), chan_at ch' (c_thread c) r 0 0, c)) \<and>
      chan_ready (ch', c) \<and> same_rest ch ch' \<and> chan_items ch' = tl (chan_items ch) \<and> ch_calls ch' = ch_calls ch"
proof -
  have a: "chan_ok ch" "chan_idle ch" "\<not> chan_closed ch" "thread_ptr (c_thread c)"
    using assms by (simp_all add: chan_ready_def)
  show "chan_recv_noblock result (ch, c) = Some (-2, None, ch, c) \<and> chan_recv result (ch, c) = None"
    if "chan_items ch = []"
    using that chan_items_empty [OF a(1)] recv_noblock_eq [OF a(2) refl a(4)] recv_eq [OF a(2) refl a(4), of 0] a(3)
    by simp
  assume "chan_items ch \<noteq> []"
  then have ne: "ch_read_idx ch \<noteq> ch_write_idx ch" using chan_items_empty [OF a(1)] by simp
  from take_spec [OF a(1) this] obtain ch' where t: "chan_take ch = Some (hd (chan_items ch), ch')"
    "chan_ok ch'" "chan_items ch' = tl (chan_items ch)" "same_rest ch ch'" "ch_calls ch' = ch_calls ch" by blast
  have "chan_recv_noblock True (ch, c) = Some (0, Some (hd (chan_items ch)), ch', c)"
    using recv_noblock_eq [OF a(2) refl a(4)] a(3) ne t(1) by simp
  moreover have "chan_recv True (chan_at ch (c_thread c) r 0 0, c) =
      Some (0, Some (hd (chan_items ch)), chan_at ch' (c_thread c) r 0 0, c)" if "Suc r < 2 ^ 32" for r
    using recv_eq [OF a(2) refl a(4) that] a(3) ne t(1) by simp
  ultimately show "\<exists>ch'. chan_recv_noblock True (ch, c) = Some (0, Some (hd (chan_items ch)), ch', c) \<and>
      (\<forall>r. Suc r < 2 ^ 32 \<longrightarrow> chan_recv True (chan_at ch (c_thread c) r 0 0, c) =
         Some (0, Some (hd (chan_items ch)), chan_at ch' (c_thread c) r 0 0, c)) \<and>
      chan_ready (ch', c) \<and> same_rest ch ch' \<and> chan_items ch' = tl (chan_items ch) \<and> ch_calls ch' = ch_calls ch"
    using t(2-5) same_rest_ready [OF assms t(2,4)] by blast
qed

section \<open>The channel as a queue\<close>

definition chan_q_put :: "u64 \<Rightarrow> chan \<times> cpu_ctx \<Rightarrow> u64 option \<times> chan \<times> cpu_ctx" where
  "chan_q_put x s = (if length (chan_items (fst s)) < unat (ch_max_idx (fst s)) then None else Some (hd (chan_items (fst s))),
     case chan_send x s of Some (_, s') \<Rightarrow> s' | None \<Rightarrow> s)"

definition chan_q_get :: "chan \<times> cpu_ctx \<Rightarrow> (u64 \<times> chan \<times> cpu_ctx) option" where
  "chan_q_get s = (case chan_recv_noblock True s of Some (_, Some x, s') \<Rightarrow> Some (x, s') | _ \<Rightarrow> None)"

interpretation cq: dropping_queue chan_ready "\<lambda>s. chan_items (fst s)" chan_q_put chan_q_get
proof
  fix s x d s' y
  assume inv: "chan_ready s"
  obtain ch c where s: "s = (ch, c)" by (cases s)
  from send_spec [OF inv [unfolded s], of x] obtain ch' where p: "chan_send x (ch, c) = Some (0, ch', c)"
    "chan_ready (ch', c)" "if length (chan_items ch) < unat (ch_max_idx ch)
     then chan_items ch' = chan_items ch @ [x] \<and> ch_calls ch' = ch_calls ch
     else chan_items ch' = tl (chan_items ch) @ [x] \<and> ch_calls ch' = ch_calls ch @ cb_calls ch [hd (chan_items ch)]"
    by blast
  show "chan_ready s'" if "chan_q_put x s = (d, s')" using that p s by (auto simp: chan_q_put_def)
  show "chan_items (fst s') = chan_items (fst s) @ [x]" if "chan_q_put x s = (None, s')"
    using that p s by (auto simp: chan_q_put_def split: if_splits)
  show "y # chan_items (fst s') = chan_items (fst s) @ [x]" if "chan_q_put x s = (Some y, s')"
  proof -
    have full: "\<not> length (chan_items ch) < unat (ch_max_idx ch)" and e: "y = hd (chan_items ch)" "s' = (ch', c)"
      using that p s by (auto simp: chan_q_put_def split: if_splits)
    have "0 < unat (ch_max_idx ch)" using inv s by (simp add: chan_ready_def word_less_nat_alt)
    with full have "chan_items ch \<noteq> []" by (metis list.size(3))
    then show ?thesis using full e p s by simp
  qed
  show "chan_q_get s = None \<longleftrightarrow> chan_items (fst s) = []"
    using recv_spec [OF inv [unfolded s]] s by (cases "chan_items ch = []") (auto simp: chan_q_get_def)
  show "chan_ready s' \<and> chan_items (fst s) = y # chan_items (fst s')" if g: "chan_q_get s = Some (y, s')"
  proof -
    have ne: "chan_items ch \<noteq> []"
      using g s recv_spec(1) [OF inv [unfolded s], of True] by (auto simp: chan_q_get_def)
    from recv_spec(2) [OF inv [unfolded s] this] obtain ch1 where
      r: "chan_recv_noblock True (ch, c) = Some (0, Some (hd (chan_items ch)), ch1, c)"
        "chan_ready (ch1, c)" "chan_items ch1 = tl (chan_items ch)" by blast
    then show ?thesis using g s ne by (auto simp: chan_q_get_def)
  qed
qed

section \<open>Receiving several values\<close>

lemma recvn_loop_spec:
  assumes "chan_ready (ch, c)" "n \<le> length (chan_items ch)"
  shows "\<exists>ch'. recvn_loop n (chan_at ch (c_thread c) 1 0 0, c) =
      Some (0, take n (chan_items ch), chan_at ch' (c_thread c) 1 0 0, c) \<and>
    chan_ready (ch', c) \<and> same_rest ch ch' \<and> chan_items ch' = drop n (chan_items ch)"
  using assms
proof (induction n arbitrary: ch)
  case 0
  then show ?case using same_rest_refl by auto
next
  case (Suc n)
  have ne: "chan_items ch \<noteq> []" using Suc.prems(2) by (metis list.size(3) not_less_eq_eq zero_le)
  from recv_spec(2) [OF Suc.prems(1) ne] obtain ch1 where
    all: "\<forall>r. Suc r < 2 ^ 32 \<longrightarrow> chan_recv True (chan_at ch (c_thread c) r 0 0, c) =
         Some (0, Some (hd (chan_items ch)), chan_at ch1 (c_thread c) r 0 0, c)"
    and r: "chan_ready (ch1, c)" "same_rest ch ch1" "chan_items ch1 = tl (chan_items ch)" by blast
  have rc: "chan_recv True (chan_at ch (c_thread c) 1 0 0, c) =
      Some (0, Some (hd (chan_items ch)), chan_at ch1 (c_thread c) 1 0 0, c)" using all by simp
  from Suc.IH [OF r(1)] Suc.prems(2) r(3) obtain ch' where
    "recvn_loop n (chan_at ch1 (c_thread c) 1 0 0, c) = Some (0, take n (chan_items ch1), chan_at ch' (c_thread c) 1 0 0, c)"
    "chan_ready (ch', c)" "same_rest ch1 ch'" "chan_items ch' = drop n (chan_items ch1)" by fastforce
  with rc r ne same_rest_trans [OF r(2)] show ?case by (auto simp: take_Suc drop_Suc)
qed

lemma recvn_loop_short:
  assumes "chan_ready (ch, c)" "length (chan_items ch) < n"
  shows "recvn_loop n (chan_at ch (c_thread c) 1 0 0, c) = None"
  using assms
proof (induction n arbitrary: ch)
  case (Suc n)
  have a: "chan_ok ch" "chan_idle ch" "\<not> chan_closed ch" "thread_ptr (c_thread c)"
    using Suc.prems(1) by (simp_all add: chan_ready_def)
  show ?case
  proof (cases "chan_items ch = []")
    case True
    then show ?thesis using recv_eq [OF a(2) refl a(4), of 1] chan_items_empty [OF a(1)] a(3) by simp
  next
    case False
    from recv_spec(2) [OF Suc.prems(1) this] obtain ch1 where
      all: "\<forall>r. Suc r < 2 ^ 32 \<longrightarrow> chan_recv True (chan_at ch (c_thread c) r 0 0, c) =
         Some (0, Some (hd (chan_items ch)), chan_at ch1 (c_thread c) r 0 0, c)"
      and r: "chan_ready (ch1, c)" "chan_items ch1 = tl (chan_items ch)" by blast
    have rc: "chan_recv True (chan_at ch (c_thread c) 1 0 0, c) =
      Some (0, Some (hd (chan_items ch)), chan_at ch1 (c_thread c) 1 0 0, c)" using all by simp
    have "length (chan_items ch1) < n" using r(2) False Suc.prems(2) by (cases "chan_items ch") auto
    then show ?thesis using rc Suc.IH [OF r(1)] by simp
  qed
qed simp

lemma alloc_spec:
  assumes "slots \<noteq> 0" "length mem = unat slots" "chan_alloc i (a, b, e) mem slots flags = (Some ch, j)"
  shows "chan_ok ch \<and> chan_idle ch \<and> \<not> chan_closed ch \<and> chan_items ch = [] \<and> ch_max_idx ch = slots - 1"
proof -
  have idle: "mtx_idle (mtx_init x MTX_RECURSIVE)" for x
    by (simp add: mtx_idle_def mtx_init_def mtx_get_lc_def mtx_get_lo_def mtx_opts_to_lockobject_flags_def mtx_flag_consts)
  have ch: "ch = \<lparr>ch_id = i, ch_flags = flags AND NOT CHAN_CLOSED, ch_lock = mtx_init a MTX_RECURSIVE,
      ch_read_idx = 0, ch_write_idx = 0, ch_max_idx = slots - 1, ch_buffer = mem, ch_free_cb = 0,
      ch_reader = mtx_init b MTX_RECURSIVE, ch_writer = mtx_init e MTX_RECURSIVE, ch_calls = []\<rparr>"
    using assms by (simp add: chan_alloc_def)
  have one: "1 \<le> unat slots" using assms(1) by (simp add: unat_gt_0 Suc_le_eq)
  then have "unat (slots - 1) = unat slots - 1" by (simp add: unat_sub word_le_nat_alt)
  with one have sz: "chan_size ch = unat slots" by (simp add: ch chan_size_def)
  have "chan_ok ch" unfolding chan_ok_def sz using one assms(2) by (simp add: ch)
  moreover have "\<not> chan_closed ch" using and_not_and [of flags CHAN_CLOSED] by (simp add: chan_closed_def ch)
  moreover have "chan_idle ch" using idle by (simp add: chan_idle_def ch)
  ultimately show ?thesis using chan_items_empty [of ch] by (simp add: ch)
qed

lemma alloc_ready:
  assumes "1 < slots" "length mem = unat slots" "chan_alloc i (a, b, e) mem slots flags = (Some ch, j)" "thread_ptr (c_thread c)"
  shows "chan_ready (ch, c) \<and> chan_items ch = [] \<and> ch_max_idx ch = slots - 1"
proof -
  have s: "slots \<noteq> 0" using assms(1) by auto
  have "0 < slots - 1" using assms(1) by (simp add: word_less_nat_alt unat_sub word_le_nat_alt)
  then show ?thesis using alloc_spec [OF s assms(2,3)] assms(4) by (simp add: chan_ready_def)
qed

section \<open>Properties\<close>

text \<open>
  C12: A channel is a bounded queue that drops its oldest entry: on a ready channel (well-formed,
  open, with room for at least one entry, its mutexes free) \<open>chan_send\<close> and \<open>chan_sendb\<close> always
  return 0, append the value, and when \<open>max_idx\<close> entries are queued already first remove the
  oldest and pass it to the free callback; the channel is ready again afterwards, with every mutex
  released and the thread's lock count restored.
\<close>

theorem chan_send_queue:
  assumes "chan_ready (ch, c)"
  shows "\<exists>ch'. chan_send x (ch, c) = Some (0, ch', c) \<and> chan_sendb x (ch, c) = Some (0, ch', c) \<and>
    chan_ready (ch', c) \<and>
    chan_items ch' = (if length (chan_items ch) < unat (ch_max_idx ch) then chan_items ch else tl (chan_items ch)) @ [x] \<and>
    ch_calls ch' = ch_calls ch @
      (if length (chan_items ch) < unat (ch_max_idx ch) then [] else cb_calls ch [hd (chan_items ch)])"
proof -
  have "chan_sendb x (ch, c) = chan_send x (ch, c)" using assms sendb_eq by (simp add: chan_ready_def)
  with send_spec [OF assms, of x] show ?thesis by (auto split: if_splits)
qed

text \<open>A channel of two slots that has room for one entry, and a thread to run on.\<close>

definition demo_ctx :: cpu_ctx where
  "demo_ctx = \<lparr>c_thread = 0x1000, c_intr = True, c_saved = False, c_claims = None,
     c_lock_count = 0, c_spin_count = 0, c_crit = 0\<rparr>"

definition demo_chan :: chan where
  "demo_chan = the (fst (chan_alloc 0 (0x40, 0x80, 0xC0) [7, 7] 2 0))"

lemma demo_ready: "chan_ready (demo_chan, demo_ctx)" "chan_items demo_chan = []" "ch_max_idx demo_chan = 1"
proof -
  have "chan_alloc 0 (0x40, 0x80, 0xC0) [7, 7] 2 0 = (Some demo_chan, 1)" by (simp add: demo_chan_def chan_alloc_def)
  moreover have "thread_ptr (c_thread demo_ctx)" by (simp add: demo_ctx_def thread_ptr_def MTX_STATE_MASK_def)
  ultimately show "chan_ready (demo_chan, demo_ctx)" "chan_items demo_chan = []" "ch_max_idx demo_chan = 1"
    using alloc_ready [of 2 "[7, 7]" 0 "0x40" "0x80" "0xC0" 0 demo_chan 1 demo_ctx] by auto
qed

theorem chan_send_queue_witness:
  "\<exists>ch'. chan_send 5 (demo_chan, demo_ctx) = Some (0, ch', demo_ctx) \<and> chan_items ch' = [5]"
  using chan_send_queue [OF demo_ready(1), of 5] demo_ready(2,3) by auto

text \<open>
  C11: Channels are first-in first-out: whatever sequence of sends and non-blocking receives runs
  on a freshly allocated channel of at least two slots, the values that left the channel, received
  or dropped, followed by those still queued, are exactly the values sent, in the order of sending.
\<close>

theorem chan_fifo:
  assumes "1 < slots" "length mem = unat slots" "thread_ptr (c_thread c)"
    and "chan_alloc i (a, b, e) mem slots flags = (Some ch, j)"
    and "queue_run chan_q_put chan_q_get ops (ch, c) = (out, s')"
  shows "map out_val out @ chan_items (fst s') = puts_of ops \<and> chan_ready s'"
  using cq.queue_run_fifo [OF _ assms(5)] alloc_ready [OF assms(1,2,4,3)] by simp

theorem chan_fifo_witness:
  "map out_val (fst (queue_run chan_q_put chan_q_get [Put 1, Get, Put 2, Put 3] (demo_chan, demo_ctx))) @
     chan_items (fst (snd (queue_run chan_q_put chan_q_get [Put 1, Get, Put 2, Put 3] (demo_chan, demo_ctx)))) = [1, 2, 3]"
proof -
  have "chan_alloc 0 (0x40, 0x80, 0xC0) [7, 7] 2 0 = (Some demo_chan, 1)" by (simp add: demo_chan_def chan_alloc_def)
  moreover have "thread_ptr (c_thread demo_ctx)" by (simp add: demo_ctx_def thread_ptr_def MTX_STATE_MASK_def)
  ultimately show ?thesis
    using chan_fifo [of 2 "[7, 7]" demo_ctx 0 "0x40" "0x80" "0xC0" 0 demo_chan 1 "[Put 1, Get, Put 2, Put 3]"
        "fst (queue_run chan_q_put chan_q_get [Put 1, Get, Put 2, Put 3] (demo_chan, demo_ctx))"
        "snd (queue_run chan_q_put chan_q_get [Put 1, Get, Put 2, Put 3] (demo_chan, demo_ctx))"] by simp
qed

text \<open>
  \<open>chan_recvn\<close> for \<open>n > 0\<close> takes the oldest \<open>n\<close> values in order when that many are queued and leaves
  the channel ready; when fewer are queued it does not wait but panics, since the waiting on the
  condition variable is commented out and \<open>chan_recv\<close> then asserts that there is data.
\<close>

theorem chan_recvn_takes:
  assumes "chan_ready (ch, c)" "0 < n"
  shows "if n \<le> length (chan_items ch)
    then \<exists>ch'. chan_recvn n True (ch, c) = Some (0, take n (chan_items ch), ch', c) \<and>
      chan_ready (ch', c) \<and> chan_items ch' = drop n (chan_items ch)
    else chan_recvn n True (ch, c) = None"
proof -
  have a: "chan_idle ch" "\<not> chan_closed ch" "thread_ptr (c_thread c)" using assms(1) by (simp_all add: chan_ready_def)
  have lock: "lock_reader (ch, c) = Some (chan_at ch (c_thread c) 1 0 0, ctx_locks c 1)"
    using chan_lock_steps(1) [OF a(1) refl a(3), of 0 0 0] by simp
  have r1: "chan_ready (ch, ctx_locks c 1)" using assms(1) by (simp add: chan_ready_def)
  show ?thesis
  proof (cases "n \<le> length (chan_items ch)")
    case True
    from recvn_loop_spec [OF r1 this] obtain ch' where
      l: "recvn_loop n (chan_at ch (c_thread c) 1 0 0, ctx_locks c 1) =
        Some (0, take n (chan_items ch), chan_at ch' (c_thread c) 1 0 0, ctx_locks c 1)"
      "chan_ready (ch', ctx_locks c 1)" "chan_items ch' = drop n (chan_items ch)" by auto
    have "chan_idle ch'" using l(2) by (simp add: chan_ready_def)
    then have "unlock_reader (chan_at ch' (c_thread c) 1 0 0, ctx_locks c 1) = Some (ch', c)"
      using chan_lock_steps(4) [of ch' "ctx_locks c 1" "c_thread c" 0 0 0] a(3) by simp
    with l lock a(2) assms(2) True show ?thesis by (auto simp: chan_recvn_def chan_ready_def)
  next
    case False
    then have "recvn_loop n (chan_at ch (c_thread c) 1 0 0, ctx_locks c 1) = None"
      using recvn_loop_short [OF r1] by simp
    with lock a(2) assms(2) False show ?thesis by (simp add: chan_recvn_def)
  qed
qed

theorem chan_recvn_takes_witness: "chan_recvn 1 True (demo_chan, demo_ctx) = None"
  using chan_recvn_takes [OF demo_ready(1), of 1] demo_ready(2)
  by (metis One_nat_def less_numeral_extra(1) list.size(3) not_one_le_zero)

text \<open>
  C30: Closing ends: \<open>chan_close\<close> on a ready channel returns 0, calls the free callback exactly
  once for each queued value other than 0, oldest first, and releases its mutexes. Afterwards both
  ways to send, all three ways to receive, waiting and closing fail with -1 and change nothing;
  \<open>chan_free\<close>, which fails with -1 on the open channel, succeeds without calling the callback again.
  Only \<open>chan_set_free_cb\<close>, which does not look at the flag, still succeeds and stores the callback.
\<close>

theorem chan_close_frees:
  assumes "chan_ready (ch, c)"
  shows "\<exists>ch'. chan_close (ch, c) = Some (0, ch', c) \<and> chan_items ch' = [] \<and> chan_idle ch' \<and>
    ch_calls ch' = ch_calls ch @ cb_calls ch (chan_items ch) \<and>
    chan_send x (ch', c) = Some (-1, ch', c) \<and> chan_sendb x (ch', c) = Some (-1, ch', c) \<and>
    chan_recv r (ch', c) = Some (-1, None, ch', c) \<and> chan_recv_noblock r (ch', c) = Some (-1, None, ch', c) \<and>
    chan_recvn n r (ch', c) = Some (-1, [], ch', c) \<and> chan_set_free_cb ch' fn = (0, ch'\<lparr>ch_free_cb := fn\<rparr>) \<and>
    chan_wait (ch', c) = Some (-1, ch', c) \<and> chan_close (ch', c) = Some (-1, ch', c) \<and>
    chan_free ch = Some (-1, ch) \<and> chan_free ch' = Some (0, ch'\<lparr>ch_buffer := []\<rparr>)"
proof -
  have a: "chan_ok ch" "chan_idle ch" "\<not> chan_closed ch" "thread_ptr (c_thread c)" using assms by (simp_all add: chan_ready_def)
  define ch1 where "ch1 = ch\<lparr>ch_flags := ch_flags ch OR CHAN_CLOSED\<rparr>"
  have c1: "chan_ok ch1" "chan_items ch1 = chan_items ch" "chan_idle ch1" "ch_calls ch1 = ch_calls ch" "cb_calls ch1 = cb_calls ch"
    using a by (auto simp: ch1_def chan_ok_def chan_size_def chan_items_def chan_count_def chan_idle_def cb_calls_def)
  from drain_spec [OF c1(1), of "c_thread c"] obtain ch' where
    d: "\<forall>r w l. drain (chan_at ch1 (c_thread c) r w l) = Some (chan_at ch' (c_thread c) r w l)"
    and ch': "chan_ok ch'" "chan_items ch' = []" "same_rest ch1 ch'"
      "ch_calls ch' = ch_calls ch @ cb_calls ch (chan_items ch)" by (auto simp: c1)
  have closed: "chan_closed ch'"
    using ch'(3) or_and_self [of "ch_flags ch" CHAN_CLOSED]
    by (simp add: same_rest_def chan_closed_def ch1_def) (simp add: CHAN_CLOSED_def)
  have idle: "chan_idle ch'" using ch'(3) c1(3) by (simp add: same_rest_def)
  have at: "(chan_at ch t r w l)\<lparr>ch_flags := ch_flags ch OR CHAN_CLOSED\<rparr> = chan_at ch1 t r w l" for t r w l
    by (simp add: chan_at_def ch1_def)
  have "chan_close (ch, c) = Some (0, ch', c)"
    using a(3) idle chan_lock_steps(2) [OF a(2) refl a(4), of 0 0 0] chan_lock_steps(3) [of ch "ctx_locks c 1" _ 0 0 1] a
      chan_lock_steps(6) [of ch' "ctx_locks c 2" _ 0 0 1] chan_lock_steps(5) [of ch' "ctx_locks c 1" _ 0 0 0] d
    by (simp add: chan_close_def at)
  moreover have "drain ch' = Some ch'" using chan_items_empty [OF ch'(1)] ch'(2) by (subst drain.simps) simp
  ultimately show ?thesis using ch' idle closed a(3)
    by (simp add: chan_send_def chan_sendb_def chan_recv_def chan_recv_noblock_def chan_recvn_def chan_set_free_cb_def
        chan_wait_def chan_close_def chan_free_def)
qed

theorem chan_close_frees_witness:
  "\<exists>ch'. chan_close (demo_chan, demo_ctx) = Some (0, ch', demo_ctx) \<and> chan_send 5 (ch', demo_ctx) = Some (-1, ch', demo_ctx)"
  using chan_close_frees [OF demo_ready(1), of 5] by blast

text \<open>
  C31: A channel of one slot never delivers: \<open>chan_send\<close> on it returns 0 but drops, and passes to the
  free callback, the very value it was given, and the channel is empty before and after. And on
  every channel with nothing queued \<open>chan_wait\<close> returns 0 with the reader mutex still held.
\<close>

theorem chan_single_slot_drops:
  assumes "chan_ok ch" "chan_idle ch" "\<not> chan_closed ch" "thread_ptr (c_thread c)" "chan_items ch = []"
  shows "(ch_max_idx ch = 0 \<longrightarrow> (\<exists>ch'. chan_send x (ch, c) = Some (0, ch', c) \<and> chan_items ch' = [] \<and>
      ch_calls ch' = ch_calls ch @ cb_calls ch [x])) \<and>
    (\<exists>ch' c'. chan_wait (ch, c) = Some (0, ch', c') \<and> mtx_lock_owner (m_lock (ch_reader ch')) = c_thread c \<and>
      c_lock_count c' = c_lock_count c + 1)"
proof -
  have e: "ch_read_idx ch = ch_write_idx ch" using chan_items_empty [OF assms(1)] assms(5) by simp
  have "\<exists>ch'. chan_send x (ch, c) = Some (0, ch', c) \<and> chan_items ch' = [] \<and> ch_calls ch' = ch_calls ch @ cb_calls ch [x]"
    if m: "ch_max_idx ch = 0"
  proof -
    have i: "ch_read_idx ch = 0" "ch_write_idx ch = 0" "length (ch_buffer ch) = 1"
      using assms(1) m by (simp_all add: chan_ok_def chan_size_def unat_eq_0)
    then obtain y where b: "ch_buffer ch = [y]" by (auto simp: length_Suc_conv)
    have "chan_put ch x = Some (cleanup_data x (ch\<lparr>ch_buffer := [0], ch_read_idx := 0, ch_write_idx := 0\<rparr>))"
      using i b m by (simp add: chan_put_def chan_take_def get_next_index_def load_def store_def Let_def)
    moreover have "chan_items (cleanup_data x (ch\<lparr>ch_buffer := [0], ch_read_idx := 0, ch_write_idx := 0\<rparr>)) = []"
      using cleanup_rest(2) i m by (simp add: chan_items_def chan_count_def chan_size_def)
    ultimately show ?thesis using send_eq [OF assms(2) refl assms(4), of 0 x 0] assms(3) cleanup_rest(4)
      by (simp add: cb_calls_def)
  qed
  moreover have "chan_wait (ch, c) = Some (0, chan_at ch (c_thread c) 1 0 0, ctx_locks c 1)"
    using assms e chan_lock_steps(1) [of ch c _ 0 0 0] chan_lock_steps(3) [of ch "ctx_locks c 1" _ 0 1 0]
      chan_lock_steps(6) [of ch "ctx_locks c 2" _ 0 1 0] by (simp add: chan_wait_def)
  ultimately show ?thesis using assms(4) by (simp add: chan_at_def held_def lock_word_owner ctx_locks_def)
qed

theorem chan_single_slot_drops_witness:
  "\<exists>ch ch'. chan_alloc 0 (0x40, 0x80, 0xC0) [7] 1 0 = (Some ch, 1) \<and>
     chan_send 5 (ch, demo_ctx) = Some (0, ch', demo_ctx) \<and> chan_items ch' = []"
proof -
  obtain ch where ch: "chan_alloc 0 (0x40, 0x80, 0xC0) [7] 1 0 = (Some ch, 1)" by (simp add: chan_alloc_def)
  have "thread_ptr (c_thread demo_ctx)" by (simp add: demo_ctx_def thread_ptr_def MTX_STATE_MASK_def)
  then show ?thesis
    using ch alloc_spec [OF _ _ ch] chan_single_slot_drops [of ch demo_ctx 5] by auto
qed

end
