(* ===== verification/Page_Cache.thy ===== *)
theory Page_Cache
  imports Interfaces "HOL-Library.Multiset"
begin

text \<open>
  The page cache, \<^verbatim>\<open>kernel/mm/pgcache.c\<close>, with the reference counts of
  \<^verbatim>\<open>include/kernel/ref.h\<close> it keeps on pages. The cache is a radix tree of fanout 16 whose leaves
  hold page pointers. A node is owned by the one slot that points to it, so the tree is a datatype
  and a node pointer is the path of slot indices from the root; a page pointer is a word, 0 for
  NULL. The page counts and the pages returned to the frame allocator are an explicit state.
\<close>

section \<open>Reference counts\<close>

text \<open>A \<open>refcount_t\<close> is an \<open>int\<close> on which the atomic operations wrap: it is kept at its 32 bits.\<close>

record page_refs =
  pr_count :: "u64 \<Rightarrow> u32"
  pr_freed :: "u64 list"

definition ref_get :: "u32 \<Rightarrow> u32" where
  "ref_get r = r + 1"

definition ref_put :: "u32 \<Rightarrow> bool \<times> u32" where
  "ref_put r = (r = 1, r - 1)"

definition getref :: "u64 \<Rightarrow> page_refs \<Rightarrow> page_refs" where
  "getref p w = (if p \<noteq> 0 then w\<lparr>pr_count := (pr_count w)(p := ref_get (pr_count w p))\<rparr> else w)"

text \<open>\<open>putref\<close> with the destructor \<open>fa_free_page\<close>, whose calls are recorded.\<close>

definition drop_pages :: "u64 \<Rightarrow> page_refs \<Rightarrow> page_refs" where
  "drop_pages p w = (if p = 0 then w
     else case ref_put (pr_count w p) of (final, r) \<Rightarrow>
       w\<lparr>pr_count := (pr_count w)(p := r), pr_freed := pr_freed w @ (if final then [p] else [])\<rparr>)"

section \<open>The tree\<close>

datatype pgcache_node =
    Leaf "u64 list" u16
  | Inner "pgcache_node option list"

record pgcache =
  pc_order :: u16
  pc_bits_per_lvl :: u16
  pc_pg_size :: u32
  pc_max_capacity :: u64
  pc_refcount :: u32
  pc_root :: pgcache_node
  pc_leaf_nodes :: "nat list list"

definition PGCACHE_FANOUT :: nat where "PGCACHE_FANOUT = 16"

text \<open>\<open>63 - __builtin_clzll(x)\<close>, the number of the highest set bit; undefined on 0.\<close>

definition log2 :: "u64 \<Rightarrow> nat option" where
  "log2 x = find (bit x) (rev [0..<64])"

text \<open>A zeroed node \<open>d\<close> levels above the leaves, and the node a pointer leads to.\<close>

definition new_node :: "nat \<Rightarrow> pgcache_node" where
  "new_node d = (if d = 0 then Leaf (replicate PGCACHE_FANOUT 0) 0 else Inner (replicate PGCACHE_FANOUT None))"

fun node_at :: "pgcache_node \<Rightarrow> nat list \<Rightarrow> pgcache_node option" where
  "node_at n [] = Some n"
| "node_at (Inner slots) (i # p) = (case load slots (int i) of Some (Some c) \<Rightarrow> node_at c p | _ \<Rightarrow> None)"
| "node_at (Leaf slots cnt) (i # p) = None"

fun set_node :: "pgcache_node \<Rightarrow> nat list \<Rightarrow> pgcache_node \<Rightarrow> pgcache_node" where
  "set_node n [] m = m"
| "set_node (Inner slots) (i # p) m = (case load slots (int i) of
     Some (Some c) \<Rightarrow> Inner (slots[i := Some (set_node c p m)]) | _ \<Rightarrow> Inner slots)"
| "set_node (Leaf slots cnt) (i # p) m = Leaf slots cnt"

text \<open>
  The descent, \<open>d\<close> levels above the leaves: the node with what was allocated below it, the leaves
  that were added, and the leaf with the slot index, or none where a node is missing.
\<close>

fun lookup_loop :: "u16 \<Rightarrow> bool \<Rightarrow> nat \<Rightarrow> u64 \<Rightarrow> pgcache_node \<Rightarrow>
    (pgcache_node \<times> nat list list \<times> (nat list \<times> nat) option) option" where
  "lookup_loop bits ins 0 off node = do {
     let idx = unat (off AND (2 ^ unat bits - 1));
     kassert (idx < PGCACHE_FANOUT);
     Some (node, [], Some ([], idx)) }"
| "lookup_loop bits ins (Suc d) off (Leaf slots cnt) = None"
| "lookup_loop bits ins (Suc d) off (Inner slots) = do {
     let idx = unat (off AND (2 ^ unat bits - 1));
     kassert (idx < PGCACHE_FANOUT);
     child \<leftarrow> load slots (int idx);
     if child = None \<and> \<not> ins then Some (Inner slots, [], None)
     else do {
       (child', leaves, r) \<leftarrow> lookup_loop bits ins d (drop_bit (unat bits) off)
         (case child of Some c \<Rightarrow> c | None \<Rightarrow> new_node d);
       Some (Inner (slots[idx := Some child']),
         map ((#) idx) ((if child = None \<and> d = 0 then [[]] else []) @ leaves),
         map_option (\<lambda>(p, i). (idx # p, i)) r) } }"

definition internal_lookup_leaf ::
  "pgcache \<Rightarrow> u64 \<Rightarrow> bool \<Rightarrow> (pgcache \<times> (nat list \<times> nat) option) option" where
  "internal_lookup_leaf tree off ins = do {
     kassert (off < pc_max_capacity tree);
     k \<leftarrow> log2 (ucast (pc_pg_size tree));
     (root, leaves, r) \<leftarrow> lookup_loop (pc_bits_per_lvl tree) ins (unat (pc_order tree)) (drop_bit k off) (pc_root tree);
     Some (tree\<lparr>pc_root := root, pc_leaf_nodes := pc_leaf_nodes tree @ leaves\<rparr>, r) }"

section \<open>Visiting\<close>

text \<open>\<open>i << n\<close> on a nonnegative \<open>int\<close>: undefined when the result does not fit.\<close>

definition int_shl :: "nat \<Rightarrow> nat \<Rightarrow> u64 option" where
  "int_shl i n = (if n < 32 \<and> i * 2 ^ n < 2 ^ 31 then Some (of_nat (i * 2 ^ n)) else None)"

definition MAX_STACK_SIZE :: nat where "MAX_STACK_SIZE = 64"

text \<open>
  One round of the loop over the explicit stack, whose top comes first; an entry is a node pointer,
  the next slot and the level. The callback may replace the slot's pointer. Beside the stack the
  loop carries the tree, the nodes released with \<open>kfree\<close> in order and the callback's state.
\<close>

type_synonym 's visit_state = "(nat list \<times> nat \<times> nat) list \<times> pgcache_node \<times> nat list list \<times> 's"

definition visit_slot :: "(u64 \<Rightarrow> u64 \<Rightarrow> 's \<Rightarrow> u64 \<times> 's) \<Rightarrow> nat \<Rightarrow> u64 \<Rightarrow> nat list \<Rightarrow> nat \<Rightarrow> nat \<Rightarrow>
    's visit_state \<Rightarrow> 's visit_state option" where
  "visit_slot fn order slot_start p i level = (\<lambda>(stack, root, freed, s). do {
     node \<leftarrow> node_at root p;
     case node of
       Inner slots \<Rightarrow> do {
         child \<leftarrow> load slots (int i);
         if child = None then Some (stack, root, freed, s)
         else do {
           kassert (level < order);
           kassert (length stack < MAX_STACK_SIZE);
           Some ((p @ [i], 0, Suc level) # stack, root, freed, s) } }
     | Leaf slots cnt \<Rightarrow> do {
         page \<leftarrow> load slots (int i);
         if page = 0 then Some (stack, root, freed, s)
         else do {
           kassert (\<not> level < order);
           let r = fn page slot_start s;
           Some (stack, set_node root p (Leaf (slots[i := fst r]) cnt), freed, snd r) } } })"

definition visit_step :: "(u64 \<Rightarrow> u64 \<Rightarrow> 's \<Rightarrow> u64 \<times> 's) \<Rightarrow> nat \<Rightarrow> nat \<Rightarrow> u64 \<Rightarrow> u64 \<Rightarrow> bool \<Rightarrow>
    's visit_state \<Rightarrow> 's visit_state option" where
  "visit_step fn bits order start_off end_off free = (\<lambda>(stack, root, freed, s). case stack of
     [] \<Rightarrow> None
   | (p, i, level) # rest \<Rightarrow>
       if i \<ge> PGCACHE_FANOUT then Some (rest, root, (if free then freed @ [p] else freed), s)
       else do {
         slot_start \<leftarrow> int_shl i (bits * (order - level));
         width \<leftarrow> shl64 1 (bits * (order - level));
         let slot_end = slot_start + width;
         if slot_end \<le> start_off \<or> slot_start \<ge> end_off then Some ((p, Suc i, level) # rest, root, freed, s)
         else visit_slot fn order slot_start p i level ((p, Suc i, level) # rest, root, freed, s) })"

partial_function (option) visit_loop :: "(u64 \<Rightarrow> u64 \<Rightarrow> 's \<Rightarrow> u64 \<times> 's) \<Rightarrow> nat \<Rightarrow> nat \<Rightarrow> u64 \<Rightarrow> u64 \<Rightarrow> bool \<Rightarrow>
    's visit_state \<Rightarrow> (pgcache_node \<times> nat list list \<times> 's) option" where
  "visit_loop fn bits order start_off end_off free st = (if fst st = [] then Some (snd st)
     else do {
       st' \<leftarrow> visit_step fn bits order start_off end_off free st;
       visit_loop fn bits order start_off end_off free st' })"

definition internal_visit_pages_iter :: "pgcache \<Rightarrow> u64 \<Rightarrow> u64 \<Rightarrow> bool \<Rightarrow> nat \<Rightarrow> (u64 \<Rightarrow> u64 \<Rightarrow> 's \<Rightarrow> u64 \<times> 's) \<Rightarrow> 's \<Rightarrow>
    (pgcache_node \<times> nat list list \<times> 's) option" where
  "internal_visit_pages_iter cache start_off end_off0 free level fn s =
     (let max_off = pc_max_capacity cache; end_off = (if end_off0 = 0 then max_off else min end_off0 max_off) in
      if start_off \<ge> end_off then Some (pc_root cache, [], s)
      else visit_loop fn (unat (pc_bits_per_lvl cache)) (unat (pc_order cache)) start_off end_off free
        ([([], 0, level)], pc_root cache, [], s))"

section \<open>The interface\<close>

definition pgcache_alloc :: "u16 \<Rightarrow> u32 \<Rightarrow> pgcache option" where
  "pgcache_alloc order pg_size = do {
     bits \<leftarrow> log2 (of_nat PGCACHE_FANOUT);
     pages \<leftarrow> shl64 1 ((unat order + 1) * bits);
     Some \<lparr>pc_order = order, pc_bits_per_lvl = of_nat bits, pc_pg_size = pg_size,
       pc_max_capacity = pages * ucast pg_size, pc_refcount = 1, pc_root = new_node (unat order),
       pc_leaf_nodes = (if order = 0 then [[]] else [])\<rparr> }"

text \<open>The callback with which the last reference releases every page.\<close>

definition drop_page_cb :: "u64 \<Rightarrow> u64 \<Rightarrow> page_refs \<Rightarrow> u64 \<times> page_refs" where
  "drop_page_cb page off w = (0, drop_pages page w)"

text \<open>The cache afterwards, or none once it has been released, and the nodes that were freed.\<close>

definition pgcache_free :: "pgcache \<Rightarrow> page_refs \<Rightarrow> (pgcache option \<times> nat list list \<times> page_refs) option" where
  "pgcache_free cache w = (case ref_put (pc_refcount cache) of (final, r) \<Rightarrow>
     if final then do {
       (root, freed, w') \<leftarrow> internal_visit_pages_iter cache 0 (pc_max_capacity cache) True 0 drop_page_cb w;
       Some (None, freed, w') }
     else Some (Some (cache\<lparr>pc_refcount := r\<rparr>), [], w))"

definition pgcache_lookup :: "pgcache \<Rightarrow> u64 \<Rightarrow> page_refs \<Rightarrow> (u64 \<times> page_refs) option" where
  "pgcache_lookup cache off w = (if off \<ge> pc_max_capacity cache then Some (0, w)
     else do {
       (cache', r) \<leftarrow> internal_lookup_leaf cache off False;
       case r of None \<Rightarrow> Some (0, w)
       | Some (p, idx) \<Rightarrow> (case node_at (pc_root cache') p of
           Some (Leaf slots cnt) \<Rightarrow> do { page \<leftarrow> load slots (int idx); Some (page, getref page w) }
         | _ \<Rightarrow> None) })"

text \<open>\<open>out_old\<close> tells whether the caller takes the page that was replaced.\<close>

definition pgcache_insert ::
  "pgcache \<Rightarrow> u64 \<Rightarrow> u64 \<Rightarrow> bool \<Rightarrow> page_refs \<Rightarrow> (pgcache \<times> u64 option \<times> page_refs) option" where
  "pgcache_insert cache off page out_old w = (if off \<ge> pc_max_capacity cache then Some (cache, None, drop_pages page w)
     else do {
       (cache', r) \<leftarrow> internal_lookup_leaf cache off True;
       (p, idx) \<leftarrow> r;
       case node_at (pc_root cache') p of
         Some (Leaf slots cnt) \<Rightarrow> do {
           old \<leftarrow> load slots (int idx);
           let cache'' = cache'\<lparr>pc_root := set_node (pc_root cache') p (Leaf (slots[idx := page]) (cnt + 1))\<rparr>;
           Some (if out_old then (cache'', Some old, w) else (cache'', None, drop_pages old w)) }
       | _ \<Rightarrow> None })"

definition pgcache_remove ::
  "pgcache \<Rightarrow> u64 \<Rightarrow> bool \<Rightarrow> page_refs \<Rightarrow> (pgcache \<times> u64 option \<times> page_refs) option" where
  "pgcache_remove cache off out_page w = (if off \<ge> pc_max_capacity cache then Some (cache, None, w)
     else do {
       (cache', r) \<leftarrow> internal_lookup_leaf cache off False;
       case r of None \<Rightarrow> Some (cache, None, w)
       | Some (p, idx) \<Rightarrow> (case node_at (pc_root cache') p of
           Some (Leaf slots cnt) \<Rightarrow> do {
             page \<leftarrow> load slots (int idx);
             let cache'' = cache'\<lparr>pc_root := set_node (pc_root cache') p (Leaf (slots[idx := 0]) (cnt - 1))\<rparr>;
             Some (if page = 0 then (cache, None, w)
                   else if out_page then (cache'', Some page, w)
                   else (cache'', None, drop_pages page w)) }
         | _ \<Rightarrow> None) })"

definition pgcache_visit_pages :: "pgcache \<Rightarrow> u64 \<Rightarrow> u64 \<Rightarrow> (u64 \<Rightarrow> u64 \<Rightarrow> 's \<Rightarrow> u64 \<times> 's) \<Rightarrow> 's \<Rightarrow> (pgcache \<times> 's) option" where
  "pgcache_visit_pages cache start_off end_off fn s = do {
     (root, freed, s') \<leftarrow> internal_visit_pages_iter cache start_off end_off False 0 fn s;
     Some (cache\<lparr>pc_root := root\<rparr>, s') }"

text \<open>The multiplication wraps, so the loop need not end.\<close>

partial_function (option) size_to_order_loop :: "u64 \<Rightarrow> u64 \<Rightarrow> u64 \<Rightarrow> u64 option" where
  "size_to_order_loop total_size sz order = (if sz < total_size
     then size_to_order_loop total_size (sz * of_nat PGCACHE_FANOUT) (order + 1) else Some order)"

definition pgcache_size_to_order :: "u64 \<Rightarrow> u64 \<Rightarrow> u64 option" where
  "pgcache_size_to_order total_size pg_size = size_to_order_loop total_size pg_size 0"

section \<open>Tree accesses\<close>

lemma fanout [simp]: "PGCACHE_FANOUT = 16"
  by (simp add: PGCACHE_FANOUT_def)

text \<open>A tree of \<open>d\<close> levels above its leaves.\<close>

fun wf_node :: "nat \<Rightarrow> pgcache_node \<Rightarrow> bool" where
  "wf_node 0 (Leaf slots cnt) \<longleftrightarrow> length slots = 16"
| "wf_node (Suc d) (Inner slots) \<longleftrightarrow> length slots = 16 \<and> list_all (\<lambda>c. case c of None \<Rightarrow> True | Some n \<Rightarrow> wf_node d n) slots"
| "wf_node _ _ \<longleftrightarrow> False"

text \<open>The page pointer stored for a page number; the lowest four bits select the slot of the root.\<close>

fun slot_of :: "nat \<Rightarrow> pgcache_node \<Rightarrow> nat \<Rightarrow> u64" where
  "slot_of 0 (Leaf slots cnt) n = slots ! (n mod 16)"
| "slot_of (Suc d) (Inner slots) n = (case slots ! (n mod 16) of None \<Rightarrow> 0 | Some c \<Rightarrow> slot_of d c (n div 16))"
| "slot_of _ _ n = 0"

lemma wf_new_node: "wf_node d (new_node d)"
  by (cases d) (auto simp: new_node_def list_all_length)

lemma slot_of_new_node: "slot_of d (new_node d) n = 0"
  by (cases d) (simp_all add: new_node_def)

lemma node_at_append: "node_at n (p @ q) = (case node_at n p of None \<Rightarrow> None | Some m \<Rightarrow> node_at m q)"
  by (induction n p rule: node_at.induct) (auto split: option.splits)

lemma node_at_set: "node_at n p \<noteq> None \<Longrightarrow> node_at (set_node n p m) p = Some m"
  by (induction n p m rule: set_node.induct) (auto simp: load_def split: option.splits if_splits)

lemma set_node_set: "set_node (set_node n p m) p m' = set_node n p m'"
  by (induction n p m rule: set_node.induct) (auto simp: load_def split: option.splits)

lemma set_node_same: "node_at n p = Some m \<Longrightarrow> set_node n p m = n"
  by (induction n p m rule: set_node.induct) (auto simp: load_def list_update_same_conv split: option.splits if_splits)

lemma set_node_append:
  "node_at n p = Some m \<Longrightarrow> set_node n (p @ q) k = set_node n p (set_node m q k)"
  by (induction n p k arbitrary: m rule: set_node.induct) (auto simp: load_def split: option.splits if_splits)

lemma wf_inner_child:
  "wf_node (Suc d) (Inner slots) \<Longrightarrow> i < 16 \<Longrightarrow> slots ! i = Some c \<Longrightarrow> wf_node d c"
  by (auto simp: list_all_length)

lemma wf_inner_update:
  "wf_node (Suc d) (Inner slots) \<Longrightarrow> wf_node d c \<Longrightarrow> wf_node (Suc d) (Inner (slots[i := Some c]))"
  by (cases "i < 16") (auto simp: list_all_length nth_list_update split: option.splits)

lemma wf_Suc_cases:
  assumes "wf_node (Suc d) n"
  obtains slots where "n = Inner slots" "length slots = 16"
  using assms by (cases n) auto

lemma wf_0_cases:
  assumes "wf_node 0 n"
  obtains slots cnt where "n = Leaf slots cnt" "length slots = 16"
  using assms by (cases n) auto

section \<open>The descent\<close>

lemma off_index: "unat ((off :: u64) AND (2 ^ unat (4 :: u16) - 1)) = unat off mod 16"
proof -
  have "(2 ^ 4 - 1 :: u64) = mask 4" by (simp add: mask_eq_exp_minus_1)
  then show ?thesis using unat_and_mask [of off 4] by simp
qed

lemma off_shift: "unat (drop_bit 4 (off :: u64)) = unat off div 16"
  by (simp add: drop_bit_eq_div unat_div)

lemma page_digits:
  "(n :: nat) mod 16 ^ Suc (Suc d) = m mod 16 ^ Suc (Suc d) \<longleftrightarrow>
    n mod 16 = m mod 16 \<and> (n div 16) mod 16 ^ Suc d = (m div 16) mod 16 ^ Suc d"
proof -
  define q :: nat where "q = 16 ^ Suc d"
  have "k mod (16 * q) = 16 * (k div 16 mod q) + k mod 16" for k by (rule mod_mult2_eq)
  moreover have "16 * a + r = 16 * b + t \<longleftrightarrow> r = t \<and> a = b" if "r < 16" "t < 16" for a b r t :: nat
    using that by presburger
  ultimately have "n mod (16 * q) = m mod (16 * q) \<longleftrightarrow> n mod 16 = m mod 16 \<and> n div 16 mod q = m div 16 mod q"
    by simp
  then show ?thesis by (simp add: q_def)
qed

text \<open>What the descent gives: the leaf that holds the page number's slot.\<close>

definition leaf_for :: "nat \<Rightarrow> nat \<Rightarrow> pgcache_node \<Rightarrow> nat list \<Rightarrow> nat \<Rightarrow> bool" where
  "leaf_for d m node p idx \<longleftrightarrow> idx < 16 \<and> (\<exists>slots cnt. node_at node p = Some (Leaf slots cnt) \<and> length slots = 16 \<and>
     slot_of d node m = slots ! idx \<and>
     (\<forall>x cnt'. wf_node d (set_node node p (Leaf (slots[idx := x]) cnt')) \<and>
        (\<forall>n. slot_of d (set_node node p (Leaf (slots[idx := x]) cnt')) n =
          (if n mod 16 ^ Suc d = m mod 16 ^ Suc d then x else slot_of d node n))))"

lemma leaf_for_0:
  assumes "wf_node 0 node"
  shows "leaf_for 0 m node [] (m mod 16)"
  using assms by (rule wf_0_cases) (auto simp: leaf_for_def nth_list_update)

lemma leaf_for_Suc:
  assumes "length slots = 16" "leaf_for d (m div 16) c p idx" "wf_node (Suc d) (Inner (slots[m mod 16 := Some c]))"
  shows "leaf_for (Suc d) m (Inner (slots[m mod 16 := Some c])) ((m mod 16) # p) idx"
proof -
  let ?i = "m mod 16"
  from assms(2) obtain ls cnt where l: "idx < 16" "node_at c p = Some (Leaf ls cnt)" "length ls = 16"
    "slot_of d c (m div 16) = ls ! idx"
    "\<And>x cnt'. wf_node d (set_node c p (Leaf (ls[idx := x]) cnt'))"
    "\<And>x cnt' n. slot_of d (set_node c p (Leaf (ls[idx := x]) cnt')) n =
       (if n mod 16 ^ Suc d = (m div 16) mod 16 ^ Suc d then x else slot_of d c n)"
    unfolding leaf_for_def by blast
  have i: "?i < 16" by simp
  have set: "set_node (Inner (slots[?i := Some c])) (?i # p) k = Inner (slots[?i := Some (set_node c p k)])" for k
    using assms(1) by (simp add: load_def)
  have wf: "wf_node (Suc d) (Inner (slots[?i := Some (set_node c p (Leaf (ls[idx := x]) cnt'))]))" for x cnt'
    using wf_inner_update [OF assms(3) l(5), of ?i x cnt'] by simp
  have slot: "slot_of (Suc d) (Inner (slots[?i := Some (set_node c p (Leaf (ls[idx := x]) cnt'))])) n =
      (if n mod 16 ^ Suc (Suc d) = m mod 16 ^ Suc (Suc d) then x else slot_of (Suc d) (Inner (slots[?i := Some c])) n)" for x cnt' n
    unfolding page_digits using assms(1) l(6) by (auto simp: nth_list_update simp del: power_Suc)
  show ?thesis
    unfolding leaf_for_def set
    using l(1-4) wf slot assms(1) i by (intro conjI exI [of _ ls] exI [of _ cnt]) (auto simp: load_def)
qed

lemma lookup_loop_spec:
  assumes "wf_node d node"
  shows "\<exists>node' leaves r. lookup_loop 4 ins d off node = Some (node', leaves, r) \<and> wf_node d node' \<and>
    (\<forall>n. slot_of d node' n = slot_of d node n) \<and> (\<not> ins \<longrightarrow> node' = node \<and> leaves = []) \<and>
    (case r of None \<Rightarrow> \<not> ins \<and> (\<forall>n. n mod 16 ^ Suc d = unat off mod 16 ^ Suc d \<longrightarrow> slot_of d node n = 0)
     | Some (p, idx) \<Rightarrow> leaf_for d (unat off) node' p idx)"
  using assms
proof (induction d arbitrary: off node)
  case 0
  then show ?case using leaf_for_0 [OF 0, of "unat off"] by (simp add: off_index [simplified])
next
  case (Suc d)
  from Suc.prems obtain slots where node: "node = Inner slots" "length slots = 16" by (rule wf_Suc_cases)
  define i where "i = unat off mod 16"
  have i: "i < 16" by (simp add: i_def)
  define c where "c = (case slots ! i of Some c \<Rightarrow> c | None \<Rightarrow> new_node d)"
  show ?case
  proof (cases "slots ! i = None \<and> \<not> ins")
    case True
    have "slot_of (Suc d) node n = 0" if "n mod 16 ^ Suc (Suc d) = unat off mod 16 ^ Suc (Suc d)" for n
      using that True unfolding page_digits by (simp add: node i_def)
    then show ?thesis using True node i Suc.prems by (simp add: off_index [simplified] flip: i_def)
  next
    case False
    have "wf_node d c" using Suc.prems node i wf_new_node wf_inner_child by (auto simp: c_def split: option.splits)
    from Suc.IH [OF this, of "drop_bit 4 off", unfolded off_shift] obtain c' leaves r where
      l: "lookup_loop 4 ins d (drop_bit 4 off) c = Some (c', leaves, r)" and wf: "wf_node d c'"
      and same: "\<And>n. slot_of d c' n = slot_of d c n" and ro: "\<not> ins \<Longrightarrow> c' = c \<and> leaves = []"
      and r: "case r of None \<Rightarrow> \<not> ins \<and> (\<forall>n. n mod 16 ^ Suc d = unat off div 16 mod 16 ^ Suc d \<longrightarrow> slot_of d c n = 0)
       | Some (p, idx) \<Rightarrow> leaf_for d (unat off div 16) c' p idx"
      by blast
    define node' where "node' = Inner (slots[i := Some c'])"
    have run: "lookup_loop 4 ins (Suc d) off node = Some (node',
        map ((#) i) ((if slots ! i = None \<and> d = 0 then [[]] else []) @ leaves), map_option (\<lambda>(p, j). (i # p, j)) r)"
      using False i node l by (auto simp: off_index [simplified] node'_def c_def simp flip: i_def)
    have wf': "wf_node (Suc d) node'" using wf_inner_update Suc.prems wf by (simp add: node'_def node(1))
    have same': "slot_of (Suc d) node' n = slot_of (Suc d) node n" for n
      using same slot_of_new_node node(2) i by (auto simp: node'_def node(1) nth_list_update c_def split: option.splits)
    have ro': "node' = node" if "\<not> ins"
      using that False ro [OF that] by (auto simp: node'_def node(1) c_def list_update_same_conv node(2) i)
    show ?thesis
    proof (cases r)
      case None
      have "slot_of (Suc d) node n = 0" if "n mod 16 ^ Suc (Suc d) = unat off mod 16 ^ Suc (Suc d)" for n
        using that r None False unfolding page_digits by (auto simp: node c_def i_def)
      then show ?thesis using None run wf' same' r ro' ro False by (intro exI conjI) (auto split: if_splits)
    next
      case (Some a)
      then obtain p idx where a: "r = Some (p, idx)" by (cases a) simp
      then have "leaf_for (Suc d) (unat off) node' (i # p) idx"
        using leaf_for_Suc [OF node(2), of d "unat off" c' p idx] r wf' by (simp add: node'_def i_def)
      then show ?thesis using a run wf' same' ro' ro False by (intro exI conjI) (auto split: if_splits)
    qed
  qed
qed

section \<open>Well-formed caches\<close>

lemma log2_exp: "k < 64 \<Longrightarrow> log2 (2 ^ k) = Some k"
  unfolding log2_def find_Some_iff
  by (rule exI [of _ "63 - k"]) (auto simp: rev_nth bit_exp_iff)

lemma ucast_exp_32: "k < 32 \<Longrightarrow> ucast (2 ^ k :: u32) = (2 ^ k :: u64)"
  by (rule bit_word_eqI) (auto simp: bit_unsigned_iff bit_exp_iff)

text \<open>
  \<open>cache_ok k c\<close>: pages of \<open>2^k\<close> bytes, the capacity fits 64 bits, and the tree has the depth the
  order says. \<open>page_no\<close> is the page an offset lies in and \<open>cached\<close> the page stored for it.
\<close>

definition cache_ok :: "nat \<Rightarrow> pgcache \<Rightarrow> bool" where
  "cache_ok k c \<longleftrightarrow> k < 32 \<and> pc_pg_size c = 2 ^ k \<and> pc_bits_per_lvl c = 4 \<and> 4 * Suc (unat (pc_order c)) + k < 64 \<and>
     pc_max_capacity c = 2 ^ (4 * Suc (unat (pc_order c)) + k) \<and> wf_node (unat (pc_order c)) (pc_root c)"

definition page_no :: "nat \<Rightarrow> u64 \<Rightarrow> nat" where
  "page_no k off = unat off div 2 ^ k"

definition cached :: "pgcache \<Rightarrow> nat \<Rightarrow> u64" where
  "cached c n = slot_of (unat (pc_order c)) (pc_root c) n"

lemma capacity_unat: "cache_ok k c \<Longrightarrow> unat (pc_max_capacity c) = 16 ^ Suc (unat (pc_order c)) * 2 ^ k"
proof -
  assume "cache_ok k c"
  then have "unat (pc_max_capacity c) = 2 ^ (4 * Suc (unat (pc_order c)) + k)" by (simp add: cache_ok_def unat_exp64)
  then show ?thesis by (simp add: power_add power_mult)
qed

lemma page_no_less:
  assumes "cache_ok k c" "off < pc_max_capacity c"
  shows "page_no k off < 16 ^ Suc (unat (pc_order c))"
proof -
  have "unat off < 16 ^ Suc (unat (pc_order c)) * 2 ^ k"
    using assms capacity_unat by (simp add: word_less_nat_alt)
  then show ?thesis unfolding page_no_def by (rule less_mult_imp_div_less)
qed

lemma unat_drop_bit: "unat (drop_bit k (off :: u64)) = unat off div 2 ^ k"
proof (cases "k < 64")
  case True
  then show ?thesis by (simp add: drop_bit_eq_div unat_div unat_exp64)
next
  case False
  have "unat off < 2 ^ 64" using unsigned_less [of off] by simp
  also have "(2 :: nat) ^ 64 \<le> 2 ^ k" using False by (intro power_increasing) auto
  finally have "unat off div 2 ^ k = 0" by simp
  moreover have "drop_bit k off = 0" using False by (intro bit_word_eqI) (simp add: bit_drop_bit_eq)
  ultimately show ?thesis by simp
qed

lemma lookup_leaf_spec:
  assumes "cache_ok k c" "off < pc_max_capacity c"
  shows "\<exists>c' r. internal_lookup_leaf c off ins = Some (c', r) \<and> cache_ok k c' \<and> pc_order c' = pc_order c \<and>
    pc_max_capacity c' = pc_max_capacity c \<and> pc_refcount c' = pc_refcount c \<and> cached c' = cached c \<and>
    (\<not> ins \<longrightarrow> c' = c) \<and>
    (case r of None \<Rightarrow> \<not> ins \<and> cached c (page_no k off) = 0
     | Some (p, idx) \<Rightarrow> leaf_for (unat (pc_order c)) (page_no k off) (pc_root c') p idx)"
proof -
  let ?d = "unat (pc_order c)"
  have wf: "wf_node ?d (pc_root c)" and bits: "pc_bits_per_lvl c = 4" and k: "k < 32" "pc_pg_size c = 2 ^ k"
    using assms(1) by (simp_all add: cache_ok_def)
  have lg: "log2 (ucast (pc_pg_size c)) = Some k" using k by (simp add: ucast_exp_32 log2_exp)
  have pn: "unat (drop_bit k off) = page_no k off" by (simp add: unat_drop_bit page_no_def)
  from lookup_loop_spec [OF wf, of ins "drop_bit k off", unfolded pn] obtain root leaves r where
    l: "lookup_loop 4 ins ?d (drop_bit k off) (pc_root c) = Some (root, leaves, r)" "wf_node ?d root"
      "\<And>n. slot_of ?d root n = slot_of ?d (pc_root c) n" "\<not> ins \<longrightarrow> root = pc_root c \<and> leaves = []"
    and r: "case r of None \<Rightarrow> \<not> ins \<and> (\<forall>n. n mod 16 ^ Suc ?d = page_no k off mod 16 ^ Suc ?d \<longrightarrow> slot_of ?d (pc_root c) n = 0)
       | Some (p, idx) \<Rightarrow> leaf_for ?d (page_no k off) root p idx" by blast
  define c' where "c' = c\<lparr>pc_root := root, pc_leaf_nodes := pc_leaf_nodes c @ leaves\<rparr>"
  have "internal_lookup_leaf c off ins = Some (c', r)"
    using assms(2) lg l(1) by (simp add: internal_lookup_leaf_def bits c'_def)
  moreover have "cached c' = cached c" using l(3) by (auto simp: cached_def c'_def)
  moreover have "case r of None \<Rightarrow> \<not> ins \<and> cached c (page_no k off) = 0
     | Some (p, idx) \<Rightarrow> leaf_for ?d (page_no k off) (pc_root c') p idx"
  proof (cases r)
    case None
    have "\<not> ins" and "\<forall>n. n mod 16 ^ Suc ?d = page_no k off mod 16 ^ Suc ?d \<longrightarrow> slot_of ?d (pc_root c) n = 0"
      using r unfolding None option.case by blast+
    then have "slot_of ?d (pc_root c) (page_no k off) = 0" by blast
    with \<open>\<not> ins\<close> None show ?thesis by (simp add: cached_def)
  qed (use r in \<open>simp add: c'_def\<close>)
  moreover have "cache_ok k c'" using assms(1) l(2) by (simp add: cache_ok_def c'_def)
  moreover have "\<not> ins \<longrightarrow> c' = c" using l(4) by (simp add: c'_def)
  moreover have "pc_order c' = pc_order c" "pc_max_capacity c' = pc_max_capacity c" "pc_refcount c' = pc_refcount c"
    by (simp_all add: c'_def)
  ultimately show ?thesis by (intro exI [of _ c'] exI [of _ r] conjI)
qed

lemma lookup_eq:
  assumes "cache_ok k c"
  shows "pgcache_lookup c off w = (let q = if off < pc_max_capacity c then cached c (page_no k off) else 0 in Some (q, getref q w))"
proof (cases "off < pc_max_capacity c")
  case False
  then have "pc_max_capacity c \<le> off" by simp
  then show ?thesis using False by (simp add: pgcache_lookup_def getref_def)
next
  case True
  then have nle: "\<not> pc_max_capacity c \<le> off" by simp
  from lookup_leaf_spec [OF assms True, of False] obtain r where
    l: "internal_lookup_leaf c off False = Some (c, r)"
    "case r of None \<Rightarrow> cached c (page_no k off) = 0
     | Some (p, idx) \<Rightarrow> leaf_for (unat (pc_order c)) (page_no k off) (pc_root c) p idx"
    by (auto split: option.splits)
  show ?thesis
  proof (cases r)
    case None
    then show ?thesis using l True nle by (simp add: pgcache_lookup_def getref_def)
  next
    case (Some a)
    then obtain p idx where a: "r = Some (p, idx)" by (cases a) simp
    with l(2) obtain slots cnt where s: "idx < 16" "node_at (pc_root c) p = Some (Leaf slots cnt)" "length slots = 16"
      "slot_of (unat (pc_order c)) (pc_root c) (page_no k off) = slots ! idx"
      unfolding leaf_for_def by auto
    then show ?thesis using l(1) a True nle by (simp add: pgcache_lookup_def cached_def Let_def)
  qed
qed

lemma insert_spec:
  assumes "cache_ok k c" "off < pc_max_capacity c"
  defines "old \<equiv> cached c (page_no k off)"
  shows "\<exists>c'. pgcache_insert c off page out_old w =
      Some (c', (if out_old then Some old else None), (if out_old then w else drop_pages old w)) \<and>
    cache_ok k c' \<and> pc_order c' = pc_order c \<and> pc_max_capacity c' = pc_max_capacity c \<and> pc_refcount c' = pc_refcount c \<and>
    (\<forall>n < 16 ^ Suc (unat (pc_order c)). cached c' n = (if n = page_no k off then page else cached c n))"
proof -
  let ?d = "unat (pc_order c)"
  have nle: "\<not> pc_max_capacity c \<le> off" using assms(2) by simp
  from lookup_leaf_spec [OF assms(1,2), of True] obtain c1 p idx where
    l: "internal_lookup_leaf c off True = Some (c1, Some (p, idx))" "cache_ok k c1" "pc_order c1 = pc_order c"
      "pc_max_capacity c1 = pc_max_capacity c" "pc_refcount c1 = pc_refcount c" "cached c1 = cached c"
      "leaf_for ?d (page_no k off) (pc_root c1) p idx"
    by (auto split: option.splits)
  from l(7) obtain slots cnt where s: "idx < 16" "node_at (pc_root c1) p = Some (Leaf slots cnt)" "length slots = 16"
    "slot_of ?d (pc_root c1) (page_no k off) = slots ! idx"
    "\<And>x cnt'. wf_node ?d (set_node (pc_root c1) p (Leaf (slots[idx := x]) cnt'))"
    "\<And>x cnt' n. slot_of ?d (set_node (pc_root c1) p (Leaf (slots[idx := x]) cnt')) n =
       (if n mod 16 ^ Suc ?d = page_no k off mod 16 ^ Suc ?d then x else slot_of ?d (pc_root c1) n)"
    unfolding leaf_for_def by blast
  define c' where "c' = c1\<lparr>pc_root := set_node (pc_root c1) p (Leaf (slots[idx := page]) (cnt + 1))\<rparr>"
  have old: "slots ! idx = old" using s(4) l(3,6) by (metis cached_def old_def)
  have run: "pgcache_insert c off page out_old w =
      Some (c', (if out_old then Some old else None), (if out_old then w else drop_pages old w))"
    using nle l(1) s(1-3) old by (simp add: pgcache_insert_def c'_def)
  have ok: "cache_ok k c'" using l(2,3) s(5) by (simp add: cache_ok_def c'_def)
  have "cached c' n = (if n = page_no k off then page else cached c n)" if "n < 16 ^ Suc ?d" for n
    using that page_no_less [OF assms(1,2)] s(6) [of page "cnt + 1" n] l(3,6)
    by (simp add: cached_def c'_def fun_eq_iff)
  with run ok l(3-5) show ?thesis by (intro exI [of _ c']) (simp add: c'_def)
qed

lemma remove_spec:
  assumes "cache_ok k c" "off < pc_max_capacity c"
  defines "old \<equiv> cached c (page_no k off)"
  shows "\<exists>c'. pgcache_remove c off out_page w =
      Some (c', (if out_page \<and> old \<noteq> 0 then Some old else None), (if out_page then w else drop_pages old w)) \<and>
    cache_ok k c' \<and> pc_order c' = pc_order c \<and> pc_max_capacity c' = pc_max_capacity c \<and> pc_refcount c' = pc_refcount c \<and>
    (\<forall>n < 16 ^ Suc (unat (pc_order c)). cached c' n = (if n = page_no k off then 0 else cached c n))"
proof -
  let ?d = "unat (pc_order c)"
  have nle: "\<not> pc_max_capacity c \<le> off" using assms(2) by simp
  from lookup_leaf_spec [OF assms(1,2), of False] obtain r where
    l: "internal_lookup_leaf c off False = Some (c, r)"
    "case r of None \<Rightarrow> cached c (page_no k off) = 0 | Some (p, idx) \<Rightarrow> leaf_for ?d (page_no k off) (pc_root c) p idx"
    by (auto split: option.splits)
  have unchanged: "cache_ok k c \<and> (\<forall>n < 16 ^ Suc ?d. cached c n = (if n = page_no k off then 0 else cached c n))" if "old = 0"
    using that assms(1) by (simp add: old_def)
  show ?thesis
  proof (cases r)
    case None
    then show ?thesis using l nle assms unchanged by (simp add: pgcache_remove_def drop_pages_def)
  next
    case (Some a)
    then obtain p idx where a: "r = Some (p, idx)" by (cases a) simp
    with l(2) obtain slots cnt where s: "idx < 16" "node_at (pc_root c) p = Some (Leaf slots cnt)" "length slots = 16"
      "slot_of ?d (pc_root c) (page_no k off) = slots ! idx"
      "\<And>x cnt'. wf_node ?d (set_node (pc_root c) p (Leaf (slots[idx := x]) cnt'))"
      "\<And>x cnt' n. slot_of ?d (set_node (pc_root c) p (Leaf (slots[idx := x]) cnt')) n =
         (if n mod 16 ^ Suc ?d = page_no k off mod 16 ^ Suc ?d then x else slot_of ?d (pc_root c) n)"
      by (auto simp: leaf_for_def)
    have old: "slots ! idx = old" using s(4) by (simp add: cached_def old_def)
    define c' where "c' = c\<lparr>pc_root := set_node (pc_root c) p (Leaf (slots[idx := 0]) (cnt - 1))\<rparr>"
    have run: "pgcache_remove c off out_page w = Some (if old = 0 then (c, None, w)
        else if out_page then (c', Some old, w) else (c', None, drop_pages old w))"
      using nle l(1) a s(1-3) old by (simp add: pgcache_remove_def c'_def)
    show ?thesis
    proof (cases "old = 0")
      case True
      then show ?thesis using run unchanged by (simp add: drop_pages_def)
    next
      case False
      have "cached c' n = (if n = page_no k off then 0 else cached c n)" if "n < 16 ^ Suc ?d" for n
        using that page_no_less [OF assms(1,2)] s(6) [of 0 "cnt - 1" n] by (simp add: cached_def c'_def)
      moreover have "cache_ok k c'" using assms(1) s(5) by (simp add: cache_ok_def c'_def)
      ultimately show ?thesis using run False by (intro exI [of _ c']) (simp add: c'_def)
    qed
  qed
qed

lemma pgcache_alloc_spec:
  assumes "4 * Suc (unat order) + k < 64" "k < 32"
  shows "\<exists>c. pgcache_alloc order (2 ^ k) = Some c \<and> cache_ok k c \<and> pc_order c = order \<and> pc_refcount c = 1 \<and> (\<forall>n. cached c n = 0)"
proof -
  have lg: "log2 (of_nat PGCACHE_FANOUT) = Some 4" using log2_exp [of 4] by simp
  have "push_bit (4 * Suc (unat order)) (1 :: u64) * ucast (2 ^ k :: u32) = 2 ^ (4 * Suc (unat order) + k)"
    using assms(2) by (simp add: push_bit_eq_mult ucast_exp_32 power_add)
  then show ?thesis
    using assms lg wf_new_node slot_of_new_node
    by (simp add: pgcache_alloc_def cache_ok_def cached_def mult.commute)
qed

section \<open>Visiting every page\<close>

text \<open>
  The pages below a node from slot \<open>i\<close> on, each with the slot number that the loop passes to the
  callback as its offset, and the nodes in the order in which they are released.
\<close>

fun entries_from :: "nat \<Rightarrow> pgcache_node \<Rightarrow> nat \<Rightarrow> (u64 \<times> u64) list" where
  "entries_from 0 (Leaf slots cnt) i = map (\<lambda>j. (slots ! j, of_nat j)) (filter (\<lambda>j. slots ! j \<noteq> 0) [i..<16])"
| "entries_from (Suc d) (Inner slots) i =
     concat (map (\<lambda>j. case slots ! j of None \<Rightarrow> [] | Some c \<Rightarrow> entries_from d c 0) [i..<16])"
| "entries_from _ _ i = []"

fun nodes_from :: "nat \<Rightarrow> nat list \<Rightarrow> pgcache_node \<Rightarrow> nat \<Rightarrow> nat list list" where
  "nodes_from 0 p n i = [p]"
| "nodes_from (Suc d) p (Inner slots) i =
     concat (map (\<lambda>j. case slots ! j of None \<Rightarrow> [] | Some c \<Rightarrow> nodes_from d (p @ [j]) c 0) [i..<16]) @ [p]"
| "nodes_from _ p n i = [p]"

lemma slot_bounds:
  assumes "i < 16" "h \<le> 6"
  shows "int_shl i (4 * h) = Some (of_nat (i * 2 ^ (4 * h)))" "shl64 1 (4 * h) = Some (2 ^ (4 * h))"
    "unat (of_nat (i * 2 ^ (4 * h)) + 2 ^ (4 * h) :: u64) = Suc i * 2 ^ (4 * h)"
    "unat (of_nat (i * 2 ^ (4 * h)) :: u64) = i * 2 ^ (4 * h)"
proof -
  have "(2 :: nat) ^ (4 * h) \<le> 2 ^ (4 * 6)" using assms(2) by (intro power_increasing) auto
  then have b: "(2 :: nat) ^ (4 * h) \<le> 2 ^ 24" by simp
  then have "i * 2 ^ (4 * h) \<le> 15 * 2 ^ 24" using assms(1) by (intro mult_le_mono) auto
  then have lt: "i * 2 ^ (4 * h) < 2 ^ 31" by (rule le_less_trans) simp
  then show "int_shl i (4 * h) = Some (of_nat (i * 2 ^ (4 * h)))" using assms(2) by (simp add: int_shl_def)
  show "shl64 1 (4 * h) = Some (2 ^ (4 * h))" using assms(2) by (simp add: push_bit_eq_mult)
  show u: "unat (of_nat (i * 2 ^ (4 * h)) :: u64) = i * 2 ^ (4 * h)" using lt by (simp only: unat_of_nat) (simp add: take_bit_nat_eq_self_iff)
  have "Suc i * 2 ^ (4 * h) \<le> 16 * 2 ^ 24" using assms(1) b by (intro mult_le_mono) auto
  then have lt': "Suc i * 2 ^ (4 * h) < 2 ^ 64" by (rule le_less_trans) simp
  have "(of_nat (i * 2 ^ (4 * h)) + 2 ^ (4 * h) :: u64) = of_nat (Suc i * 2 ^ (4 * h))" by simp
  then show "unat (of_nat (i * 2 ^ (4 * h)) + 2 ^ (4 * h) :: u64) = Suc i * 2 ^ (4 * h)"
    using lt' by (simp only: unat_of_nat) (simp add: take_bit_nat_eq_self_iff)
qed

lemma visit_step_slot:
  assumes "i < 16" "h \<le> order" "order \<le> 6" "16 ^ Suc order \<le> unat end_off"
  shows "\<exists>off. visit_step fn 4 order 0 end_off free ((p, i, order - h) # rest, root, freed, s) =
    visit_slot fn order off p i (order - h) ((p, Suc i, order - h) # rest, root, freed, s) \<and> (h = 0 \<longrightarrow> off = of_nat i)"
proof -
  have h: "h \<le> 6" "order - (order - h) = h" using assms by auto
  note b = slot_bounds [OF assms(1) h(1)]
  have "i * 2 ^ (4 * h) < 16 * 16 ^ h" using assms(1) by (simp add: power_mult)
  also have "\<dots> \<le> 16 ^ Suc order" using assms(2) by (simp add: power_increasing)
  finally have lt: "of_nat (i * 2 ^ (4 * h)) < end_off" using b(4) assms(4) by (simp add: word_less_nat_alt)
  define off :: u64 where "off = of_nat (i * 2 ^ (4 * h))"
  have "\<not> (off + 2 ^ (4 * h) \<le> 0 \<or> end_off \<le> off)"
    using b(3) lt by (auto simp: off_def word_le_nat_alt word_less_nat_alt simp del: of_nat_mult)
  then have "visit_step fn 4 order 0 end_off free ((p, i, order - h) # rest, root, freed, s) =
    visit_slot fn order off p i (order - h) ((p, Suc i, order - h) # rest, root, freed, s)"
    using assms(1) b(1,2) unfolding visit_step_def by (simp add: h(2) off_def del: of_nat_mult)
  moreover have "h = 0 \<longrightarrow> off = of_nat i" by (simp add: off_def)
  ultimately show ?thesis by blast
qed

definition run_entry :: "(u64 \<Rightarrow> u64 \<Rightarrow> 's \<Rightarrow> u64 \<times> 's) \<Rightarrow> u64 \<times> u64 \<Rightarrow> 's \<Rightarrow> 's" where
  "run_entry fn e s = snd (fn (fst e) (snd e) s)"

definition released :: "bool \<Rightarrow> nat list list \<Rightarrow> nat list list" where
  "released free xs = (if free then xs else [])"

lemma released_append: "released free xs @ released free ys = released free (xs @ ys)"
  by (simp add: released_def)

lemma upt16: "i < 16 \<Longrightarrow> [i..<16] = i # [Suc i..<16]"
  by (rule upt_conv_Cons)

lemma visit_loop_step:
  "visit_step fn bits order a b free (e # st, r) = Some x \<Longrightarrow>
    visit_loop fn bits order a b free (e # st, r) = visit_loop fn bits order a b free x"
  by (subst visit_loop.simps) simp

lemma visit_loop_pop:
  "visit_loop fn bits order a b free ((p, 16, l) # rest, root, freed, s) =
    visit_loop fn bits order a b free (rest, root, freed @ released free [p], s)"
  by (rule visit_loop_step) (simp add: visit_step_def released_def)

lemma visit_leaf:
  assumes "order \<le> 6" "16 ^ Suc order \<le> unat end_off" "node_at root p = Some (Leaf slots cnt)" "length slots = 16" "i \<le> 16"
  shows "\<exists>n'. wf_node 0 n' \<and> visit_loop fn 4 order 0 end_off free ((p, i, order) # rest, root, freed, s) =
    visit_loop fn 4 order 0 end_off free (rest, set_node root p n', freed @ released free [p],
      fold (run_entry fn) (entries_from 0 (Leaf slots cnt) i) s)"
  using assms(3-5)
proof (induction "16 - i" arbitrary: i root slots s)
  case 0
  then show ?case using visit_loop_pop [of fn 4 order 0 end_off free p order rest root freed s]
    by (intro exI [of _ "Leaf slots cnt"]) (simp add: set_node_same)
next
  case (Suc k)
  have i: "i < 16" "k = 16 - Suc i" using Suc(2) by auto
  have step: "visit_step fn 4 order 0 end_off free ((p, i, order) # rest, root, freed, s) =
      visit_slot fn order (of_nat i) p i order ((p, Suc i, order) # rest, root, freed, s)"
    using visit_step_slot [OF i(1), of 0 order end_off fn free p rest root freed s] assms(1,2) by auto
  show ?case
  proof (cases "slots ! i = 0")
    case True
    have "visit_step fn 4 order 0 end_off free ((p, i, order) # rest, root, freed, s) =
        Some ((p, Suc i, order) # rest, root, freed, s)"
      unfolding step using Suc.prems i True by (simp add: visit_slot_def)
    note st = visit_loop_step [OF this]
    from Suc.hyps(1) [OF i(2) Suc.prems(1,2), of s] i(1) show ?thesis
      unfolding st by (simp add: upt16 True)
  next
    case False
    define r where "r = fn (slots ! i) (of_nat i) s"
    define root1 where "root1 = set_node root p (Leaf (slots[i := fst r]) cnt)"
    have "visit_step fn 4 order 0 end_off free ((p, i, order) # rest, root, freed, s) =
        Some ((p, Suc i, order) # rest, root1, freed, snd r)"
      unfolding step using Suc.prems i False by (simp add: visit_slot_def root1_def r_def Let_def)
    note st = visit_loop_step [OF this]
    have n1: "node_at root1 p = Some (Leaf (slots[i := fst r]) cnt)" using node_at_set Suc.prems(1) by (simp add: root1_def)
    have "filter (\<lambda>j. slots[i := x] ! j \<noteq> 0) [Suc i..<16] = filter (\<lambda>j. slots ! j \<noteq> 0) [Suc i..<16]"
      "map (\<lambda>j. (slots[i := x] ! j, of_nat j :: u64)) (filter (\<lambda>j. slots ! j \<noteq> 0) [Suc i..<16]) =
       map (\<lambda>j. (slots ! j, of_nat j)) (filter (\<lambda>j. slots ! j \<noteq> 0) [Suc i..<16])" for x
      by (auto intro: filter_cong)
    then have "entries_from 0 (Leaf (slots[i := fst r]) cnt) (Suc i) = entries_from 0 (Leaf slots cnt) (Suc i)" by simp
    moreover have "set_node root1 p n' = set_node root p n'" for n' by (simp add: root1_def set_node_set)
    ultimately show ?thesis
      using Suc.hyps(1) [OF i(2) n1, of "snd r"] Suc.prems(2) i(1) unfolding st
      by (simp add: upt16 False run_entry_def r_def)
  qed
qed

lemma visit_node:
  assumes "order \<le> 6" "16 ^ Suc order \<le> unat end_off" "h \<le> order"
    and "wf_node h n" "node_at root p = Some n" "i \<le> 16" "length rest + h < 64"
  shows "\<exists>n'. wf_node h n' \<and> visit_loop fn 4 order 0 end_off free ((p, i, order - h) # rest, root, freed, s) =
    visit_loop fn 4 order 0 end_off free (rest, set_node root p n', freed @ released free (nodes_from h p n i),
      fold (run_entry fn) (entries_from h n i) s)"
  using assms(3-7)
proof (induction h arbitrary: n root p i rest freed s)
  case 0
  from 0(2) obtain slots cnt where "n = Leaf slots cnt" "length slots = 16" by (rule wf_0_cases)
  then show ?case using visit_leaf [OF assms(1,2), of root p slots cnt i fn free rest freed s] 0 by simp
next
  case (Suc h)
  note outer = Suc.IH
  from Suc.prems(2) obtain slots where n: "n = Inner slots" "length slots = 16" by (rule wf_Suc_cases)
  let ?l = "order - Suc h"
  have lv: "Suc ?l = order - h" "?l < order" and ho: "h \<le> order" using Suc.prems(1) by auto
  show ?case
    using Suc.prems(2-5) n
  proof (induction "16 - i" arbitrary: i n slots root freed s)
    case 0
    then show ?case using visit_loop_pop [of fn 4 order 0 end_off free p ?l rest root freed s]
      by (intro exI [of _ n]) (simp add: set_node_same)
  next
    case (Suc k)
    note IH = Suc.hyps(1) and prems = Suc.prems
    have i: "i < 16" "k = 16 - Suc i" using Suc.hyps(2) by auto
    obtain off where step: "visit_step fn 4 order 0 end_off free ((p, i, ?l) # rest, root, freed, s) =
      visit_slot fn order off p i ?l ((p, Suc i, ?l) # rest, root, freed, s)"
      using visit_step_slot [OF i(1), of "Suc h" order end_off fn free p rest root freed s] assms(1,2) Suc_leI [OF lv(2)] lv by fastforce
    show ?case
    proof (cases "slots ! i")
      case None
      have "visit_step fn 4 order 0 end_off free ((p, i, ?l) # rest, root, freed, s) =
          Some ((p, Suc i, ?l) # rest, root, freed, s)"
        unfolding step using prems i None by (simp add: visit_slot_def)
      note st = visit_loop_step [OF this]
      from IH [OF i(2) prems(1,2) _ prems(4-6), of freed s] i(1) None show ?thesis
        unfolding st by (simp add: upt16 prems(5))
    next
      case (Some c)
      have "visit_step fn 4 order 0 end_off free ((p, i, ?l) # rest, root, freed, s) =
          Some ((p @ [i], 0, Suc ?l) # (p, Suc i, ?l) # rest, root, freed, s)"
        unfolding step using prems i Some lv by (simp add: visit_slot_def MAX_STACK_SIZE_def)
      note st = visit_loop_step [OF this, unfolded lv(1)]
      have c: "wf_node h c" "node_at root (p @ [i]) = Some c"
        using prems i Some wf_inner_child by (auto simp: node_at_append)
      from outer [OF ho c, of 0 "(p, Suc i, ?l) # rest" freed s] lv prems(4) obtain c' where
        c': "wf_node h c'" and v: "visit_loop fn 4 order 0 end_off free ((p @ [i], 0, order - h) # (p, Suc i, ?l) # rest, root, freed, s) =
          visit_loop fn 4 order 0 end_off free ((p, Suc i, ?l) # rest, set_node root (p @ [i]) c',
            freed @ released free (nodes_from h (p @ [i]) c 0), fold (run_entry fn) (entries_from h c 0) s)" by auto
      define n1 where "n1 = Inner (slots[i := Some c'])"
      have r1: "set_node root (p @ [i]) c' = set_node root p n1"
        using set_node_append [OF prems(2), of "[i]" c'] prems(5,6) i Some by (simp add: n1_def)
      have "wf_node (Suc h) n1" using wf_inner_update prems(1,5) c' by (simp add: n1_def)
      moreover have "node_at (set_node root p n1) p = Some n1" using node_at_set prems(2) by simp
      moreover have "length (slots[i := Some c']) = 16" using prems(6) by simp
      moreover have "Suc i \<le> 16" using i by simp
      ultimately obtain n' where n': "wf_node (Suc h) n'"
        and v2: "visit_loop fn 4 order 0 end_off free ((p, Suc i, ?l) # rest, set_node root p n1,
            freed @ released free (nodes_from h (p @ [i]) c 0), fold (run_entry fn) (entries_from h c 0) s) =
          visit_loop fn 4 order 0 end_off free (rest, set_node (set_node root p n1) p n',
            (freed @ released free (nodes_from h (p @ [i]) c 0)) @ released free (nodes_from (Suc h) p n1 (Suc i)),
            fold (run_entry fn) (entries_from (Suc h) n1 (Suc i)) (fold (run_entry fn) (entries_from h c 0) s))"
        using IH [OF i(2), of n1 "set_node root p n1" "slots[i := Some c']"] prems(4) n1_def by blast
      have "nodes_from (Suc h) p n i = nodes_from h (p @ [i]) c 0 @ nodes_from (Suc h) p n1 (Suc i)"
        "entries_from (Suc h) n i = entries_from h c 0 @ entries_from (Suc h) n1 (Suc i)"
        using i(1) Some by (auto simp: prems(5) n1_def upt16 intro!: arg_cong [where f = concat])
      then show ?thesis using n' unfolding st v r1 v2
        by (intro exI [of _ n']) (simp add: set_node_set flip: released_append)
    qed
  qed
qed

section \<open>What is visited\<close>

definition page_mset :: "u64 \<Rightarrow> u64 multiset" where
  "page_mset x = (if x = 0 then {#} else {#x#})"

lemma mset_filter_nonzero: "mset (filter (\<lambda>x. x \<noteq> 0) xs) = (\<Sum>x\<leftarrow>xs. page_mset x)"
  by (induction xs) (simp_all add: page_mset_def)

lemma sum_mod_div:
  fixes f :: "nat \<Rightarrow> 'a::comm_monoid_add"
  shows "(\<Sum>n<16 * q. f n) = (\<Sum>j<16. \<Sum>m<q. f (16 * m + j))"
proof -
  have "(\<Sum>n<16 * q. f n) = (\<Sum>m<q. sum f {m * 16..<m * 16 + 16})"
    using sum.nat_group [of f 16 q] by (simp add: mult.commute)
  also have "\<dots> = (\<Sum>m<q. \<Sum>j<16. f (16 * m + j))"
  proof (rule sum.cong [OF refl])
    fix m
    show "sum f {m * 16..<m * 16 + 16} = (\<Sum>j<16. f (16 * m + j))"
      using sum.atLeastLessThan_shift_0 [of f "m * 16" "m * 16 + 16"]
      by (simp add: atLeast0LessThan comp_def mult.commute [of m])
  qed
  finally show ?thesis by (simp add: sum.swap [of _ "{..<q}"])
qed

lemma sum_list_upt: "(\<Sum>j\<leftarrow>[0..<n]. f j) = (\<Sum>j<n. f j)"
  by (induction n) simp_all

lemma map_filter_nth: "map (\<lambda>j. xs ! j) (filter (\<lambda>j. P (xs ! j)) [0..<length xs]) = filter P xs"
  by (metis (mono_tags, lifting) filter_cong filter_map map_nth o_apply)

lemma mset_entries:
  "wf_node d n \<Longrightarrow> mset (map fst (entries_from d n 0)) = (\<Sum>m<16 ^ Suc d. page_mset (slot_of d n m))"
proof (induction d arbitrary: n)
  case 0
  from 0 obtain slots cnt where n: "n = Leaf slots cnt" "length slots = 16" by (rule wf_0_cases)
  have "map fst (entries_from 0 n 0) = filter (\<lambda>x. x \<noteq> 0) slots"
    using map_filter_nth [of slots "\<lambda>x. x \<noteq> 0"] n by (simp add: comp_def)
  then have "mset (map fst (entries_from 0 n 0)) = (\<Sum>x\<leftarrow>slots. page_mset x)" using mset_filter_nonzero by simp
  also have "\<dots> = (\<Sum>x\<leftarrow>map ((!) slots) [0..<16]. page_mset x)" using n(2) map_nth [of slots] by simp
  also have "\<dots> = (\<Sum>m<16. page_mset (slots ! m))"
    using sum_list_upt [of "\<lambda>m. page_mset (slots ! m)" 16] by (simp only: map_map comp_def)
  also have "\<dots> = (\<Sum>m<16. page_mset (slot_of 0 n m))" by (intro sum.cong) (simp_all add: n)
  finally show ?case by simp
next
  case (Suc d)
  from Suc.prems obtain slots where n: "n = Inner slots" "length slots = 16" by (rule wf_Suc_cases)
  have child: "mset (map fst (case slots ! j of None \<Rightarrow> [] | Some c \<Rightarrow> entries_from d c 0)) =
      (\<Sum>m<16 ^ Suc d. page_mset (slot_of (Suc d) n (16 * m + j)))" if "j < 16" for j
  proof (cases "slots ! j")
    case None
    then show ?thesis using that by (simp add: n page_mset_def)
  next
    case (Some c)
    have "wf_node d c" using Suc.prems n that Some wf_inner_child by simp
    from Suc.IH [OF this] show ?thesis using Some that by (simp add: n)
  qed
  have "mset (map fst (entries_from (Suc d) n 0)) =
      (\<Sum>j<16. mset (map fst (case slots ! j of None \<Rightarrow> [] | Some c \<Rightarrow> entries_from d c 0)))"
  proof -
    have "map fst (entries_from (Suc d) n 0) =
        concat (map (\<lambda>j. map fst (case slots ! j of None \<Rightarrow> [] | Some c \<Rightarrow> entries_from d c 0)) [0..<16])"
      unfolding n(1) entries_from.simps map_concat map_map comp_def ..
    then show ?thesis
      using sum_list_upt [of "\<lambda>j. mset (map fst (case slots ! j of None \<Rightarrow> [] | Some c \<Rightarrow> entries_from d c 0))" 16]
      by (simp only: mset_concat map_map comp_def)
  qed
  also have "\<dots> = (\<Sum>j<16. \<Sum>m<16 ^ Suc d. page_mset (slot_of (Suc d) n (16 * m + j)))"
    by (intro sum.cong refl) (use child in simp)
  also have "\<dots> = (\<Sum>m<16 ^ Suc (Suc d). page_mset (slot_of (Suc d) n m))"
    using sum_mod_div [of "\<lambda>m. page_mset (slot_of (Suc d) n m)" "16 ^ Suc d"] by simp
  finally show ?case .
qed

lemma nodes_from_set: "wf_node d n \<Longrightarrow> set (nodes_from d p n 0) = {p @ q | q. node_at n q \<noteq> None}"
proof (induction d arbitrary: p n)
  case 0
  from 0 obtain slots cnt where n: "n = Leaf slots cnt" by (rule wf_0_cases)
  have "node_at n q \<noteq> None \<longleftrightarrow> q = []" for q using n by (cases q) auto
  then show ?case by auto
next
  case (Suc d)
  from Suc.prems obtain slots where n: "n = Inner slots" "length slots = 16" by (rule wf_Suc_cases)
  have "node_at n q \<noteq> None \<longleftrightarrow> q = [] \<or> (\<exists>j<16. \<exists>c r. slots ! j = Some c \<and> q = j # r \<and> node_at c r \<noteq> None)" for q
    using n by (cases q) (auto simp: load_def split: option.splits)
  then have rhs: "{p @ q | q. node_at n q \<noteq> None} =
      {p} \<union> {p @ j # r | j r. j < 16 \<and> (\<exists>c. slots ! j = Some c \<and> node_at c r \<noteq> None)}" by auto
  have sub: "set (case slots ! j of None \<Rightarrow> [] | Some c \<Rightarrow> nodes_from d (p @ [j]) c 0) =
      {p @ j # r | r. \<exists>c. slots ! j = Some c \<and> node_at c r \<noteq> None}" if j: "j < 16" for j
  proof (cases "slots ! j")
    case (Some c)
    then have "wf_node d c" using wf_inner_child Suc.prems n(1) j by blast
    from Suc.IH [OF this, of "p @ [j]"] Some show ?thesis by simp
  qed simp
  have "set (nodes_from (Suc d) p n 0) =
      (\<Union>j<16. set (case slots ! j of None \<Rightarrow> [] | Some c \<Rightarrow> nodes_from d (p @ [j]) c 0)) \<union> {p}"
    unfolding n(1) nodes_from.simps set_append set_concat set_map set_upt image_image by (simp add: atLeast0LessThan)
  also have "(\<Union>j<16. set (case slots ! j of None \<Rightarrow> [] | Some c \<Rightarrow> nodes_from d (p @ [j]) c 0)) =
      (\<Union>j<16. {p @ j # r | r. \<exists>c. slots ! j = Some c \<and> node_at c r \<noteq> None})"
    by (rule SUP_cong) (use sub in simp_all)
  finally show ?case unfolding rhs by auto
qed

lemma nodes_from_distinct: "wf_node d n \<Longrightarrow> distinct (nodes_from d p n 0)"
proof (induction d arbitrary: p n)
  case (Suc d)
  from Suc.prems obtain slots where n: "n = Inner slots" "length slots = 16" by (rule wf_Suc_cases)
  define f where "f j = (case slots ! j of None \<Rightarrow> [] | Some c \<Rightarrow> nodes_from d (p @ [j]) c 0)" for j
  have wf: "wf_node d c" if "j < 16" "slots ! j = Some c" for j c using wf_inner_child Suc.prems n(1) that by blast
  have d: "distinct (f j)" if "j < 16" for j using wf [OF that] Suc.IH by (auto simp: f_def split: option.splits)
  have s: "\<exists>r. x = p @ j # r" if "j < 16" "x \<in> set (f j)" for j x
    using that(2) nodes_from_set [OF wf [OF that(1)], of _ "p @ [j]"] by (auto simp: f_def split: option.splits)
  have "distinct (concat (map f [0..<k]))" if "k \<le> 16" for k
    using that
  proof (induction k)
    case (Suc k)
    have "x \<notin> set (f k)" if jk: "j < k" "x \<in> set (f j)" for j x
    proof
      assume "x \<in> set (f k)"
      then obtain r r' where "x = p @ k # r" "x = p @ j # r'" using s [of k x] s [of j x] jk Suc.prems by auto
      then show False using jk(1) by simp
    qed
    then have "set (concat (map f [0..<k])) \<inter> set (f k) = {}" by auto
    then show ?case using Suc d [of k] by simp
  qed simp
  moreover have "p \<notin> set (f j)" if "j < 16" for j using s [OF that] by fastforce
  then have "p \<notin> set (concat (map f [0..<16]))" by (simp del: upt_rec_numeral)
  ultimately show ?case unfolding n(1) nodes_from.simps by (simp add: f_def [abs_def] del: upt_rec_numeral)
qed simp

section \<open>The cache as a store\<close>

definition pc_put :: "u64 \<Rightarrow> u64 \<Rightarrow> pgcache \<times> page_refs \<Rightarrow> (pgcache \<times> page_refs) option" where
  "pc_put off page = (\<lambda>(c, w). do { (c', old, w') \<leftarrow> pgcache_insert c off page False w; Some (c', w') })"

definition pc_find :: "pgcache \<times> page_refs \<Rightarrow> u64 \<Rightarrow> u64" where
  "pc_find = (\<lambda>(c, w) off. case pgcache_lookup c off w of Some (page, w') \<Rightarrow> page | None \<Rightarrow> 0)"

lemma pc_find_eq: "cache_ok k c \<Longrightarrow> off < pc_max_capacity c \<Longrightarrow> pc_find (c, w) off = cached c (page_no k off)"
  using lookup_eq by (simp add: pc_find_def Let_def)

interpretation pc: keyed_store "\<lambda>s. cache_ok k (fst s)" "\<lambda>s off. off < pc_max_capacity (fst s)"
  "\<lambda>a b. page_no k a = page_no k b" pc_find pc_put for k
proof
  fix s :: "pgcache \<times> page_refs" and off page off' s'
  assume ok: "cache_ok k (fst s)" and off: "off < pc_max_capacity (fst s)"
  obtain c w where s: "s = (c, w)" by (cases s)
  from insert_spec [of k c off page False w] ok off s obtain c' where
    c': "pgcache_insert c off page False w = Some (c', None, drop_pages (cached c (page_no k off)) w)"
    "cache_ok k c'" "pc_order c' = pc_order c" "pc_max_capacity c' = pc_max_capacity c"
    "\<forall>n < 16 ^ Suc (unat (pc_order c)). cached c' n = (if n = page_no k off then page else cached c n)" by auto
  then show "\<exists>s'. pc_put off page s = Some s' \<and> cache_ok k (fst s') \<and>
      (\<lambda>off. off < pc_max_capacity (fst s')) = (\<lambda>off. off < pc_max_capacity (fst s))"
    using s by (simp add: pc_put_def)
  assume off': "off' < pc_max_capacity (fst s)" and put: "pc_put off page s = Some s'"
  have "s' = (c', drop_pages (cached c (page_no k off)) w)" using put c'(1) s by (simp add: pc_put_def)
  moreover have "page_no k off' < 16 ^ Suc (unat (pc_order c))" using page_no_less [of k c off'] ok off' s by simp
  ultimately show "pc_find s' off' = (if page_no k off' = page_no k off then page else pc_find s off')"
    using c' pc_find_eq off' ok s by simp
qed

lemma drop_pages_cb: "run_entry drop_page_cb = (\<lambda>e. drop_pages (fst e))"
  by (simp add: run_entry_def drop_page_cb_def fun_eq_iff)

lemma fold_fst: "fold (\<lambda>e. f (fst e)) es s = fold f (map fst es) s"
  by (induction es arbitrary: s) simp_all

section \<open>Ranges that start late\<close>

lemma visit_step_eq:
  assumes "i < 16" "h \<le> order" "h \<le> 6"
  defines "off \<equiv> of_nat (i * 2 ^ (4 * h)) :: u64"
  shows "visit_step fn 4 order start_off end_off free ((p, i, order - h) # rest, root, freed, s) =
    (if off + 2 ^ (4 * h) \<le> start_off \<or> end_off \<le> off then Some ((p, Suc i, order - h) # rest, root, freed, s)
     else visit_slot fn order off p i (order - h) ((p, Suc i, order - h) # rest, root, freed, s))"
proof -
  have "order - (order - h) = h" using assms(2) by simp
  then show ?thesis using assms(1) slot_bounds(1,2) [OF assms(1,3)] unfolding visit_step_def off_def
    by (simp del: of_nat_mult)
qed

lemma visit_skip:
  assumes "16 \<le> start_off" "order \<le> 6" "node_at root p = Some n" "wf_node h n" "h \<le> order" "i \<le> 16" "length rest + h < 64"
  shows "visit_loop fn 4 order start_off end_off False ((p, i, order - h) # rest, root, freed, s) =
    visit_loop fn 4 order start_off end_off False (rest, root, freed, s)"
  using assms(3-7)
proof (induction h arbitrary: n p i rest)
  case 0
  show ?case
    using 0(4)
  proof (induction "16 - i" arbitrary: i)
    case (Suc j)
    then have i: "i < 16" "j = 16 - Suc i" by auto
    have "int_shl i 0 = Some (of_nat i)" "shl64 1 0 = Some (1 :: u64)"
      using slot_bounds [OF i(1), of 0] by simp_all
    moreover have "of_nat i + 1 \<le> start_off"
    proof -
      have "unat (of_nat i + 1 :: u64) = Suc i" using slot_bounds(3) [OF i(1), of 0] by simp
      moreover have "16 \<le> unat start_off" using assms(1) by (simp add: word_le_nat_alt)
      ultimately show ?thesis using i by (simp add: word_le_nat_alt)
    qed
    ultimately have "visit_step fn 4 order start_off end_off False ((p, i, order) # rest, root, freed, s) =
        Some ((p, Suc i, order) # rest, root, freed, s)" using i by (simp add: visit_step_def)
    from visit_loop_step [OF this] show ?case using Suc.hyps(1) [OF i(2)] i by simp
  qed (use visit_loop_pop [of fn 4 order start_off end_off False p order rest root freed s] in \<open>simp add: released_def\<close>)
next
  case (Suc h)
  note outer = Suc.IH
  from Suc.prems(2) obtain slots where n: "n = Inner slots" "length slots = 16" by (rule wf_Suc_cases)
  let ?l = "order - Suc h"
  have lv: "Suc ?l = order - h" "?l < order" "order - ?l = Suc h" and ho: "h \<le> order" "Suc h \<le> 6"
    using Suc.prems(3) assms(2) by auto
  show ?case
    using Suc.prems(4)
  proof (induction "16 - i" arbitrary: i)
    case 0
    then show ?case using visit_loop_pop [of fn 4 order start_off end_off False p ?l rest root freed s] by (simp add: released_def)
  next
    case (Suc j)
    note IH = Suc.hyps(1)
    have i: "i < 16" "j = 16 - Suc i" using Suc.hyps(2) by auto
    have next_slot: ?case if "visit_step fn 4 order start_off end_off False ((p, i, ?l) # rest, root, freed, s) =
        Some ((p, Suc i, ?l) # rest, root, freed, s)"
      using visit_loop_step [OF that] IH [OF i(2)] i by simp
    define off :: u64 where "off = of_nat (i * 2 ^ (4 * Suc h))"
    have step: "visit_step fn 4 order start_off end_off False ((p, i, ?l) # rest, root, freed, s) =
        (if off + 2 ^ (4 * Suc h) \<le> start_off \<or> end_off \<le> off then Some ((p, Suc i, ?l) # rest, root, freed, s)
         else visit_slot fn order off p i ?l ((p, Suc i, ?l) # rest, root, freed, s))"
      unfolding off_def by (rule visit_step_eq) (use i ho Suc_leI [OF lv(2)] lv in auto)
    show ?case
    proof (cases "off + 2 ^ (4 * Suc h) \<le> start_off \<or> end_off \<le> off")
      case True
      then show ?thesis using step next_slot by simp
    next
      case False
      show ?thesis
      proof (cases "slots ! i")
        case None
        then show ?thesis using step False next_slot i n Suc.prems by (simp add: visit_slot_def \<open>node_at root p = Some n\<close>)
      next
        case (Some c)
        have "visit_step fn 4 order start_off end_off False ((p, i, ?l) # rest, root, freed, s) =
            Some ((p @ [i], 0, Suc ?l) # (p, Suc i, ?l) # rest, root, freed, s)"
          using step False i n Some lv \<open>node_at root p = Some n\<close> \<open>length rest + Suc h < 64\<close>
          by (simp add: visit_slot_def MAX_STACK_SIZE_def)
        note st = visit_loop_step [OF this, unfolded lv(1)]
        have c: "node_at root (p @ [i]) = Some c" "wf_node h c"
          using \<open>node_at root p = Some n\<close> \<open>wf_node (Suc h) n\<close> i n Some wf_inner_child by (auto simp: node_at_append)
        show ?thesis
          using outer [OF c ho(1), of 0 "(p, Suc i, ?l) # rest"] \<open>length rest + Suc h < 64\<close> IH [OF i(2)] i unfolding st by simp
      qed
    qed
  qed
qed

section \<open>Choosing the order\<close>

lemma size_to_order_bound:
  assumes "0 < unat sz" "unat tsz \<le> 2 ^ 59"
  shows "\<exists>r. size_to_order_loop tsz sz order = Some (order + of_nat r) \<and> unat tsz \<le> unat sz * 16 ^ r \<and>
    (\<forall>q < r. unat sz * 16 ^ q < unat tsz)"
  using assms(1)
proof (induction "unat tsz - unat sz" arbitrary: sz order rule: less_induct)
  case less
  show ?case
  proof (cases "sz < tsz")
    case False
    then show ?thesis by (intro exI [of _ 0]) (simp add: size_to_order_loop.simps word_less_nat_alt)
  next
    case True
    then have lt: "unat sz < unat tsz" by (simp add: word_less_nat_alt)
    have u: "unat (sz * 16) = unat sz * 16"
      using lt assms(2) by (simp add: unat_word_ariths(2))
    have "unat tsz - unat (sz * 16) < unat tsz - unat sz" using lt u less.prems by simp
    from less.hyps [OF this, of "order + 1"] less.prems u obtain r where
      r: "size_to_order_loop tsz (sz * 16) (order + 1) = Some (order + 1 + of_nat r)"
        "unat tsz \<le> unat sz * 16 * 16 ^ r" "\<forall>q < r. unat sz * 16 * 16 ^ q < unat tsz" by auto
    have "size_to_order_loop tsz sz order = Some (order + of_nat (Suc r))"
      using True r(1) by (subst size_to_order_loop.simps) (simp add: add.assoc)
    moreover have "unat sz * 16 ^ q < unat tsz" if "q < Suc r" for q
      using that r(3) lt by (cases q) (auto simp: mult.assoc)
    ultimately show ?thesis using r(2) by (intro exI [of _ "Suc r"]) (simp add: mult.assoc)
  qed
qed

lemma size_to_order_zero:
  assumes "size_to_order_loop tsz sz order = Some r"
  shows "sz = 0 \<longrightarrow> tsz = 0"
  by (rule size_to_order_loop.raw_induct [where P = "\<lambda>t z q r. z = 0 \<longrightarrow> t = 0", OF _ assms]) (auto simp: word_gt_0 split: if_splits)

section \<open>Properties\<close>

text \<open>
  C3: The page cache is a map from pages to page pointers: for every well-formed cache, inserting
  any list of pages at offsets below the capacity succeeds, and looking up an offset afterwards
  finds the page inserted last for the page of that offset, or what the cache had there before.
\<close>

theorem pgcache_inserts_lookup:
  assumes "cache_ok k c" "\<forall>e \<in> set es. fst e < pc_max_capacity c"
  shows "\<exists>c' w'. put_all pc_put es (c, w) = Some (c', w') \<and> cache_ok k c' \<and>
    (\<forall>off v. off < pc_max_capacity c \<longrightarrow>
      (let q = fold (\<lambda>e x. if page_no k off = page_no k (fst e) then snd e else x) es (cached c (page_no k off))
       in pgcache_lookup c' off v = Some (q, getref q v)))"
proof -
  from pc.put_all_find [of k "(c, w)" es] assms obtain s' where
    s': "put_all pc_put es (c, w) = Some s'" "cache_ok k (fst s')"
      "(\<lambda>off. off < pc_max_capacity (fst s')) = (\<lambda>off. off < pc_max_capacity c)"
      "\<forall>j. j < pc_max_capacity c \<longrightarrow> pc_find s' j = fold (\<lambda>e x. if page_no k j = page_no k (fst e) then snd e else x) es (pc_find (c, w) j)"
    by auto
  obtain c' w' where p: "s' = (c', w')" by (cases s')
  have ok: "cache_ok k c'" and cap: "off < pc_max_capacity c' \<longleftrightarrow> off < pc_max_capacity c" for off
    using s'(2,3) p by (auto simp: fun_eq_iff)
  have "pgcache_lookup c' off v = Some (q, getref q v)"
    if "off < pc_max_capacity c" "q = fold (\<lambda>e x. if page_no k off = page_no k (fst e) then snd e else x) es (cached c (page_no k off))" for off v q
  proof -
    have "cached c' (page_no k off) = q"
      using s'(4) p pc_find_eq [OF ok, of off w'] pc_find_eq [OF assms(1), of off w] that cap by simp
    then show ?thesis using lookup_eq [OF ok, of off v] that(1) cap by (simp add: Let_def)
  qed
  then show ?thesis using s'(1) p ok by (auto simp: Let_def)
qed

theorem pgcache_inserts_lookup_witness:
  "\<exists>c c' w'. pgcache_alloc 1 0x1000 = Some c \<and>
     put_all pc_put [(0x2000, 7), (0x2FFF, 9), (0x12000, 8)] (c, \<lparr>pr_count = (\<lambda>_. 1), pr_freed = []\<rparr>) = Some (c', w') \<and>
     pgcache_lookup c' 0x2010 w' = Some (9, getref 9 w')"
proof -
  obtain c where c: "pgcache_alloc 1 (2 ^ 12) = Some c" "cache_ok 12 c" "pc_order c = 1" using pgcache_alloc_spec [of 1 12] by auto
  then have cap: "pc_max_capacity c = 0x100000" by (simp add: cache_ok_def)
  from pgcache_inserts_lookup [OF c(2), of "[(0x2000, 7), (0x2FFF, 9), (0x12000, 8)]" "\<lparr>pr_count = (\<lambda>_. 1), pr_freed = []\<rparr>"] cap
  obtain c' w' where "put_all pc_put [(0x2000, 7), (0x2FFF, 9), (0x12000, 8)] (c, \<lparr>pr_count = (\<lambda>_. 1), pr_freed = []\<rparr>) = Some (c', w')"
    "pgcache_lookup c' 0x2010 w' = Some (9, getref 9 w')"
    by (auto simp: page_no_def Let_def)
  with c(1) show ?thesis by auto
qed

text \<open>
  C36: Removing a page empties exactly its slot: afterwards the lookup of an offset in that page
  finds NULL and every other page is as before. The page that was there is handed to the caller,
  who then owns its reference, or else its reference is dropped, once.
\<close>

theorem pgcache_remove_lookup:
  assumes "cache_ok k c" "off < pc_max_capacity c"
  shows "\<exists>c'. pgcache_remove c off out_page w = Some (c',
      (if out_page \<and> cached c (page_no k off) \<noteq> 0 then Some (cached c (page_no k off)) else None),
      (if out_page then w else drop_pages (cached c (page_no k off)) w)) \<and> cache_ok k c' \<and>
    (\<forall>off' v. off' < pc_max_capacity c \<longrightarrow>
      (let q = if page_no k off' = page_no k off then 0 else cached c (page_no k off')
       in pgcache_lookup c' off' v = Some (q, getref q v)))"
proof -
  from remove_spec [OF assms, of out_page w] obtain c' where
    r: "pgcache_remove c off out_page w = Some (c',
      (if out_page \<and> cached c (page_no k off) \<noteq> 0 then Some (cached c (page_no k off)) else None),
      (if out_page then w else drop_pages (cached c (page_no k off)) w))"
      "cache_ok k c'" "pc_max_capacity c' = pc_max_capacity c"
      "\<forall>n < 16 ^ Suc (unat (pc_order c)). cached c' n = (if n = page_no k off then 0 else cached c n)" by blast
  have "pgcache_lookup c' off' v = Some (q, getref q v)"
    if "off' < pc_max_capacity c" "q = (if page_no k off' = page_no k off then 0 else cached c (page_no k off'))" for off' v q
    using lookup_eq [OF r(2), of off' v] that r(3,4) page_no_less [OF assms(1) that(1)] by (simp add: Let_def)
  then show ?thesis using r(1,2) by (auto simp: Let_def)
qed

text \<open>Page 7 is inserted at 0x3000 and removed again, and handed to the caller.\<close>

theorem pgcache_remove_lookup_witness:
  "\<exists>c c1 c2. pgcache_alloc 1 0x1000 = Some c \<and>
     pgcache_insert c 0x3000 7 False \<lparr>pr_count = (\<lambda>_. 1), pr_freed = []\<rparr> = Some (c1, None, \<lparr>pr_count = (\<lambda>_. 1), pr_freed = []\<rparr>) \<and>
     pgcache_remove c1 0x3008 True \<lparr>pr_count = (\<lambda>_. 1), pr_freed = []\<rparr> = Some (c2, Some 7, \<lparr>pr_count = (\<lambda>_. 1), pr_freed = []\<rparr>)"
proof -
  let ?w = "\<lparr>pr_count = (\<lambda>_. 1), pr_freed = []\<rparr> :: page_refs"
  obtain c where c: "pgcache_alloc 1 (2 ^ 12) = Some c" "cache_ok 12 c" "pc_order c = 1" "\<forall>n. cached c n = 0"
    using pgcache_alloc_spec [of 1 12] by auto
  then have cap: "pc_max_capacity c = 0x100000" by (simp add: cache_ok_def)
  obtain c1 where c1: "pgcache_insert c 0x3000 7 False ?w = Some (c1, None, ?w)" "cache_ok 12 c1"
    "pc_max_capacity c1 = pc_max_capacity c" "cached c1 3 = 7"
    using insert_spec [OF c(2), of "0x3000" 7 False ?w] cap c(3,4) by (auto simp: page_no_def drop_pages_def)
  show ?thesis using pgcache_remove_lookup [OF c1(2), of "0x3008" True ?w] c1 c(1) cap by (auto simp: page_no_def)
qed

text \<open>
  C7: Releasing the last reference of a cache of order at most 6 ends and releases everything
  exactly once: the traversal with its explicit stack drops one reference for each page in the
  cache and frees each node of the tree one time.
\<close>

theorem pgcache_free_releases_all:
  assumes "cache_ok k c" "unat (pc_order c) \<le> 6" "pc_refcount c = 1"
  shows "\<exists>freed pages. pgcache_free c w = Some (None, freed, fold drop_pages pages w) \<and>
    mset pages = (\<Sum>n<16 ^ Suc (unat (pc_order c)). page_mset (cached c n)) \<and>
    distinct freed \<and> set freed = {p. node_at (pc_root c) p \<noteq> None}"
proof -
  let ?d = "unat (pc_order c)"
  have wf: "wf_node ?d (pc_root c)" and bits: "pc_bits_per_lvl c = 4" using assms(1) by (simp_all add: cache_ok_def)
  have cap: "16 ^ Suc ?d \<le> unat (pc_max_capacity c)" using capacity_unat [OF assms(1)] by simp
  then have pos: "0 < pc_max_capacity c" by (simp add: word_less_nat_alt) (metis gr0I le_zero_eq mult_is_0 power_not_zero zero_neq_numeral)
  from visit_node [OF assms(2) cap le_refl wf, of "pc_root c" "[]" 0 "[]" drop_page_cb True "[]" w] obtain n' where
    "visit_loop drop_page_cb 4 ?d 0 (pc_max_capacity c) True ([([], 0, 0)], pc_root c, [], w) =
      visit_loop drop_page_cb 4 ?d 0 (pc_max_capacity c) True ([], n', nodes_from ?d [] (pc_root c) 0,
        fold (run_entry drop_page_cb) (entries_from ?d (pc_root c) 0) w)"
    using assms(2) by (auto simp: released_def)
  then have "pgcache_free c w = Some (None, nodes_from ?d [] (pc_root c) 0,
      fold drop_pages (map fst (entries_from ?d (pc_root c) 0)) w)"
    using pos [unfolded word_gt_0] assms(3) bits
    by (simp add: pgcache_free_def ref_put_def internal_visit_pages_iter_def visit_loop.simps [of _ _ _ _ _ _ "([], x)" for x]
        drop_pages_cb fold_fst not_le Let_def)
  then show ?thesis using mset_entries [OF wf] nodes_from_set [OF wf, of "[]"] nodes_from_distinct [OF wf, of "[]"]
    by (auto simp: cached_def)
qed

theorem pgcache_free_releases_all_witness:
  "\<exists>c freed. pgcache_alloc 2 0x1000 = Some c \<and>
     pgcache_free c \<lparr>pr_count = (\<lambda>_. 1), pr_freed = []\<rparr> = Some (None, freed, \<lparr>pr_count = (\<lambda>_. 1), pr_freed = []\<rparr>)"
proof -
  obtain c where c: "pgcache_alloc 2 (2 ^ 12) = Some c" "cache_ok 12 c" "pc_order c = 2" "pc_refcount c = 1" "\<forall>n. cached c n = 0"
    using pgcache_alloc_spec [of 2 12] by auto
  from pgcache_free_releases_all [OF c(2) _ c(4), of "\<lparr>pr_count = (\<lambda>_. 1), pr_freed = []\<rparr>"] c(3,5)
  obtain freed pages where "pgcache_free c \<lparr>pr_count = (\<lambda>_. 1), pr_freed = []\<rparr> =
      Some (None, freed, fold drop_pages pages \<lparr>pr_count = (\<lambda>_. 1), pr_freed = []\<rparr>)" "mset pages = {#}"
    by (auto simp: page_mset_def)
  with c(1) show ?thesis by auto
qed

text \<open>
  C39: A visit that starts at offset 16 or later visits no page at all, whatever the cache holds
  and whatever the end of the range: the loop compares the byte offsets of the range with slot
  numbers of one node, and every slot of a leaf ends at 16 or before.
\<close>

theorem pgcache_visit_misses:
  assumes "cache_ok k c" "unat (pc_order c) \<le> 6" "16 \<le> start_off"
  shows "pgcache_visit_pages c start_off end_off fn s = Some (c, s)"
proof -
  let ?d = "unat (pc_order c)"
  have wf: "wf_node ?d (pc_root c)" and bits: "pc_bits_per_lvl c = 4" using assms(1) by (simp_all add: cache_ok_def)
  have "visit_loop fn 4 ?d start_off e False ([([], 0, 0)], pc_root c, [], s) = Some (pc_root c, [], s)" for e
    using visit_skip [OF assms(3,2) _ wf le_refl, of "pc_root c" "[]" 0 "[]" fn e "[]" s] assms(2)
    by (simp add: visit_loop.simps [of _ _ _ _ _ _ "([], x)" for x])
  then show ?thesis by (simp add: pgcache_visit_pages_def internal_visit_pages_iter_def bits Let_def)
qed

theorem pgcache_visit_misses_witness:
  "\<exists>c c' old w'. pgcache_alloc 1 0x1000 = Some c \<and>
     pgcache_insert c 0x3000 7 True \<lparr>pr_count = (\<lambda>_. 1), pr_freed = []\<rparr> = Some (c', old, w') \<and>
     pgcache_visit_pages c' 0x3000 0x4000 (\<lambda>page off n. (page, n + 1)) (0 :: nat) = Some (c', 0)"
proof -
  obtain c where c: "pgcache_alloc 1 (2 ^ 12) = Some c" "cache_ok 12 c" "pc_order c = 1" "\<forall>n. cached c n = 0"
    using pgcache_alloc_spec [of 1 12] by auto
  then have cap: "pc_max_capacity c = 0x100000" by (simp add: cache_ok_def)
  from insert_spec [OF c(2), of "0x3000" 7 True "\<lparr>pr_count = (\<lambda>_. 1), pr_freed = []\<rparr>"] cap obtain c' where
    c': "pgcache_insert c 0x3000 7 True \<lparr>pr_count = (\<lambda>_. 1), pr_freed = []\<rparr> =
      Some (c', Some (cached c (page_no 12 0x3000)), \<lparr>pr_count = (\<lambda>_. 1), pr_freed = []\<rparr>)" "cache_ok 12 c'" "pc_order c' = 1"
    using c(3) by auto
  have "pgcache_visit_pages c' 0x3000 0x4000 (\<lambda>page off n. (page, n + 1)) (0 :: nat) = Some (c', 0)"
    by (rule pgcache_visit_misses [OF c'(2)]) (simp_all add: c'(3))
  with c(1) c'(1) show ?thesis by auto
qed

text \<open>
  C40: For every page size other than 0 and every size up to \<open>2^59\<close>, \<open>pgcache_size_to_order\<close> returns an
  order whose cache, which holds \<open>16^(order+1)\<close> pages, covers the size. The order is 0 when one page is
  enough and otherwise exactly one more than the least order that covers the size. For 4 KiB pages
  and a size above \<open>2^60\<close> the multiplication wraps to 0 and it never returns.
\<close>

theorem pgcache_size_to_order_excess:
  "(0 < pg_size \<and> tsz \<le> 2 ^ 59 \<longrightarrow>
      (\<exists>r. pgcache_size_to_order tsz pg_size = Some (of_nat r) \<and> unat tsz \<le> unat pg_size * 16 ^ (r + 1) \<and>
        (if unat tsz \<le> unat pg_size then r = 0
         else (\<exists>q. r = q + 1 \<and> unat tsz \<le> unat pg_size * 16 ^ (q + 1) \<and> (\<forall>q' < q. unat pg_size * 16 ^ (q' + 1) < unat tsz))))) \<and>
   (2 ^ 60 < tsz \<longrightarrow> pgcache_size_to_order tsz 0x1000 = None)"
proof (intro conjI impI)
  assume a: "0 < pg_size \<and> tsz \<le> 2 ^ 59"
  then have "0 < unat pg_size" "unat tsz \<le> 2 ^ 59" by (simp_all add: word_less_nat_alt word_le_nat_alt)
  from size_to_order_bound [OF this, of 0] obtain r where r: "pgcache_size_to_order tsz pg_size = Some (of_nat r)"
      "unat tsz \<le> unat pg_size * 16 ^ r" "\<forall>q < r. unat pg_size * 16 ^ q < unat tsz"
    by (auto simp: pgcache_size_to_order_def)
  have "unat tsz \<le> unat pg_size * 16 ^ (r + 1)" using r(2) by simp
  moreover have "r = 0" if "unat tsz \<le> unat pg_size" using r(3) that by (cases r) auto
  moreover have "\<exists>q. r = q + 1 \<and> unat tsz \<le> unat pg_size * 16 ^ (q + 1) \<and> (\<forall>q' < q. unat pg_size * 16 ^ (q' + 1) < unat tsz)"
    if "\<not> unat tsz \<le> unat pg_size"
    using r(2,3) that by (cases r) auto
  ultimately show "\<exists>r. pgcache_size_to_order tsz pg_size = Some (of_nat r) \<and> unat tsz \<le> unat pg_size * 16 ^ (r + 1) \<and>
        (if unat tsz \<le> unat pg_size then r = 0
         else (\<exists>q. r = q + 1 \<and> unat tsz \<le> unat pg_size * 16 ^ (q + 1) \<and> (\<forall>q' < q. unat pg_size * 16 ^ (q' + 1) < unat tsz)))"
    using r(1) by (intro exI [of _ r]) auto
next
  assume big: "2 ^ 60 < tsz"
  have lt: "2 ^ (4 * j) < tsz" if "j \<le> 15" for j
  proof -
    have "unat (2 ^ (4 * j) :: u64) = 2 ^ (4 * j)" "unat (2 ^ 60 :: u64) = 2 ^ 60"
      using that by (intro unat_exp64; simp)+
    moreover have "(2 :: nat) ^ (4 * j) \<le> 2 ^ 60" using that by (intro power_increasing) auto
    ultimately have "(2 :: u64) ^ (4 * j) \<le> 2 ^ 60" by (simp only: word_le_nat_alt)
    then show ?thesis using big by (rule le_less_trans)
  qed
  have grow: "size_to_order_loop tsz (2 ^ (4 * j)) q = size_to_order_loop tsz (2 ^ (4 * Suc j)) (q + 1)" if "j \<le> 15" for j q
    using lt [OF that] by (subst size_to_order_loop.simps) (simp add: power_add mult.commute)
  have "\<exists>q'. size_to_order_loop tsz (2 ^ (4 * 3)) 0 = size_to_order_loop tsz (2 ^ (4 * j)) q'" if "3 \<le> j" "j \<le> 16" for j
    using that
  proof (induction j rule: dec_induct)
    case base
    then show ?case by blast
  next
    case (step n)
    then obtain q where "size_to_order_loop tsz (2 ^ (4 * 3)) 0 = size_to_order_loop tsz (2 ^ (4 * n)) q" by auto
    then show ?case using grow [of n q] step.hyps step.prems by auto
  qed
  from this [of 16] obtain q' where "size_to_order_loop tsz (2 ^ (4 * 3)) 0 = size_to_order_loop tsz (2 ^ (4 * 16)) q'" by auto
  moreover have "(2 :: u64) ^ (4 * 16) = 0" by (rule trans [OF _ word_exp_length_eq_0 [where 'a = 64]]) simp
  moreover have "(2 :: u64) ^ (4 * 3) = 0x1000" by simp
  ultimately have "size_to_order_loop tsz 0x1000 0 = size_to_order_loop tsz 0 q'" by metis
  moreover have "size_to_order_loop tsz 0 q' = None"
    using size_to_order_zero [of tsz 0 q'] big by (cases "size_to_order_loop tsz 0 q'") auto
  ultimately show "pgcache_size_to_order tsz 0x1000 = None" by (simp add: pgcache_size_to_order_def)
qed

text \<open>64 KiB fit a cache of order 0; the answer is 1.\<close>

theorem pgcache_size_to_order_excess_witness:
  "pgcache_size_to_order 0x10000 0x1000 = Some 1 \<and> (0x10000 :: nat) \<le> 0x1000 * 16 ^ (0 + 1)"
proof -
  from pgcache_size_to_order_excess [of "0x1000" "0x10000"] obtain r q where
    r: "pgcache_size_to_order 0x10000 0x1000 = Some (of_nat r)" "r = q + 1" "\<forall>q' < q. (0x1000 :: nat) * 16 ^ (q' + 1) < 0x10000"
    by (auto simp: word_le_nat_alt)
  then have "q = 0" by (cases q) auto
  with r show ?thesis by simp
qed

end
