(* ===== verification/Vm_File.thy ===== *)
theory Vm_File
  imports Page_Cache
begin

text \<open>
  Memory objects behind mappings, \<^verbatim>\<open>kernel/mm/file.c\<close>: a vm file is a window of a page cache, with a
  callback that supplies pages the cache does not have. Forked and split files share one cache, so
  caches and vnode counts live in a store addressed by pointers, 0 for NULL. The callback, the
  release of a vnode and the physical address of a page are parameters.
\<close>

section \<open>Files and operations\<close>

record vm_file =
  vf_size :: u64
  vf_off :: u64
  vf_pg_size :: u64
  vf_vnode :: u64
  vf_pgcache :: u64

record mm_objs =
  mo_caches :: "u64 \<rightharpoonup> pgcache"
  mo_vnode_refs :: "u64 \<Rightarrow> u32"
  mo_pages :: page_refs

definition getref_vnode :: "u64 \<Rightarrow> mm_objs \<Rightarrow> mm_objs" where
  "getref_vnode vn st = (if vn \<noteq> 0
     then st\<lparr>mo_vnode_refs := (mo_vnode_refs st)(vn := ref_get (mo_vnode_refs st vn))\<rparr> else st)"

definition getref_pgcache :: "u64 \<Rightarrow> mm_objs \<Rightarrow> mm_objs option" where
  "getref_pgcache pc st = (if pc = 0 then Some st
     else do {
       c \<leftarrow> mo_caches st pc;
       Some (st\<lparr>mo_caches := (mo_caches st)(pc \<mapsto> c\<lparr>pc_refcount := ref_get (pc_refcount c)\<rparr>)\<rparr>) })"

text \<open>The new cache is at address \<open>addr\<close>. The order and the page size are cut to 16 and 32 bits.\<close>

definition vm_file_alloc_anon :: "u64 \<Rightarrow> u64 \<Rightarrow> u64 \<Rightarrow> mm_objs \<Rightarrow> (vm_file \<times> mm_objs) option" where
  "vm_file_alloc_anon addr sz pg_size st = do {
     order \<leftarrow> pgcache_size_to_order sz pg_size;
     c \<leftarrow> pgcache_alloc (ucast order) (ucast pg_size);
     Some (\<lparr>vf_size = sz, vf_off = 0, vf_pg_size = pg_size, vf_vnode = 0, vf_pgcache = addr\<rparr>,
       st\<lparr>mo_caches := (mo_caches st)(addr \<mapsto> c)\<rparr>) }"

definition vm_file_fork :: "vm_file \<Rightarrow> mm_objs \<Rightarrow> (vm_file \<times> mm_objs) option" where
  "vm_file_fork file st = do {
     st' \<leftarrow> getref_pgcache (vf_pgcache file) (getref_vnode (vf_vnode file) st);
     Some (\<lparr>vf_size = vf_size file, vf_off = vf_off file, vf_pg_size = vf_pg_size file,
       vf_vnode = vf_vnode file, vf_pgcache = vf_pgcache file\<rparr>, st') }"

definition vm_file_free :: "(u64 \<Rightarrow> mm_objs \<Rightarrow> mm_objs) \<Rightarrow> vm_file \<Rightarrow> mm_objs \<Rightarrow> mm_objs option" where
  "vm_file_free vn_release file st = (if vf_vnode file \<noteq> 0 then Some (vn_release (vf_vnode file) st)
     else if vf_pgcache file = 0 then Some st
     else do {
       c \<leftarrow> mo_caches st (vf_pgcache file);
       (c', freed, w) \<leftarrow> pgcache_free c (mo_pages st);
       Some (st\<lparr>mo_caches := (mo_caches st)(vf_pgcache file := c'), mo_pages := w\<rparr>) })"

definition vm_file_getpage ::
  "(u64 \<Rightarrow> page_refs \<Rightarrow> u64 \<times> page_refs) \<Rightarrow> vm_file \<Rightarrow> u64 \<Rightarrow> mm_objs \<Rightarrow> (u64 \<times> mm_objs) option" where
  "vm_file_getpage missing_page file off0 st = (if off0 \<ge> vf_size file then Some (0, st)
     else do {
       let off = off0 + vf_off file;
       c \<leftarrow> mo_caches st (vf_pgcache file);
       (page, w) \<leftarrow> pgcache_lookup c off (mo_pages st);
       if page = 0 then do {
         let r = missing_page off w;
         if fst r \<noteq> 0 then do {
           (c', old, w') \<leftarrow> pgcache_insert c off (fst r) False (getref (fst r) (snd r));
           Some (fst r, st\<lparr>mo_caches := (mo_caches st)(vf_pgcache file \<mapsto> c'), mo_pages := w'\<rparr>) }
         else Some (0, st\<lparr>mo_pages := snd r\<rparr>) }
       else Some (page, st\<lparr>mo_pages := w\<rparr>) })"

definition vm_file_getpage_phys :: "(u64 \<Rightarrow> u64) \<Rightarrow> (u64 \<Rightarrow> page_refs \<Rightarrow> u64 \<times> page_refs) \<Rightarrow> vm_file \<Rightarrow> u64 \<Rightarrow> mm_objs \<Rightarrow>
    (u64 \<times> mm_objs) option" where
  "vm_file_getpage_phys address missing_page file off st = do {
     (page, st1) \<leftarrow> vm_file_getpage missing_page file off st;
     kassert (page \<noteq> 0);
     Some (address page, st1\<lparr>mo_pages := drop_pages page (mo_pages st1)\<rparr>) }"

definition vm_file_visit_pages ::
  "vm_file \<Rightarrow> u64 \<Rightarrow> u64 \<Rightarrow> (u64 \<Rightarrow> u64 \<Rightarrow> 's \<Rightarrow> u64 \<times> 's) \<Rightarrow> 's \<Rightarrow> mm_objs \<Rightarrow> (mm_objs \<times> 's) option" where
  "vm_file_visit_pages file start_off end_off fn s st = do {
     c \<leftarrow> mo_caches st (vf_pgcache file);
     (c', s') \<leftarrow> pgcache_visit_pages c start_off end_off fn s;
     Some (st\<lparr>mo_caches := (mo_caches st)(vf_pgcache file \<mapsto> c')\<rparr>, s') }"

text \<open>The shortened file, the new file or none, and the state.\<close>

definition vm_file_split :: "vm_file \<Rightarrow> u64 \<Rightarrow> mm_objs \<Rightarrow> (vm_file \<times> vm_file option \<times> mm_objs) option" where
  "vm_file_split file off st = do {
     kassert (vf_pg_size file \<noteq> 0);
     kassert (off mod vf_pg_size file = 0);
     if off \<ge> vf_size file then Some (file, None, st)
     else do {
       st' \<leftarrow> getref_pgcache (vf_pgcache file) (getref_vnode (vf_vnode file) st);
       Some (file\<lparr>vf_size := off\<rparr>,
         Some \<lparr>vf_size = vf_size file - off, vf_off = vf_off file + off, vf_pg_size = vf_pg_size file,
           vf_vnode = vf_vnode file, vf_pgcache = vf_pgcache file\<rparr>, st') } }"

definition vm_file_merge :: "(u64 \<Rightarrow> mm_objs \<Rightarrow> mm_objs) \<Rightarrow> vm_file \<Rightarrow> vm_file \<Rightarrow> mm_objs \<Rightarrow> (vm_file \<times> mm_objs) option" where
  "vm_file_merge vn_release file other st = do {
     kassert (vf_pg_size file = vf_pg_size other);
     kassert (vf_vnode file = vf_vnode other);
     kassert (vf_pgcache file = vf_pgcache other);
     st' \<leftarrow> vm_file_free vn_release other st;
     Some (file\<lparr>vf_size := vf_size file + vf_size other\<rparr>, st') }"

section \<open>Pages of a file\<close>

text \<open>A file whose window lies inside the capacity of a well-formed cache.\<close>

definition file_ok :: "nat \<Rightarrow> vm_file \<Rightarrow> mm_objs \<Rightarrow> bool" where
  "file_ok k f st \<longleftrightarrow> (\<exists>c. mo_caches st (vf_pgcache f) = Some c \<and> cache_ok k c \<and>
     unat (vf_off f) + unat (vf_size f) \<le> unat (pc_max_capacity c))"

lemma file_offset:
  assumes "off < vf_size f" "unat (vf_off f) + unat (vf_size f) \<le> unat (pc_max_capacity c)"
  shows "off + vf_off f < pc_max_capacity c" "unat (off + vf_off f) = unat off + unat (vf_off f)"
proof -
  have "unat off < unat (vf_size f)" using assms(1) by (simp add: word_less_nat_alt)
  then have lt: "unat off + unat (vf_off f) < unat (pc_max_capacity c)" using assms(2) by simp
  moreover have "unat (pc_max_capacity c) < 2 ^ 64" using unsigned_less [of "pc_max_capacity c"] by simp
  ultimately show u: "unat (off + vf_off f) = unat off + unat (vf_off f)" by (simp add: unat_word_ariths(1))
  show "off + vf_off f < pc_max_capacity c" using lt u by (simp add: word_less_nat_alt)
qed

lemma getpage_cached:
  assumes "mo_caches st (vf_pgcache f) = Some c" "cache_ok k c" "off < vf_size f" "off + vf_off f < pc_max_capacity c"
    and "cached c (page_no k (off + vf_off f)) = p" "p \<noteq> 0"
  shows "vm_file_getpage m f off st = Some (p, st\<lparr>mo_pages := getref p (mo_pages st)\<rparr>)"
  using assms lookup_eq [OF assms(2), of "off + vf_off f" "mo_pages st"]
  by (simp add: vm_file_getpage_def Let_def not_le)

lemma getpage_missing:
  assumes "mo_caches st (vf_pgcache f) = Some c" "cache_ok k c" "off < vf_size f" "off + vf_off f < pc_max_capacity c"
    and "cached c (page_no k (off + vf_off f)) = 0" "m (off + vf_off f) (mo_pages st) = (p, w)" "p \<noteq> 0"
  shows "\<exists>c'. vm_file_getpage m f off st =
      Some (p, st\<lparr>mo_caches := (mo_caches st)(vf_pgcache f \<mapsto> c'), mo_pages := getref p w\<rparr>) \<and>
    cache_ok k c' \<and> pc_max_capacity c' = pc_max_capacity c \<and> cached c' (page_no k (off + vf_off f)) = p"
proof -
  from insert_spec [OF assms(2,4), of p False "getref p w"] obtain c' where
    c': "pgcache_insert c (off + vf_off f) p False (getref p w) = Some (c', None, drop_pages 0 (getref p w))"
      "cache_ok k c'" "pc_max_capacity c' = pc_max_capacity c"
      "\<forall>n < 16 ^ Suc (unat (pc_order c)). cached c' n = (if n = page_no k (off + vf_off f) then p else cached c n)"
    using assms(5) by auto
  then show ?thesis
    using assms lookup_eq [OF assms(2), of "off + vf_off f" "mo_pages st"] page_no_less [OF assms(2,4)]
    by (intro exI [of _ c']) (simp add: vm_file_getpage_def Let_def not_le getref_def drop_pages_def)
qed

section \<open>Runs\<close>

text \<open>
  What may happen to the cache at \<open>a\<close> while it is in use: pages are taken through any file and any
  callback, files are forked and split, and files without a vnode are released, except for the last
  reference to this cache.
\<close>

inductive file_step :: "u64 \<Rightarrow> mm_objs \<Rightarrow> mm_objs \<Rightarrow> bool" for a where
  step_getpage: "vm_file_getpage m g off st = Some (p, st') \<Longrightarrow> file_step a st st'"
| step_fork: "vm_file_fork g st = Some (g', st') \<Longrightarrow> file_step a st st'"
| step_split: "vm_file_split g off st = Some (g1, g2, st') \<Longrightarrow> file_step a st st'"
| step_free: "vm_file_free rel g st = Some st' \<Longrightarrow> vf_vnode g = 0 \<Longrightarrow>
    vf_pgcache g = a \<Longrightarrow> map_option pc_refcount (mo_caches st a) \<noteq> Some 1 \<Longrightarrow> file_step a st st'"
| step_free_other: "vm_file_free rel g st = Some st' \<Longrightarrow> vf_vnode g = 0 \<Longrightarrow> vf_pgcache g \<noteq> a \<Longrightarrow> file_step a st st'"

text \<open>The cache at \<open>a\<close> is well formed, has capacity \<open>cap\<close> and page \<open>p\<close> in slot \<open>n\<close>.\<close>

definition cache_holds :: "nat \<Rightarrow> u64 \<Rightarrow> u64 \<Rightarrow> nat \<Rightarrow> u64 \<Rightarrow> mm_objs \<Rightarrow> bool" where
  "cache_holds k a cap n p st \<longleftrightarrow> (\<exists>c. mo_caches st a = Some c \<and> cache_ok k c \<and> pc_max_capacity c = cap \<and>
     n < 16 ^ Suc (unat (pc_order c)) \<and> cached c n = p)"

lemma cache_holds_cong: "mo_caches st' a = mo_caches st a \<Longrightarrow> cache_holds k a cap n p st' = cache_holds k a cap n p st"
  by (simp add: cache_holds_def)

lemma refcount_frame [simp]:
  "cache_ok k (c\<lparr>pc_refcount := r\<rparr>) = cache_ok k c" "cached (c\<lparr>pc_refcount := r\<rparr>) = cached c"
  by (simp_all add: cache_ok_def cached_def fun_eq_iff)

lemma cache_holds_getref:
  assumes "getref_pgcache pc (getref_vnode vn st) = Some st'" "cache_holds k a cap n p st"
  shows "cache_holds k a cap n p st'"
  using assms by (cases "pc = a") (auto simp: getref_pgcache_def getref_vnode_def cache_holds_def split: if_splits bind_splits)

lemma cache_holds_getpage:
  assumes "vm_file_getpage m g off st = Some (q, st')" "cache_holds k a cap n p st" "p \<noteq> 0"
  shows "cache_holds k a cap n p st'"
proof (cases "vf_pgcache g = a \<and> off < vf_size g")
  case False
  then have "mo_caches st' a = mo_caches st a"
    using assms(1) by (auto simp: vm_file_getpage_def Let_def not_le split: if_splits bind_splits)
  then show ?thesis using assms(2) cache_holds_cong by blast
next
  case True
  let ?o = "off + vf_off g"
  from assms(2) obtain c where c: "mo_caches st a = Some c" "cache_ok k c" "pc_max_capacity c = cap"
    "n < 16 ^ Suc (unat (pc_order c))" "cached c n = p" by (auto simp: cache_holds_def)
  note look = lookup_eq [OF c(2), of ?o "mo_pages st"]
  obtain r w where m: "m ?o (mo_pages st) = (r, w)" by (cases "m ?o (mo_pages st)")
  show ?thesis
  proof (cases "?o < pc_max_capacity c \<and> cached c (page_no k ?o) = 0 \<and> r \<noteq> 0")
    case False
    then have "mo_caches st' a = Some c"
      using assms(1) True c(1) look m
      by (auto simp: vm_file_getpage_def Let_def not_le not_less getref_def pgcache_insert_def split: if_splits)
    then show ?thesis using c by (auto simp: cache_holds_def)
  next
    case ins: True
    from insert_spec [OF c(2), of ?o r False "getref r w"] ins obtain c' old w' where
      c': "pgcache_insert c ?o r False (getref r w) = Some (c', old, w')" "cache_ok k c'" "pc_order c' = pc_order c"
        "pc_max_capacity c' = pc_max_capacity c"
        "\<forall>n < 16 ^ Suc (unat (pc_order c)). cached c' n = (if n = page_no k ?o then r else cached c n)" by blast
    have "mo_caches st' a = Some c'"
      using assms(1) True c(1) look m ins c'(1) by (auto simp: vm_file_getpage_def Let_def not_le getref_def split: if_splits)
    moreover have "cached c' n = p" using c'(5) c(4,5) ins assms(3) by auto
    ultimately show ?thesis using c' c(3,4) by (auto simp: cache_holds_def)
  qed
qed

lemma cache_holds_step: "file_step a st st' \<Longrightarrow> cache_holds k a cap n p st \<Longrightarrow> p \<noteq> 0 \<Longrightarrow> cache_holds k a cap n p st'"
proof (induction rule: file_step.induct)
  case (step_getpage m g off st q st')
  then show ?case using cache_holds_getpage by blast
next
  case (step_fork g st g' st')
  then show ?case using cache_holds_getref by (auto simp: vm_file_fork_def split: bind_splits)
next
  case (step_split g off st g1 g2 st')
  then show ?case using cache_holds_getref by (auto simp: vm_file_split_def split: if_splits bind_splits)
next
  case (step_free rel g st st')
  then show ?case by (auto simp: vm_file_free_def pgcache_free_def ref_put_def cache_holds_def split: if_splits bind_splits)
next
  case (step_free_other rel g st st')
  then have "mo_caches st' a = mo_caches st a" by (auto simp: vm_file_free_def split: if_splits bind_splits)
  then show ?case using step_free_other.prems(1) cache_holds_cong by blast
qed

lemma cache_holds_steps: "(file_step a)\<^sup>*\<^sup>* st st' \<Longrightarrow> cache_holds k a cap n p st \<Longrightarrow> p \<noteq> 0 \<Longrightarrow> cache_holds k a cap n p st'"
  by (induction rule: rtranclp_induct) (auto intro: cache_holds_step)

lemma getpage_cache_holds:
  assumes "file_ok k f st" "vm_file_getpage m f off st = Some (p, st1)" "p \<noteq> 0"
  shows "\<exists>cap. cache_holds k (vf_pgcache f) cap (page_no k (off + vf_off f)) p st1 \<and>
    unat (vf_off f) + unat (vf_size f) \<le> unat cap"
proof -
  from assms(1) obtain c where c: "mo_caches st (vf_pgcache f) = Some c" "cache_ok k c"
    "unat (vf_off f) + unat (vf_size f) \<le> unat (pc_max_capacity c)" by (auto simp: file_ok_def)
  have off: "off < vf_size f" using assms(2,3) by (auto simp: vm_file_getpage_def not_le split: if_splits)
  note cap = file_offset(1) [OF off c(3)]
  note n = page_no_less [OF c(2) cap]
  show ?thesis
  proof (cases "cached c (page_no k (off + vf_off f)) = 0")
    case False
    from getpage_cached [OF c(1,2) off cap refl False, of m] assms(2)
    have "p = cached c (page_no k (off + vf_off f))" "mo_caches st1 = mo_caches st" by auto
    then show ?thesis using c n by (auto simp: cache_holds_def)
  next
    case True
    obtain q w where mq: "m (off + vf_off f) (mo_pages st) = (q, w)" by (cases "m (off + vf_off f) (mo_pages st)")
    have q: "q \<noteq> 0"
      using assms(2,3) off c(1) True lookup_eq [OF c(2), of "off + vf_off f" "mo_pages st"] cap mq
      by (auto simp: vm_file_getpage_def Let_def getref_def split: if_splits)
    from getpage_missing [OF c(1,2) off cap True, of m, OF mq q] obtain c' where
      "vm_file_getpage m f off st = Some (q, st\<lparr>mo_caches := (mo_caches st)(vf_pgcache f \<mapsto> c'), mo_pages := getref q w\<rparr>)"
      and c': "cache_ok k c'" "pc_max_capacity c' = pc_max_capacity c" "cached c' (page_no k (off + vf_off f)) = q" by blast
    with assms(2) have "p = q" "mo_caches st1 (vf_pgcache f) = Some c'" by auto
    then show ?thesis using c' c(3) page_no_less [OF c'(1), of "off + vf_off f"] cap by (auto simp: cache_holds_def)
  qed
qed

section \<open>Properties\<close>

text \<open>
  C37: A page stays the page. Let the file's window lie inside the capacity of its cache, and let
  \<open>vm_file_getpage\<close> have given a page for an offset. Then, after any sequence of page lookups through
  any files and callbacks, forks, splits and releases of files, short of releasing the cache's last
  reference, a call for any offset in the same page gives the same page, whatever the callback would
  supply now, and only takes one more reference on it.
\<close>

theorem vm_file_getpage_stable:
  assumes "file_ok k f st" "vm_file_getpage m f off st = Some (p, st1)" "p \<noteq> 0"
    and "(file_step (vf_pgcache f))\<^sup>*\<^sup>* st1 st2"
    and "off' < vf_size f" "page_no k (off' + vf_off f) = page_no k (off + vf_off f)"
  shows "vm_file_getpage m' f off' st2 = Some (p, st2\<lparr>mo_pages := getref p (mo_pages st2)\<rparr>)"
proof -
  from getpage_cache_holds [OF assms(1-3)] obtain cap where
    "cache_holds k (vf_pgcache f) cap (page_no k (off + vf_off f)) p st1" and win: "unat (vf_off f) + unat (vf_size f) \<le> unat cap" by blast
  from cache_holds_steps [OF assms(4) this(1) assms(3)] obtain c where
    c: "mo_caches st2 (vf_pgcache f) = Some c" "cache_ok k c" "pc_max_capacity c = cap" "cached c (page_no k (off + vf_off f)) = p"
    by (auto simp: cache_holds_def)
  have "off' + vf_off f < pc_max_capacity c" using file_offset(1) [OF assms(5)] win c(3) by blast
  then show ?thesis using getpage_cached [of st2 f c k off' p m'] c assms(3,5,6) by simp
qed

text \<open>A file of 64 KiB over a fresh cache at address 0x40.\<close>

definition demo_file :: vm_file where
  "demo_file = \<lparr>vf_size = 0x10000, vf_off = 0, vf_pg_size = 0x1000, vf_vnode = 0, vf_pgcache = 0x40\<rparr>"

definition demo_objs :: "pgcache \<Rightarrow> mm_objs" where
  "demo_objs c = \<lparr>mo_caches = [0x40 \<mapsto> c], mo_vnode_refs = (\<lambda>_. 0), mo_pages = \<lparr>pr_count = (\<lambda>_. 1), pr_freed = []\<rparr>\<rparr>"

lemma demo_file_ok:
  "\<exists>c. pgcache_alloc 1 0x1000 = Some c \<and> cache_ok 12 c \<and> file_ok 12 demo_file (demo_objs c) \<and> pc_refcount c = 1 \<and>
    pc_max_capacity c = 0x100000 \<and> (\<forall>n. cached c n = 0)"
proof -
  obtain c where c: "pgcache_alloc 1 (2 ^ 12) = Some c" "cache_ok 12 c" "pc_order c = 1" "pc_refcount c = 1" "\<forall>n. cached c n = 0"
    using pgcache_alloc_spec [of 1 12] by auto
  then have "pc_max_capacity c = 0x100000" by (simp add: cache_ok_def)
  with c show ?thesis by (intro exI [of _ c]) (simp add: file_ok_def demo_file_def demo_objs_def)
qed

text \<open>Page 7 is supplied for 0x2000; it is still there after another page was supplied for 0x3000.\<close>

theorem vm_file_getpage_stable_witness:
  "\<exists>c st1 st2. pgcache_alloc 1 0x1000 = Some c \<and>
     vm_file_getpage (\<lambda>off w. (7, w)) demo_file 0x2000 (demo_objs c) = Some (7, st1) \<and>
     vm_file_getpage (\<lambda>off w. (8, w)) demo_file 0x3000 st1 = Some (8, st2) \<and>
     vm_file_getpage (\<lambda>off w. (9, w)) demo_file 0x2010 st2 = Some (7, st2\<lparr>mo_pages := getref 7 (mo_pages st2)\<rparr>)"
proof -
  from demo_file_ok obtain c where c: "pgcache_alloc 1 0x1000 = Some c" "cache_ok 12 c" "file_ok 12 demo_file (demo_objs c)"
    "pc_max_capacity c = 0x100000" "\<forall>n. cached c n = 0" by auto
  let ?w = "\<lparr>pr_count = (\<lambda>_. 1), pr_freed = []\<rparr> :: page_refs"
  from insert_spec [OF c(2), of "0x2000" 7 False "getref 7 ?w"] c(4,5) obtain c1 where
    c1: "pgcache_insert c 0x2000 7 False (getref 7 ?w) = Some (c1, None, drop_pages 0 (getref 7 ?w))" "cache_ok 12 c1"
      "pc_max_capacity c1 = 0x100000" "\<forall>n < 16 ^ Suc (unat (pc_order c)). cached c1 n = (if n = page_no 12 0x2000 then 7 else 0)" by auto
  let ?st1 = "(demo_objs c)\<lparr>mo_caches := [0x40 \<mapsto> c1], mo_pages := drop_pages 0 (getref 7 ?w)\<rparr>"
  have g1: "vm_file_getpage (\<lambda>off w. (7, w)) demo_file 0x2000 (demo_objs c) = Some (7, ?st1)"
    using c1(1) c(4,5) lookup_eq [OF c(2), of "0x2000" ?w]
    by (simp add: vm_file_getpage_def demo_file_def demo_objs_def Let_def getref_def [of 0])
  have "page_no 12 0x3000 < 16 ^ Suc (unat (pc_order c))" using page_no_less [OF c(2), of "0x3000"] c(4) by simp
  then have "cached c1 (page_no 12 (0x3000 + vf_off demo_file)) = 0" using c1(4) by (simp add: demo_file_def page_no_def)
  moreover have "mo_caches ?st1 (vf_pgcache demo_file) = Some c1" "0x3000 < vf_size demo_file"
    "0x3000 + vf_off demo_file < pc_max_capacity c1" by (simp_all add: demo_file_def c1(3))
  ultimately obtain st2 where g2: "vm_file_getpage (\<lambda>off w. (8, w)) demo_file 0x3000 ?st1 = Some (8, st2)"
    using getpage_missing [of ?st1 demo_file c1 12 "0x3000" "\<lambda>off w. (8, w)" 8 "mo_pages ?st1"] c1(2) by auto
  have "(file_step (vf_pgcache demo_file))\<^sup>*\<^sup>* ?st1 st2" using step_getpage [OF g2] by blast
  then have "vm_file_getpage (\<lambda>off w. (9, w)) demo_file 0x2010 st2 = Some (7, st2\<lparr>mo_pages := getref 7 (mo_pages st2)\<rparr>)"
    by (intro vm_file_getpage_stable [OF c(3) g1]) (simp_all add: demo_file_def page_no_def)
  with c(1) g1 g2 show ?thesis by blast
qed

text \<open>
  C38: Splitting a file that has a cache in use moves the window and nothing else: in every state the new file has at an
  offset the page that the old one has at that offset past the split, found the same way and with
  the same effect, and the shortened file those before the split. Merging the two parts gives back
  the file. Without a vnode it also gives back the caches and all counts; with one, the reference the
  split took on the vnode goes to \<open>vn_release\<close>, but the one it took on the cache stays.
\<close>

theorem vm_file_split_merge:
  assumes "vm_file_split f off st = Some (f1, Some f2, st1)" "vf_pgcache f \<noteq> 0"
    and "mo_caches st (vf_pgcache f) = Some c" "pc_refcount c \<noteq> 0"
  shows "(\<forall>st' o'. o' < vf_size f2 \<longrightarrow> off + o' < vf_size f \<and>
      vm_file_getpage m f2 o' st' = vm_file_getpage m f (off + o') st') \<and>
    (\<forall>st' o'. o' < vf_size f1 \<longrightarrow> vm_file_getpage m f1 o' st' = vm_file_getpage m f o' st') \<and>
    vm_file_merge rel f1 f2 st1 = Some (f, if vf_vnode f = 0 then st
      else rel (vf_vnode f) (getref_vnode (vf_vnode f)
        (st\<lparr>mo_caches := (mo_caches st)(vf_pgcache f \<mapsto> c\<lparr>pc_refcount := pc_refcount c + 1\<rparr>)\<rparr>)))"
proof -
  let ?st = "st\<lparr>mo_caches := (mo_caches st)(vf_pgcache f \<mapsto> c\<lparr>pc_refcount := pc_refcount c + 1\<rparr>)\<rparr>"
  have off: "off < vf_size f" and f1: "f1 = f\<lparr>vf_size := off\<rparr>"
    and f2: "f2 = \<lparr>vf_size = vf_size f - off, vf_off = vf_off f + off, vf_pg_size = vf_pg_size f, vf_vnode = vf_vnode f,
      vf_pgcache = vf_pgcache f\<rparr>"
    and st1: "st1 = getref_vnode (vf_vnode f) ?st"
    using assms by (auto simp: vm_file_split_def getref_pgcache_def getref_vnode_def ref_get_def not_le split: if_splits)
  have o': "off + o' < vf_size f" if "o' < vf_size f2" for o'
  proof -
    have "off \<le> vf_size f" using off by simp
    then have "unat o' < unat (vf_size f) - unat off" using that f2 by (simp add: word_less_nat_alt unat_sub)
    then show ?thesis using unsigned_less [of "vf_size f"] by (simp add: word_less_nat_alt unat_word_ariths(1))
  qed
  moreover have "vm_file_getpage m f2 o' st' = vm_file_getpage m f (off + o') st'" if "o' < vf_size f2" for o' st'
  proof -
    have e: "vf_pgcache f2 = vf_pgcache f" "o' + vf_off f2 = off + o' + vf_off f" by (simp_all add: f2)
    have "\<not> vf_size f2 \<le> o'" "\<not> vf_size f \<le> off + o'" using that o' [OF that] by simp_all
    then show ?thesis unfolding vm_file_getpage_def e by (simp only: if_False)
  qed
  moreover have "vm_file_getpage m f1 o' st' = vm_file_getpage m f o' st'" if "o' < vf_size f1" for o' st'
  proof -
    have e: "vf_pgcache f1 = vf_pgcache f" "vf_off f1 = vf_off f" by (simp_all add: f1)
    have "o' < vf_size f" using that off f1 less_trans by simp
    then have "\<not> vf_size f1 \<le> o'" "\<not> vf_size f \<le> o'" using that by simp_all
    then show ?thesis unfolding vm_file_getpage_def e by (simp only: if_False)
  qed
  moreover have "vm_file_merge rel f1 f2 st1 = Some (f, if vf_vnode f = 0 then st else rel (vf_vnode f) (getref_vnode (vf_vnode f) ?st))"
  proof (cases "vf_vnode f = 0")
    case True
    have "pc_refcount c + 1 \<noteq> 1" using assms(4) by simp
    then show ?thesis using True assms(2,3) f1 f2 st1
      by (auto simp: vm_file_merge_def vm_file_free_def pgcache_free_def ref_put_def getref_vnode_def fun_upd_idem)
  next
    case False
    then show ?thesis using f1 f2 st1 by (simp add: vm_file_merge_def vm_file_free_def)
  qed
  ultimately show ?thesis by blast
qed

text \<open>The demo file, and one with a vnode at 0x80, split at 0x3000 and merged.\<close>

theorem vm_file_split_merge_witness:
  "\<exists>c f1 f2 st1 g1 g2 st2. pgcache_alloc 1 0x1000 = Some c \<and> pc_refcount c = 1 \<and>
     vm_file_split demo_file 0x3000 (demo_objs c) = Some (f1, Some f2, st1) \<and>
     vm_file_merge (\<lambda>vn st. st) f1 f2 st1 = Some (demo_file, demo_objs c) \<and>
     vm_file_split (demo_file\<lparr>vf_vnode := 0x80\<rparr>) 0x3000 (demo_objs c) = Some (g1, Some g2, st2) \<and>
     vm_file_merge (\<lambda>vn st. st\<lparr>mo_vnode_refs := (mo_vnode_refs st)(vn := mo_vnode_refs st vn - 1)\<rparr>) g1 g2 st2 =
       Some (demo_file\<lparr>vf_vnode := 0x80\<rparr>, demo_objs (c\<lparr>pc_refcount := 2\<rparr>))"
proof -
  let ?f = "demo_file\<lparr>vf_vnode := 0x80\<rparr>"
  let ?rel = "\<lambda>vn st. st\<lparr>mo_vnode_refs := (mo_vnode_refs st)(vn := mo_vnode_refs st vn - 1)\<rparr>"
  from demo_file_ok obtain c where c: "pgcache_alloc 1 0x1000 = Some c" "pc_refcount c = 1" by auto
  have st: "mo_caches (demo_objs c) (vf_pgcache demo_file) = Some c" "mo_caches (demo_objs c) (vf_pgcache ?f) = Some c"
    by (simp_all add: demo_file_def demo_objs_def)
  have nz: "vf_pgcache demo_file \<noteq> 0" "vf_pgcache ?f \<noteq> 0" "pc_refcount c \<noteq> 0" using c(2) by (simp_all add: demo_file_def)
  obtain f1 f2 st1 g1 g2 st2 where sp: "vm_file_split demo_file 0x3000 (demo_objs c) = Some (f1, Some f2, st1)"
    "vm_file_split ?f 0x3000 (demo_objs c) = Some (g1, Some g2, st2)"
    by (simp add: vm_file_split_def getref_pgcache_def getref_vnode_def demo_file_def demo_objs_def)
  have "vm_file_merge (\<lambda>vn st. st) f1 f2 st1 = Some (demo_file, demo_objs c)"
    using vm_file_split_merge [OF sp(1) nz(1) st(1) nz(3), of "\<lambda>off w. (0, w)" "\<lambda>vn st. st"] by (simp add: demo_file_def)
  moreover have "vm_file_merge ?rel g1 g2 st2 = Some (?f, demo_objs (c\<lparr>pc_refcount := 2\<rparr>))"
    using vm_file_split_merge [OF sp(2) nz(2) st(2) nz(3), of "\<lambda>off w. (0, w)" ?rel] c(2)
    by (simp add: demo_file_def demo_objs_def getref_vnode_def ref_get_def fun_upd_idem)
  ultimately show ?thesis using c sp by blast
qed

end
