(* ===== verification/Linked_List.thy ===== *)
theory Linked_List
  imports Kernel_Prelude
begin

text \<open>
  The intrusive lists of \<^verbatim>\<open>include/kernel/queue.h\<close>, on which the heap, the run queues, the page and
  vnode lists and many others are built. The links inside the elements are a store from element
  addresses to next and previous pointers, 0 for NULL; following a pointer through NULL is
  undefined. Each macro is the sequence of assignments of its text.
\<close>

section \<open>Doubly linked lists\<close>

record links =
  ln_next :: "u64 \<Rightarrow> u64"
  ln_prev :: "u64 \<Rightarrow> u64"

record lhead =
  lh_first :: u64
  lh_last :: u64

type_synonym dlist = "lhead \<times> links"

definition get_next :: "u64 \<Rightarrow> links \<Rightarrow> u64 option" where
  "get_next p l = (if p = 0 then None else Some (ln_next l p))"

definition get_prev :: "u64 \<Rightarrow> links \<Rightarrow> u64 option" where
  "get_prev p l = (if p = 0 then None else Some (ln_prev l p))"

definition set_next :: "u64 \<Rightarrow> u64 \<Rightarrow> links \<Rightarrow> links option" where
  "set_next p v l = (if p = 0 then None else Some (l\<lparr>ln_next := (ln_next l)(p := v)\<rparr>))"

definition set_prev :: "u64 \<Rightarrow> u64 \<Rightarrow> links \<Rightarrow> links option" where
  "set_prev p v l = (if p = 0 then None else Some (l\<lparr>ln_prev := (ln_prev l)(p := v)\<rparr>))"

definition LIST_INIT :: lhead where
  "LIST_INIT = \<lparr>lh_first = 0, lh_last = 0\<rparr>"

definition LIST_ADD :: "u64 \<Rightarrow> dlist \<Rightarrow> dlist option" where
  "LIST_ADD el = (\<lambda>(head, l). if lh_first head = 0 then do {
       l1 \<leftarrow> set_next el 0 l;
       l2 \<leftarrow> set_prev el 0 l1;
       Some (\<lparr>lh_first = el, lh_last = el\<rparr>, l2) }
     else do {
       l1 \<leftarrow> set_next (lh_last head) el l;
       l2 \<leftarrow> set_next el 0 l1;
       l3 \<leftarrow> set_prev el (lh_last head) l2;
       Some (head\<lparr>lh_last := el\<rparr>, l3) })"

definition LIST_ADD_FRONT :: "u64 \<Rightarrow> dlist \<Rightarrow> dlist option" where
  "LIST_ADD_FRONT el = (\<lambda>(head, l). if lh_first head = 0 then do {
       l1 \<leftarrow> set_next el 0 l;
       l2 \<leftarrow> set_prev el 0 l1;
       Some (\<lparr>lh_first = el, lh_last = el\<rparr>, l2) }
     else do {
       l1 \<leftarrow> set_prev (lh_first head) el l;
       l2 \<leftarrow> set_next el (lh_first head) l1;
       l3 \<leftarrow> set_prev el 0 l2;
       Some (head\<lparr>lh_first := el\<rparr>, l3) })"

text \<open>
  \<open>LIST_INSERT\<close> is a macro: its argument \<open>after\<close> is an expression that is evaluated again at each of
  its occurrences, with the links as they are by then. \<open>list_insert_expr\<close> is the macro for any such
  expression, \<open>LIST_INSERT\<close> the macro applied to a variable.
\<close>

definition list_insert_expr :: "u64 \<Rightarrow> (links \<Rightarrow> u64 option) \<Rightarrow> dlist \<Rightarrow> dlist option" where
  "list_insert_expr el after = (\<lambda>(head, l). do {
     a \<leftarrow> after l;
     (head', l1) \<leftarrow> (if a = lh_last head then Some (head\<lparr>lh_last := el\<rparr>, l)
       else do {
         a \<leftarrow> after l;
         nx \<leftarrow> get_next a l;
         l' \<leftarrow> set_prev nx el l;
         Some (head, l') });
     a \<leftarrow> after l1;
     nx \<leftarrow> get_next a l1;
     l2 \<leftarrow> set_next el nx l1;
     a \<leftarrow> after l2;
     l3 \<leftarrow> set_prev el a l2;
     a \<leftarrow> after l3;
     l4 \<leftarrow> set_next a el l3;
     Some (head', l4) })"

definition LIST_INSERT :: "u64 \<Rightarrow> u64 \<Rightarrow> dlist \<Rightarrow> dlist option" where
  "LIST_INSERT el after = list_insert_expr el (\<lambda>_. Some after)"

text \<open>The search for the first element whose key is not smaller.\<close>

partial_function (option) ordered_pos :: "(u64 \<Rightarrow> u64) \<Rightarrow> u64 \<Rightarrow> links \<Rightarrow> u64 \<Rightarrow> u64 option" where
  "ordered_pos key el l p = (if p \<noteq> 0 \<and> key p < key el then ordered_pos key el l (ln_next l p) else Some p)"

definition LIST_INSERT_ORDERED_BY :: "(u64 \<Rightarrow> u64) \<Rightarrow> u64 \<Rightarrow> dlist \<Rightarrow> dlist option" where
  "LIST_INSERT_ORDERED_BY key el = (\<lambda>(head, l). do {
     p \<leftarrow> ordered_pos key el l (lh_first head);
     if p \<noteq> 0 then list_insert_expr el (get_prev p) (head, l)
     else LIST_ADD el (head, l) })"

definition LIST_REMOVE :: "u64 \<Rightarrow> dlist \<Rightarrow> dlist option" where
  "LIST_REMOVE el = (\<lambda>(head, l).
     if el = lh_first head then
       (if el = lh_last head then Some (\<lparr>lh_first = 0, lh_last = 0\<rparr>, l)
        else do {
          nx \<leftarrow> get_next el l;
          l1 \<leftarrow> set_prev nx 0 l;
          nx1 \<leftarrow> get_next el l1;
          l2 \<leftarrow> set_next el 0 l1;
          Some (head\<lparr>lh_first := nx1\<rparr>, l2) })
     else if el = lh_last head then do {
       pv \<leftarrow> get_prev el l;
       l1 \<leftarrow> set_next pv 0 l;
       pv1 \<leftarrow> get_prev el l1;
       l2 \<leftarrow> set_prev el 0 l1;
       Some (head\<lparr>lh_last := pv1\<rparr>, l2) }
     else do {
       nx \<leftarrow> get_next el l;
       pv \<leftarrow> get_prev el l;
       l1 \<leftarrow> set_prev nx pv l;
       pv1 \<leftarrow> get_prev el l1;
       nx1 \<leftarrow> get_next el l1;
       l2 \<leftarrow> set_next pv1 nx1 l1;
       l3 \<leftarrow> set_next el 0 l2;
       l4 \<leftarrow> set_prev el 0 l3;
       Some (head, l4) })"

definition LIST_REMOVE_FIRST :: "dlist \<Rightarrow> (u64 \<times> dlist) option" where
  "LIST_REMOVE_FIRST s = (let el = lh_first (fst s) in
     if el \<noteq> 0 then do { s' \<leftarrow> LIST_REMOVE el s; Some (el, s') } else Some (el, s))"

definition LIST_CONCAT :: "u64 \<Rightarrow> u64 \<Rightarrow> dlist \<Rightarrow> dlist option" where
  "LIST_CONCAT start fin = (\<lambda>(head, l).
     if lh_first head = 0 then Some (\<lparr>lh_first = start, lh_last = fin\<rparr>, l)
     else if start \<noteq> 0 \<and> fin \<noteq> 0 then do {
       l1 \<leftarrow> set_next (lh_last head) start l;
       l2 \<leftarrow> set_prev start (lh_last head) l1;
       Some (head\<lparr>lh_last := fin\<rparr>, l2) }
     else Some (head, l))"

text \<open>The search of \<open>LIST_FIND\<close>, \<open>RLIST_FIND\<close> and \<open>LIST_FOREACH\<close> with a break.\<close>

partial_function (option) list_find :: "(u64 \<Rightarrow> bool) \<Rightarrow> links \<Rightarrow> u64 \<Rightarrow> u64 option" where
  "list_find cond l var = (if var = 0 then Some 0 else if cond var then Some var else list_find cond l (ln_next l var))"

definition LIST_FIND :: "(u64 \<Rightarrow> bool) \<Rightarrow> dlist \<Rightarrow> u64 option" where
  "LIST_FIND cond = (\<lambda>(head, l). list_find cond l (lh_first head))"

definition RLIST_ADD_FRONT :: "u64 \<Rightarrow> u64 \<times> links \<Rightarrow> (u64 \<times> links) option" where
  "RLIST_ADD_FRONT el = (\<lambda>(p, l). do {
     l' \<leftarrow> (if p \<noteq> 0 then do { l1 \<leftarrow> set_next el p l; set_prev p el l1 } else Some l);
     Some (el, l') })"

definition RLIST_REMOVE :: "u64 \<Rightarrow> u64 \<times> links \<Rightarrow> (u64 \<times> links) option" where
  "RLIST_REMOVE el = (\<lambda>(p, l).
     if p = el then do { nx \<leftarrow> get_next el l; Some (nx, l) }
     else do {
       pv \<leftarrow> get_prev el l;
       l1 \<leftarrow> (if pv \<noteq> 0 then do { nx \<leftarrow> get_next el l; set_next pv nx l } else Some l);
       nx \<leftarrow> get_next el l1;
       l2 \<leftarrow> (if nx \<noteq> 0 then do { pv' \<leftarrow> get_prev el l1; set_prev nx pv' l1 } else Some l1);
       Some (p, l2) })"

section \<open>Singly linked lists\<close>

type_synonym slist = "lhead \<times> (u64 \<Rightarrow> u64)"

definition set_link :: "u64 \<Rightarrow> u64 \<Rightarrow> (u64 \<Rightarrow> u64) \<Rightarrow> (u64 \<Rightarrow> u64) option" where
  "set_link p v l = (if p = 0 then None else Some (l(p := v)))"

definition SLIST_ADD :: "u64 \<Rightarrow> slist \<Rightarrow> slist option" where
  "SLIST_ADD el = (\<lambda>(head, l). if lh_first head = 0 then do {
       l1 \<leftarrow> set_link el 0 l;
       Some (\<lparr>lh_first = el, lh_last = el\<rparr>, l1) }
     else do {
       l1 \<leftarrow> set_link (lh_last head) el l;
       l2 \<leftarrow> set_link el 0 l1;
       Some (head\<lparr>lh_last := el\<rparr>, l2) })"

definition SLIST_ADD_FRONT :: "u64 \<Rightarrow> slist \<Rightarrow> slist option" where
  "SLIST_ADD_FRONT el = (\<lambda>(head, l). if lh_first head = 0 then do {
       l1 \<leftarrow> set_link el 0 l;
       Some (\<lparr>lh_first = el, lh_last = el\<rparr>, l1) }
     else do {
       l1 \<leftarrow> set_link el (lh_first head) l;
       Some (head\<lparr>lh_first := el\<rparr>, l1) })"

definition SLIST_ADD_SLIST :: "u64 \<Rightarrow> u64 \<Rightarrow> slist \<Rightarrow> slist option" where
  "SLIST_ADD_SLIST other_start other_end = (\<lambda>(head, l). if lh_first head = 0 then do {
       l1 \<leftarrow> set_link other_end 0 l;
       Some (\<lparr>lh_first = other_start, lh_last = other_end\<rparr>, l1) }
     else do {
       l1 \<leftarrow> set_link (lh_last head) other_start l;
       l2 \<leftarrow> set_link other_end 0 l1;
       Some (head\<lparr>lh_last := other_end\<rparr>, l2) })"

partial_function (option) SLIST_GET_LAST :: "(u64 \<Rightarrow> u64) \<Rightarrow> u64 \<Rightarrow> u64 option" where
  "SLIST_GET_LAST l p = (if p \<noteq> 0 \<and> l p \<noteq> 0 then SLIST_GET_LAST l (l p) else Some p)"

section \<open>What a list represents\<close>

text \<open>
  \<open>seg l p xs q\<close>: the elements \<open>xs\<close> are linked in this order, the first has previous pointer \<open>p\<close> and
  the last has next pointer \<open>q\<close>. \<open>is_list\<close> adds the head.
\<close>

fun seg :: "links \<Rightarrow> u64 \<Rightarrow> u64 list \<Rightarrow> u64 \<Rightarrow> bool" where
  "seg l p [] q \<longleftrightarrow> True"
| "seg l p (x # xs) q \<longleftrightarrow> x \<noteq> 0 \<and> ln_prev l x = p \<and> ln_next l x = hd (xs @ [q]) \<and> seg l x xs q"

definition is_list :: "dlist \<Rightarrow> u64 list \<Rightarrow> bool" where
  "is_list s xs \<longleftrightarrow> distinct xs \<and> seg (snd s) 0 xs 0 \<and> lh_first (fst s) = hd (xs @ [0]) \<and> lh_last (fst s) = last (0 # xs)"

text \<open>The singly linked counterparts.\<close>

fun sseg :: "(u64 \<Rightarrow> u64) \<Rightarrow> u64 list \<Rightarrow> u64 \<Rightarrow> bool" where
  "sseg l [] q \<longleftrightarrow> True"
| "sseg l (x # xs) q \<longleftrightarrow> x \<noteq> 0 \<and> l x = hd (xs @ [q]) \<and> sseg l xs q"

definition is_slist :: "slist \<Rightarrow> u64 list \<Rightarrow> bool" where
  "is_slist s xs \<longleftrightarrow> distinct xs \<and> sseg (snd s) xs 0 \<and> lh_first (fst s) = hd (xs @ [0]) \<and>
     (xs \<noteq> [] \<longrightarrow> lh_last (fst s) = last xs)"

section \<open>Segments\<close>

lemma seg_append: "seg l p (xs @ ys) q \<longleftrightarrow> seg l p xs (hd (ys @ [q])) \<and> seg l (last (p # xs)) ys q"
  by (induction xs arbitrary: p) (auto simp: hd_append)

lemma seg_nonzero: "seg l p xs q \<Longrightarrow> 0 \<notin> set xs"
  by (induction xs arbitrary: p) auto

lemma seg_other [simp]:
  assumes "e \<notin> set xs"
  shows "seg (l\<lparr>ln_next := f(e := v)\<rparr>) p xs q = seg (l\<lparr>ln_next := f\<rparr>) p xs q"
    "seg (l\<lparr>ln_prev := g(e := v)\<rparr>) p xs q = seg (l\<lparr>ln_prev := g\<rparr>) p xs q"
    "seg (l\<lparr>ln_next := f(e := v), ln_prev := g\<rparr>) p xs q = seg (l\<lparr>ln_next := f, ln_prev := g\<rparr>) p xs q"
    "seg (l\<lparr>ln_prev := g(e := v), ln_next := f\<rparr>) p xs q = seg (l\<lparr>ln_prev := g, ln_next := f\<rparr>) p xs q"
  using assms by (induction xs arbitrary: p) auto

lemma links_id [simp]: "l\<lparr>ln_next := ln_next l\<rparr> = l" "l\<lparr>ln_prev := ln_prev l\<rparr> = l"
  by simp_all

lemma sseg_append: "sseg l (xs @ ys) q \<longleftrightarrow> sseg l xs (hd (ys @ [q])) \<and> sseg l ys q"
  by (induction xs) (auto simp: hd_append)

lemma sseg_other [simp]: "e \<notin> set xs \<Longrightarrow> sseg (l(e := v)) xs q = sseg l xs q"
  by (induction xs) auto

lemma is_list_first: "is_list (h, l) xs \<Longrightarrow> lh_first h = 0 \<longleftrightarrow> xs = []"
  using seg_nonzero by (cases xs) (auto simp: is_list_def)

lemma is_list_last: "is_list (h, l) (xs @ [x]) \<Longrightarrow> lh_last h = x \<and> x \<noteq> 0"
  using seg_nonzero [of l 0 "xs @ [x]" 0] by (auto simp: is_list_def)

lemmas link_defs = get_next_def get_prev_def set_next_def set_prev_def

section \<open>The operations on represented lists\<close>

lemma add_list:
  assumes "is_list (h, l) xs" "el \<noteq> 0" "el \<notin> set xs"
  shows "\<exists>s. LIST_ADD el (h, l) = Some s \<and> is_list s (xs @ [el])"
proof (cases xs rule: rev_cases)
  case Nil
  then show ?thesis using assms by (simp add: LIST_ADD_def is_list_def link_defs)
next
  case (snoc ys y)
  have "lh_first h \<noteq> 0" "lh_last h = y" "y \<noteq> 0" using assms(1) is_list_first is_list_last snoc by blast+
  then show ?thesis using assms snoc
    by (auto simp: LIST_ADD_def is_list_def link_defs seg_append hd_append)
qed

lemma add_front_list:
  assumes "is_list (h, l) xs" "el \<noteq> 0" "el \<notin> set xs"
  shows "\<exists>s. LIST_ADD_FRONT el (h, l) = Some s \<and> is_list s (el # xs)"
proof (cases xs)
  case Nil
  then show ?thesis using assms by (simp add: LIST_ADD_FRONT_def is_list_def link_defs)
next
  case (Cons y ys)
  then show ?thesis using assms by (auto simp: LIST_ADD_FRONT_def is_list_def link_defs)
qed

lemma LIST_INSERT_var: "LIST_INSERT el a (head, l) = do {
     (head', l1) \<leftarrow> (if a = lh_last head then Some (head\<lparr>lh_last := el\<rparr>, l)
       else do { nx \<leftarrow> get_next a l; l' \<leftarrow> set_prev nx el l; Some (head, l') });
     nx \<leftarrow> get_next a l1;
     l2 \<leftarrow> set_next el nx l1;
     l3 \<leftarrow> set_prev el a l2;
     l4 \<leftarrow> set_next a el l3;
     Some (head', l4) }"
  by (simp add: LIST_INSERT_def list_insert_expr_def)

lemma insert_list:
  assumes "is_list (h, l) (xs @ a # ys)" "el \<noteq> 0" "el \<notin> set (xs @ a # ys)"
  shows "\<exists>s. LIST_INSERT el a (h, l) = Some s \<and> is_list s (xs @ a # el # ys)"
proof (cases ys)
  case Nil
  have "lh_last h = a" "a \<noteq> 0" using assms(1) is_list_last Nil by blast+
  then show ?thesis using assms Nil
    by (auto simp: LIST_INSERT_var is_list_def link_defs seg_append hd_append)
next
  case (Cons y zs)
  have "lh_last h = last (y # zs)" using assms(1) Cons by (simp add: is_list_def)
  moreover have "last (y # zs) \<in> set (y # zs)" by (rule last_in_set) simp
  moreover have d: "a \<notin> set (y # zs)" "y \<noteq> 0" "a \<noteq> 0" using assms(1) Cons by (auto simp: is_list_def seg_append)
  ultimately have "a \<noteq> lh_last h" by metis
  then show ?thesis using assms Cons d
    by (auto simp: LIST_INSERT_var is_list_def link_defs seg_append hd_append)
qed

lemma remove_list:
  assumes "is_list (h, l) (xs @ el # ys)"
  shows "\<exists>s. LIST_REMOVE el (h, l) = Some s \<and> is_list s (xs @ ys) \<and> ln_next (snd s) el = 0 \<and> ln_prev (snd s) el = 0"
proof -
  have e: "el \<noteq> 0" "el \<notin> set xs" "el \<notin> set ys" using assms by (auto simp: is_list_def seg_append)
  show ?thesis
  proof (cases xs rule: rev_cases)
    case Nil
    show ?thesis
    proof (cases ys)
      case (Cons y zs)
      have "last (y # zs) \<in> set (y # zs)" by (rule last_in_set) simp
      then have "el \<noteq> last (y # zs)" using e Cons by metis
      then show ?thesis using assms Nil Cons e
        by (auto simp: LIST_REMOVE_def is_list_def link_defs)
    qed (use assms Nil in \<open>auto simp: LIST_REMOVE_def is_list_def\<close>)
  next
    case (snoc zs z)
    have "hd (zs @ [z]) \<in> set (zs @ [z])" by (rule hd_in_set) simp
    then have f: "el \<noteq> lh_first h" using e(2) assms snoc by (auto simp: is_list_def hd_append split: if_splits)
    show ?thesis
    proof (cases ys)
      case Nil
      then show ?thesis using assms snoc f e
        by (auto simp: LIST_REMOVE_def is_list_def link_defs seg_append hd_append)
    next
      case (Cons y ws)
      have "last (y # ws) \<in> set (y # ws)" by (rule last_in_set) simp
      then have "el \<noteq> last (y # ws)" using e Cons by metis
      then show ?thesis using assms snoc f e Cons
        by (auto simp: LIST_REMOVE_def is_list_def link_defs seg_append hd_append)
    qed
  qed
qed

lemma remove_first_list:
  assumes "is_list (h, l) xs"
  shows "\<exists>s. LIST_REMOVE_FIRST (h, l) = Some (hd (xs @ [0]), s) \<and> is_list s (tl xs)"
proof (cases xs)
  case Nil
  then show ?thesis using assms by (simp add: LIST_REMOVE_FIRST_def is_list_def)
next
  case (Cons x ys)
  then have "lh_first h = x" "x \<noteq> 0" using assms by (auto simp: is_list_def)
  then show ?thesis using remove_list [of h l "[]" x ys] assms Cons by (auto simp: LIST_REMOVE_FIRST_def)
qed

lemma concat_list:
  assumes "is_list (h, l) xs" "seg l 0 ys 0" "distinct ys" "set xs \<inter> set ys = {}"
  shows "\<exists>s. LIST_CONCAT (hd (ys @ [0])) (last (0 # ys)) (h, l) = Some s \<and> is_list s (xs @ ys)"
proof (cases xs rule: rev_cases)
  case Nil
  then show ?thesis using assms by (auto simp: LIST_CONCAT_def is_list_def)
next
  case (snoc zs z)
  have h: "lh_first h \<noteq> 0" "lh_last h = z" "z \<noteq> 0" using assms(1) is_list_first is_list_last snoc by blast+
  show ?thesis
  proof (cases ys)
    case Nil
    then show ?thesis using h assms(1) by (simp add: LIST_CONCAT_def)
  next
    case (Cons y ws)
    have "last ys \<noteq> 0" using seg_nonzero [OF assms(2)] Cons by (metis last_in_set list.distinct(1))
    then show ?thesis using h assms snoc Cons
      by (auto simp: LIST_CONCAT_def is_list_def link_defs seg_append hd_append)
  qed
qed

lemma find_list: "seg l p xs 0 \<Longrightarrow> list_find cond l (hd (xs @ [0])) = Some (case find cond xs of None \<Rightarrow> 0 | Some x \<Rightarrow> x)"
proof (induction xs arbitrary: p)
  case Nil
  then show ?case by (subst list_find.simps) simp
next
  case (Cons x xs)
  then show ?case using Cons.IH [of x] by (subst list_find.simps) simp
qed

lemma ordered_pos_list:
  "seg l p xs 0 \<Longrightarrow> ordered_pos key el l (hd (xs @ [0])) = Some (hd (dropWhile (\<lambda>x. key x < key el) xs @ [0]))"
proof (induction xs arbitrary: p)
  case Nil
  then show ?case by (subst ordered_pos.simps) simp
next
  case (Cons x xs)
  then show ?case using Cons.IH [of x] by (subst ordered_pos.simps) simp
qed

text \<open>The pointers into a list whose next pointers run through \<open>xs\<close>, whatever the previous pointers are.\<close>

lemma seg_sseg: "seg l p xs q \<Longrightarrow> sseg (ln_next l) xs q"
  by (induction xs arbitrary: p) auto

text \<open>
  In the middle of a list the first assignment of \<open>LIST_INSERT\<close> changes the previous pointer of \<open>y\<close>,
  which is the argument: from then on the argument is the new element itself.
\<close>

lemma insert_expr_middle:
  assumes "is_list (h, l) (zs @ z # y # ys)" "el \<noteq> 0" "el \<notin> set (zs @ z # y # ys)"
  shows "list_insert_expr el (get_prev y) (h, l) = Some (h,
    l\<lparr>ln_prev := (ln_prev l)(y := el, el := el), ln_next := (ln_next l)(el := el)\<rparr>)"
proof -
  have l: "ln_prev l y = z" "ln_next l z = y" "y \<noteq> 0" "z \<noteq> 0" "y \<noteq> el" "z \<noteq> el"
    using assms by (auto simp: is_list_def seg_append)
  have "lh_last h = last (y # ys)" "z \<notin> set (y # ys)" using assms(1) by (auto simp: is_list_def)
  moreover have "last (y # ys) \<in> set (y # ys)" by (rule last_in_set) simp
  ultimately have "z \<noteq> lh_last h" by metis
  then show ?thesis using l assms(2) by (simp add: list_insert_expr_def link_defs)
qed

lemma insert_expr_front:
  assumes "is_list (h, l) (y # ys)"
  shows "list_insert_expr el (get_prev y) (h, l) = None"
proof -
  have l: "ln_prev l y = 0" "y \<noteq> 0" "lh_last h = last (y # ys)" "0 \<notin> set (y # ys)"
    using assms seg_nonzero [of l 0 "y # ys" 0] by (auto simp: is_list_def)
  moreover have "last (y # ys) \<in> set (y # ys)" by (rule last_in_set) simp
  ultimately have "lh_last h \<noteq> 0" by metis
  then show ?thesis using l by (simp add: list_insert_expr_def link_defs)
qed

lemma insert_ordered_pos:
  fixes key :: "u64 \<Rightarrow> u64" and el :: u64
  assumes "is_list (h, l) xs"
  defines "after \<equiv> dropWhile (\<lambda>x. key x < key el) xs"
  shows "LIST_INSERT_ORDERED_BY key el (h, l) =
    (if after = [] then LIST_ADD el (h, l) else list_insert_expr el (get_prev (hd after)) (h, l))"
proof -
  have seg: "seg l 0 xs 0" and first: "lh_first h = hd (xs @ [0])" using assms(1) by (simp_all add: is_list_def)
  have "hd after \<noteq> 0" if "after \<noteq> []"
    using that seg_nonzero [OF seg] unfolding after_def by (metis hd_in_set set_dropWhileD)
  moreover have "ordered_pos key el l (lh_first h) = Some (hd (after @ [0]))"
    using ordered_pos_list [OF seg, of key el] first by (simp add: after_def)
  ultimately show ?thesis by (cases after) (simp_all add: LIST_INSERT_ORDERED_BY_def)
qed

lemma slist_add:
  assumes "is_slist (h, l) xs" "el \<noteq> 0" "el \<notin> set xs"
  shows "\<exists>s. SLIST_ADD el (h, l) = Some s \<and> is_slist s (xs @ [el])"
    and "\<exists>s. SLIST_ADD_FRONT el (h, l) = Some s \<and> is_slist s (el # xs)"
proof -
  show "\<exists>s. SLIST_ADD el (h, l) = Some s \<and> is_slist s (xs @ [el])"
  proof (cases xs rule: rev_cases)
    case (snoc ys y)
    have "lh_first h \<noteq> 0" using assms(1) snoc by (cases ys) (auto simp: is_slist_def)
    then show ?thesis using assms snoc by (auto simp: SLIST_ADD_def is_slist_def set_link_def sseg_append hd_append)
  qed (use assms in \<open>simp add: SLIST_ADD_def is_slist_def set_link_def\<close>)
  show "\<exists>s. SLIST_ADD_FRONT el (h, l) = Some s \<and> is_slist s (el # xs)"
    using assms by (cases xs) (auto simp: SLIST_ADD_FRONT_def is_slist_def set_link_def)
qed

lemma slist_get_last: "sseg l xs 0 \<Longrightarrow> SLIST_GET_LAST l (hd (xs @ [0])) = Some (last (0 # xs))"
proof (induction xs)
  case Nil
  then show ?case by (subst SLIST_GET_LAST.simps) simp
next
  case (Cons x xs)
  then show ?case by (cases xs) (subst SLIST_GET_LAST.simps, simp)+
qed

section \<open>Properties\<close>

text \<open>
  C9: The list macros implement lists: on a well-formed list, adding a new element at the end, at
  the front or after any element, removing any element and removing the first never follow NULL,
  and the result is the well-formed list with the element at that place or without it; a removed
  element's links are cleared.
\<close>

theorem list_macros_refine:
  assumes "is_list s xs" "el \<noteq> 0" "el \<notin> set xs"
  shows "(\<exists>s'. LIST_ADD el s = Some s' \<and> is_list s' (xs @ [el])) \<and>
    (\<exists>s'. LIST_ADD_FRONT el s = Some s' \<and> is_list s' (el # xs)) \<and>
    (\<forall>i < length xs. \<exists>s'. LIST_INSERT el (xs ! i) s = Some s' \<and> is_list s' (take (Suc i) xs @ el # drop (Suc i) xs)) \<and>
    (\<forall>i < length xs. \<exists>s'. LIST_REMOVE (xs ! i) s = Some s' \<and> is_list s' (take i xs @ drop (Suc i) xs) \<and>
      ln_next (snd s') (xs ! i) = 0 \<and> ln_prev (snd s') (xs ! i) = 0) \<and>
    (\<exists>s'. LIST_REMOVE_FIRST s = Some (hd (xs @ [0]), s') \<and> is_list s' (tl xs))"
proof -
  obtain h l where s: "s = (h, l)" by (cases s)
  have split: "xs = take i xs @ xs ! i # drop (Suc i) xs" "take (Suc i) xs = take i xs @ [xs ! i]" if "i < length xs" for i
    using that by (simp_all add: id_take_nth_drop take_Suc_conv_app_nth)
  have ins: "\<exists>s'. LIST_INSERT el (xs ! i) s = Some s' \<and> is_list s' (take (Suc i) xs @ el # drop (Suc i) xs)" if "i < length xs" for i
    using insert_list [of h l "take i xs" "xs ! i" "drop (Suc i) xs" el] assms s split [OF that] by simp
  have rem: "\<exists>s'. LIST_REMOVE (xs ! i) s = Some s' \<and> is_list s' (take i xs @ drop (Suc i) xs) \<and>
      ln_next (snd s') (xs ! i) = 0 \<and> ln_prev (snd s') (xs ! i) = 0" if "i < length xs" for i
    using remove_list [of h l "take i xs" "xs ! i" "drop (Suc i) xs"] assms(1) s split(1) [OF that] by metis
  show ?thesis
    using add_list [OF assms(1) [unfolded s] assms(2,3)] add_front_list [OF assms(1) [unfolded s] assms(2,3)]
      remove_first_list [OF assms(1) [unfolded s]] ins rem s by simp
qed

theorem list_macros_refine_witness:
  "\<exists>s s'. LIST_ADD 0x40 (LIST_INIT, \<lparr>ln_next = (\<lambda>_. 0), ln_prev = (\<lambda>_. 0)\<rparr>) = Some s \<and>
     LIST_ADD_FRONT 0x80 s = Some s' \<and> is_list s' [0x80, 0x40]"
proof -
  have "is_list (LIST_INIT, \<lparr>ln_next = (\<lambda>_. 0), ln_prev = (\<lambda>_. 0)\<rparr>) []" by (simp add: is_list_def LIST_INIT_def)
  from list_macros_refine [OF this, of "0x40"] obtain s where
    s: "LIST_ADD 0x40 (LIST_INIT, \<lparr>ln_next = (\<lambda>_. 0), ln_prev = (\<lambda>_. 0)\<rparr>) = Some s" "is_list s [0x40]" by auto
  from list_macros_refine [OF s(2), of "0x80"] s(1) show ?thesis by auto
qed

text \<open>
  C35: On a well-formed ordered list \<open>LIST_INSERT_ORDERED_BY\<close> only works when the new element is larger than all others,
  where it is appended. When the list is not empty and no element is smaller, NULL is followed. In
  every other case the element is lost: \<open>LIST_INSERT\<close> gets the expression \<open>p->prev\<close> as its argument and
  changes it with its first assignment, so that the element is linked to itself in both directions,
  the head and the chain of next pointers are those of the old list, and the element in front of
  which it belonged points back to it.
\<close>

theorem list_insert_ordered_broken:
  assumes "is_list s xs" "el \<noteq> 0" "el \<notin> set xs" "sorted (map key xs)"
  shows "if \<forall>x \<in> set xs. key x < key el
    then \<exists>s'. LIST_INSERT_ORDERED_BY key el s = Some s' \<and> is_list s' (xs @ [el]) \<and> sorted (map key (xs @ [el]))
    else if key el \<le> key (hd xs) then LIST_INSERT_ORDERED_BY key el s = None
    else \<exists>l'. LIST_INSERT_ORDERED_BY key el s = Some (fst s, l') \<and> ln_next l' el = el \<and> ln_prev l' el = el \<and>
      sseg (ln_next l') xs 0 \<and> ln_prev l' (hd (dropWhile (\<lambda>x. key x < key el) xs)) = el"
proof -
  obtain h l where s: "s = (h, l)" by (cases s)
  let ?b = "takeWhile (\<lambda>x. key x < key el) xs" and ?a = "dropWhile (\<lambda>x. key x < key el) xs"
  have L: "is_list (h, l) xs" using assms(1) s by simp
  note pos = insert_ordered_pos [OF L, of key el]
  have xs: "xs = ?b @ ?a" by simp
  show ?thesis
  proof (cases "\<forall>x \<in> set xs. key x < key el")
    case True
    then have "?a = []" by simp
    moreover have "sorted (map key (xs @ [el]))" using True assms(4) by (auto simp: sorted_append less_imp_le)
    ultimately show ?thesis using True pos add_list [OF L assms(2,3)] s by simp
  next
    case False
    then obtain y ys where a: "?a = y # ys" by (cases ?a) auto
    show ?thesis
    proof (cases "key el \<le> key (hd xs)")
      case True
      then have "xs = y # ys" using a by (cases xs) (auto simp: not_less [symmetric])
      then have "LIST_INSERT_ORDERED_BY key el s = None" using pos a insert_expr_front [of h l y ys el] L s by simp
      then show ?thesis unfolding if_not_P [OF False] if_P [OF True] .
    next
      case f: False
      then have "?b \<noteq> []" using False by (cases xs) auto
      then obtain zs z where b: "?b = zs @ [z]" by (cases ?b rule: rev_cases) auto
      have e: "xs = zs @ z # y # ys" using xs unfolding a b by simp
      let ?l = "l\<lparr>ln_prev := (ln_prev l)(y := el, el := el), ln_next := (ln_next l)(el := el)\<rparr>"
      have "LIST_INSERT_ORDERED_BY key el s = Some (fst s, ?l)"
        unfolding s pos a using insert_expr_middle [of h l zs z y ys el] L assms(2,3) e by simp
      moreover have "sseg (ln_next l) xs 0" using L by (auto simp: is_list_def dest: seg_sseg)
      moreover have "y \<noteq> el" using assms(3) e by auto
      ultimately show ?thesis unfolding if_not_P [OF False] if_not_P [OF f] using a assms(3)
        by (intro exI [of _ ?l]) simp
    qed
  qed
qed

text \<open>Elements 0x10 and 0x40 are linked, 0x20 belongs between them.\<close>

theorem list_insert_ordered_broken_witness:
  "\<exists>s0 s l'. LIST_ADD 0x10 (LIST_INIT, \<lparr>ln_next = (\<lambda>_. 0), ln_prev = (\<lambda>_. 0)\<rparr>) = Some s0 \<and> LIST_ADD 0x40 s0 = Some s \<and>
     LIST_INSERT_ORDERED_BY (\<lambda>x. x) 0x20 s = Some (fst s, l') \<and> ln_next l' 0x20 = 0x20 \<and> ln_next l' 0x10 = 0x40"
proof -
  have "is_list (LIST_INIT, \<lparr>ln_next = (\<lambda>_. 0), ln_prev = (\<lambda>_. 0)\<rparr>) []" by (simp add: is_list_def LIST_INIT_def)
  from add_list [OF this, of "0x10"] obtain s0 where
    s0: "LIST_ADD 0x10 (LIST_INIT, \<lparr>ln_next = (\<lambda>_. 0), ln_prev = (\<lambda>_. 0)\<rparr>) = Some s0" "is_list s0 [0x10]" by auto
  then obtain s where s: "LIST_ADD 0x40 s0 = Some s" "is_list s [0x10, 0x40]"
    using add_list [of "fst s0" "snd s0" "[0x10]" "0x40"] by auto
  from list_insert_ordered_broken [OF s(2), of "0x20" "\<lambda>x. x"] obtain l' where
    "LIST_INSERT_ORDERED_BY (\<lambda>x. x) 0x20 s = Some (fst s, l')" "ln_next l' 0x20 = 0x20" "ln_next l' 0x10 = 0x40" by auto
  then show ?thesis using s0(1) s(1) by blast
qed

end
