(* ===== verification/Heap_Alloc.thy ===== *)
theory Heap_Alloc
  imports Mutex Linked_List
begin

text \<open>
  The kernel heap, \<^verbatim>\<open>kernel/mm/heap.c\<close>. The heap's memory is seen through the chunk headers and
  holes in it: \<open>hp_hdrs\<close> has an entry where a header with \<open>CHUNK_MAGIC\<close> was written, \<open>hp_holes\<close>
  where a hole with \<open>HOLE_MAGIC\<close> was. What the rest of the memory holds, the contents of blocks
  included, is a parameter \<open>peek\<close> of the operations that may read it: the halfword at an address, none
  where nothing is mapped. Users of the blocks are assumed to leave headers and holes alone. Free chunks are linked with the list macros of
  \<^verbatim>\<open>queue.h\<close>, and every operation takes the heap's mutex, or the early spin lock before the first
  thread exists. Chunk sizes are kept at the 31 bits of their field.
\<close>

section \<open>Definitions\<close>

definition CHUNK_MIN_SIZE :: u64 where "CHUNK_MIN_SIZE = 8"
definition CHUNK_MAX_SIZE :: u64 where "CHUNK_MAX_SIZE = 524288"
definition CHUNK_SIZE_ALIGN :: u64 where "CHUNK_SIZE_ALIGN = 8"
definition CHUNK_MIN_ALIGN :: u64 where "CHUNK_MIN_ALIGN = 4"
definition CHUNK_MAGIC :: u16 where "CHUNK_MAGIC = 0xC0DE"
definition SIZEOF_CHUNK :: u64 where "SIZEOF_CHUNK = 24"
definition KERNEL_HEAP_VA :: u64 where "KERNEL_HEAP_VA = 0xFFFFFF8000400000"
definition KERNEL_HEAP_SIZE :: u64 where "KERNEL_HEAP_SIZE = 6 * 0x100000"

text \<open>The offset to the previous chunk is none where the code leaves the field unwritten.\<close>

record mm_chunk =
  ck_prev_offset :: "u16 option"
  ck_size :: "31 word"
  ck_free :: bool

record mm_heap =
  hp_phys_addr :: u64
  hp_virt_addr :: u64
  hp_last_chunk :: u64
  hp_chunks :: lhead
  hp_lock :: mtx
  hp_size :: u64
  hp_used :: u64
  hp_alloc_count :: u64
  hp_free_count :: u64
  hp_alloc_sizes :: "u64 list"
  hp_links :: links
  hp_hdrs :: "u64 \<rightharpoonup> mm_chunk"
  hp_holes :: "u64 \<rightharpoonup> u16"

text \<open>The heap, the early spin lock and the cpu the code runs on.\<close>

type_synonym heap_state = "mm_heap \<times> mtx \<times> cpu_ctx"

definition END_ADDR :: "mm_heap \<Rightarrow> u64" where
  "END_ADDR h = hp_virt_addr h + hp_size h"

definition get_hist_bucket :: "u64 \<Rightarrow> nat" where
  "get_hist_bucket sz =
     (if 1 \<le> sz \<and> sz \<le> 8 then 0 else if 9 \<le> sz \<and> sz \<le> 16 then 1 else if 17 \<le> sz \<and> sz \<le> 32 then 2
      else if 33 \<le> sz \<and> sz \<le> 64 then 3 else if 65 \<le> sz \<and> sz \<le> 128 then 4
      else if 129 \<le> sz \<and> sz \<le> 512 then 5 else if 513 \<le> sz \<and> sz \<le> 1024 then 6 else 7)"

definition get_prev_chunk :: "mm_heap \<Rightarrow> u64 \<Rightarrow> mm_chunk \<Rightarrow> u64 option" where
  "get_prev_chunk h chunk hdr = do {
     prev_offset \<leftarrow> ck_prev_offset hdr;
     if prev_offset = 0 then Some 0
     else do { pv \<leftarrow> hp_hdrs h (chunk - ucast prev_offset); Some (chunk - ucast prev_offset) } }"

definition get_next_chunk :: "mm_heap \<Rightarrow> u64 \<Rightarrow> mm_chunk \<Rightarrow> u64 option" where
  "get_next_chunk h chunk hdr = (if chunk = hp_last_chunk h then Some 0
     else do {
       let next_addr = chunk + (SIZEOF_CHUNK + ucast (ck_size hdr));
       let next_addr' = (if next_addr < END_ADDR h
         then (case hp_holes h next_addr of Some hole_size \<Rightarrow> next_addr + ucast hole_size | None \<Rightarrow> next_addr)
         else next_addr);
       if next_addr' \<ge> END_ADDR h then Some 0
       else do { nx \<leftarrow> hp_hdrs h next_addr'; Some next_addr' } })"

definition aquire_heap :: "heap_state \<Rightarrow> heap_state option" where
  "aquire_heap = (\<lambda>(h, kheap_lock, c).
     if c_thread c = 0 then do {
       (ok, m, c') \<leftarrow> mtx_spin_lock kheap_lock c;
       kassert ok;
       Some (h, m, c') }
     else do {
       (ok, m, c') \<leftarrow> mtx_wait_lock (lockq_chain_mtx 0) (hp_lock h) c;
       kassert ok;
       Some (h\<lparr>hp_lock := m\<rparr>, kheap_lock, c') })"

definition release_heap :: "heap_state \<Rightarrow> heap_state option" where
  "release_heap = (\<lambda>(h, kheap_lock, c).
     if c_thread c = 0 then do {
       (m, c') \<leftarrow> mtx_spin_unlock kheap_lock c;
       Some (h, m, c') }
     else do {
       (m, c') \<leftarrow> mtx_wait_unlock (hp_lock h) c;
       Some (h\<lparr>hp_lock := m\<rparr>, kheap_lock, c') })"

text \<open>
  \<open>mm_init_kheap\<close> with the physical address that \<open>mm_early_alloc_pages\<close> returned: the calls of
  \<open>early_map_entries\<close> (virtual address, physical address, count, flags), the heap and the early spin
  lock. The last two arguments are the addresses of the locks.
\<close>

definition VM_RDWR :: u32 where "VM_RDWR = 3"
definition VM_HUGE_2MB :: u32 where "VM_HUGE_2MB = 0x200"

definition mm_init_kheap :: "u64 \<Rightarrow> u64 \<Rightarrow> u64 \<Rightarrow> (u64 \<times> u64 \<times> u64 \<times> u32) list \<times> mm_heap \<times> mtx" where
  "mm_init_kheap phys_addr lock_addr kheap_lock_addr =
     (let page_count = SIZE_TO_PAGES KERNEL_HEAP_SIZE;
          big = (KERNEL_HEAP_SIZE \<ge> BIGPAGE_SIZE \<and> is_aligned phys_addr BIGPAGE_SIZE);
          num_bigpages = KERNEL_HEAP_SIZE div BIGPAGE_SIZE;
          page_count' = (if big then PAGES_TO_SIZE page_count mod BIGPAGE_SIZE else page_count);
          phys_addr' = (if big then phys_addr + num_bigpages * BIGPAGE_SIZE else phys_addr);
          virt_addr = (if big then KERNEL_HEAP_VA + num_bigpages * BIGPAGE_SIZE else KERNEL_HEAP_VA) in
      ((if big then [(KERNEL_HEAP_VA, phys_addr, num_bigpages, VM_RDWR OR VM_HUGE_2MB)] else []) @
       (if page_count' > 0 then [(virt_addr, phys_addr', page_count', VM_RDWR)] else []),
       \<lparr>hp_phys_addr = phys_addr', hp_virt_addr = KERNEL_HEAP_VA, hp_last_chunk = 0, hp_chunks = LIST_INIT,
        hp_lock = mtx_init lock_addr MTX_RECURSIVE, hp_size = KERNEL_HEAP_SIZE, hp_used = 0,
        hp_alloc_count = 0, hp_free_count = 0, hp_alloc_sizes = replicate 9 0,
        hp_links = \<lparr>ln_next = (\<lambda>_. 0), ln_prev = (\<lambda>_. 0)\<rparr>, hp_hdrs = Map.empty, hp_holes = Map.empty\<rparr>,
       mtx_init kheap_lock_addr (MTX_SPIN OR MTX_RECURSIVE)))"

section \<open>Allocation\<close>

text \<open>The loop over the free chunks. \<open>chunk\<close> is the best one so far, 0 for none.\<close>

partial_function (option) kmalloc_search ::
  "(u64 \<rightharpoonup> mm_chunk) \<Rightarrow> links \<Rightarrow> u64 \<Rightarrow> u64 \<Rightarrow> u64 \<Rightarrow> u64 \<Rightarrow> u64 option" where
  "kmalloc_search hdrs l sz alignment cur chunk = (if cur = 0 then Some chunk
     else do {
       hdr \<leftarrow> hdrs cur;
       if (cur + SIZEOF_CHUNK) mod alignment \<noteq> 0 then kmalloc_search hdrs l sz alignment (ln_next l cur) chunk
       else if ucast (ck_size hdr) \<ge> sz then do {
         better \<leftarrow> (if chunk = 0 then Some True else map_option (\<lambda>b. ck_size hdr < ck_size b) (hdrs chunk));
         kmalloc_search hdrs l sz alignment (ln_next l cur) (if better then cur else chunk) }
       else if ucast (ck_size hdr) = sz then Some cur
       else kmalloc_search hdrs l sz alignment (ln_next l cur) chunk })"

text \<open>Reusing a free chunk.\<close>

definition kmalloc_reuse :: "mm_heap \<Rightarrow> u64 \<Rightarrow> u64 \<Rightarrow> mm_heap option" where
  "kmalloc_reuse h sz chunk = do {
     (hd', l) \<leftarrow> LIST_REMOVE chunk (hp_chunks h, hp_links h);
     hdr \<leftarrow> hp_hdrs h chunk;
     Some (h\<lparr>hp_chunks := hd', hp_links := l, hp_hdrs := (hp_hdrs h)(chunk \<mapsto> hdr\<lparr>ck_free := False\<rparr>),
             hp_used := hp_used h + (sz + SIZEOF_CHUNK)\<rparr>) }"

text \<open>The gap in front of an aligned chunk becomes a hole or a free chunk.\<close>

definition kmalloc_gap :: "mm_heap \<Rightarrow> u64 \<Rightarrow> u64 \<Rightarrow> mm_heap option" where
  "kmalloc_gap h chunk_addr aligned_chunk = (if aligned_chunk \<noteq> chunk_addr then
       (let hole_size = aligned_chunk - chunk_addr in
        if hole_size < SIZEOF_CHUNK + CHUNK_MIN_SIZE
        then Some (h\<lparr>hp_holes := (hp_holes h)(chunk_addr \<mapsto> ucast hole_size), hp_used := hp_used h + hole_size\<rparr>)
        else do {
          (hd', l) \<leftarrow> LIST_ADD_FRONT chunk_addr (hp_chunks h, hp_links h);
          Some (h\<lparr>hp_chunks := hd', hp_links := l, hp_hdrs := (hp_hdrs h)(chunk_addr \<mapsto>
            \<lparr>ck_prev_offset = None, ck_size = ucast (hole_size - SIZEOF_CHUNK), ck_free = True\<rparr>)\<rparr>) })
     else Some h)"

text \<open>A new chunk behind the last one.\<close>

definition kmalloc_new :: "mm_heap \<Rightarrow> u64 \<Rightarrow> u64 \<Rightarrow> (u64 \<times> mm_heap) option" where
  "kmalloc_new h sz alignment = do {
     chunk_addr \<leftarrow> (if hp_last_chunk h = 0 then Some (hp_virt_addr h)
       else do { hdr \<leftarrow> hp_hdrs h (hp_last_chunk h);
                 Some (hp_last_chunk h + (SIZEOF_CHUNK + ucast (ck_size hdr))) });
     let aligned_mem = align_up (chunk_addr + SIZEOF_CHUNK) alignment;
     let aligned_chunk = aligned_mem - SIZEOF_CHUNK;
     h1 \<leftarrow> kmalloc_gap h chunk_addr aligned_chunk;
     kassert (\<not> aligned_mem + sz > END_ADDR h1);
     Some (aligned_chunk, h1\<lparr>
       hp_hdrs := (hp_hdrs h1)(aligned_chunk \<mapsto> \<lparr>ck_prev_offset = Some (if hp_last_chunk h1 \<noteq> 0
           then ucast (aligned_chunk - hp_last_chunk h1) else 0), ck_size = ucast sz, ck_free = False\<rparr>),
       hp_links := (hp_links h1)\<lparr>ln_next := (ln_next (hp_links h1))(aligned_chunk := 0),
         ln_prev := (ln_prev (hp_links h1))(aligned_chunk := 0)\<rparr>,
       hp_last_chunk := aligned_chunk,
       hp_used := hp_used h1 + (sz + SIZEOF_CHUNK)\<rparr>) }"

text \<open>The chunk found or made for a size that has been rounded up.\<close>

definition kmalloc_chunk :: "mm_heap \<Rightarrow> u64 \<Rightarrow> u64 \<Rightarrow> (u64 \<times> mm_heap) option" where
  "kmalloc_chunk h sz alignment = do {
     chunk \<leftarrow> kmalloc_search (hp_hdrs h) (hp_links h) sz alignment (lh_first (hp_chunks h)) 0;
     if chunk \<noteq> 0 then do { h' \<leftarrow> kmalloc_reuse h sz chunk; Some (chunk, h') }
     else kmalloc_new h sz alignment }"

definition kmalloc_stats :: "mm_heap \<Rightarrow> u64 \<Rightarrow> mm_heap" where
  "kmalloc_stats h sz = h\<lparr>hp_alloc_count := hp_alloc_count h + 1,
     hp_alloc_sizes := (hp_alloc_sizes h)[get_hist_bucket sz := hp_alloc_sizes h ! get_hist_bucket sz + 1]\<rparr>"

definition kmalloc_impl :: "heap_state \<Rightarrow> u64 \<Rightarrow> u64 \<Rightarrow> (u64 \<times> heap_state) option" where
  "kmalloc_impl s sz0 alignment = do {
     kassert (\<not> (alignment = 0 \<or> alignment AND (alignment - 1) \<noteq> 0));
     if sz0 = 0 then Some (0, s)
     else do {
       kassert (\<not> sz0 > CHUNK_MAX_SIZE);
       (h, kl, c) \<leftarrow> aquire_heap s;
       let sz = align_up (max sz0 CHUNK_MIN_SIZE) CHUNK_SIZE_ALIGN;
       (chunk, h') \<leftarrow> kmalloc_chunk (kmalloc_stats h sz0) sz alignment;
       s' \<leftarrow> release_heap (h', kl, c);
       Some (chunk + SIZEOF_CHUNK, s') } }"

definition kmalloc :: "heap_state \<Rightarrow> u64 \<Rightarrow> (u64 \<times> heap_state) option" where
  "kmalloc s sz = kmalloc_impl s sz CHUNK_MIN_ALIGN"

definition kmalloca :: "heap_state \<Rightarrow> u64 \<Rightarrow> u64 \<Rightarrow> (u64 \<times> heap_state) option" where
  "kmalloca s sz alignment = kmalloc_impl s sz alignment"

section \<open>Release\<close>

text \<open>What \<open>__kfree\<close> does with the lock held.\<close>

definition kfree_chunk :: "mm_heap \<Rightarrow> u64 \<Rightarrow> mm_chunk \<Rightarrow> mm_heap option" where
  "kfree_chunk h chunk hdr = do {
     kassert (ln_next (hp_links h) chunk = 0 \<and> ln_prev (hp_links h) chunk = 0);
     let h1 = h\<lparr>hp_hdrs := (hp_hdrs h)(chunk \<mapsto> hdr\<lparr>ck_free := True\<rparr>)\<rparr>;
     next_chunk \<leftarrow> get_next_chunk h1 chunk (hdr\<lparr>ck_free := True\<rparr>);
     (hd', l) \<leftarrow> LIST_ADD_FRONT chunk (hp_chunks h1, hp_links h1);
     Some (h1\<lparr>hp_chunks := hd', hp_links := l, hp_used := hp_used h1 - (ucast (ck_size hdr) + SIZEOF_CHUNK)\<rparr>) }"

text \<open>
  The magic of the header the allocator wrote at \<open>chunk\<close>, or what the memory there holds; reading
  where nothing is mapped faults. When foreign memory carries the magic, the code goes on with
  whatever lies behind it as the header; nothing can be said of that run, and it is none as well.
\<close>

definition chunk_magic :: "(u64 \<Rightarrow> u16 option) \<Rightarrow> mm_heap \<Rightarrow> u64 \<Rightarrow> u16 option" where
  "chunk_magic peek h chunk = (case hp_hdrs h chunk of Some hdr \<Rightarrow> Some CHUNK_MAGIC | None \<Rightarrow> peek chunk)"

definition kfree_impl :: "(u64 \<Rightarrow> u16 option) \<Rightarrow> heap_state \<Rightarrow> u64 \<Rightarrow> heap_state option" where
  "kfree_impl peek = (\<lambda>(h0, kl0, c0) ptr. if ptr = 0 then Some (h0, kl0, c0)
     else do {
       let h = h0\<lparr>hp_free_count := hp_free_count h0 + 1\<rparr>;
       let chunk = ptr - SIZEOF_CHUNK;
       magic \<leftarrow> chunk_magic peek h chunk;
       if magic \<noteq> CHUNK_MAGIC then Some (h, kl0, c0)
       else do {
         hdr \<leftarrow> hp_hdrs h chunk;
         if ck_free hdr then Some (h, kl0, c0)
         else do {
           (h1, kl, c) \<leftarrow> aquire_heap (h, kl0, c0);
           h2 \<leftarrow> kfree_chunk h1 chunk hdr;
           release_heap (h2, kl, c) } } })"

section \<open>Other entry points\<close>

text \<open>The product wraps before it is compared.\<close>

definition kcalloc :: "heap_state \<Rightarrow> u64 \<Rightarrow> u64 \<Rightarrow> (u64 \<times> heap_state) option" where
  "kcalloc s nmemb sz = (if nmemb = 0 \<or> sz = 0 then Some (0, s)
     else do {
       let tot = nmemb * sz;
       kassert (\<not> tot > CHUNK_MAX_SIZE);
       kmalloc s tot })"

definition kheap_is_valid_ptr :: "(u64 \<Rightarrow> u16 option) \<Rightarrow> mm_heap \<Rightarrow> u64 \<Rightarrow> bool option" where
  "kheap_is_valid_ptr peek h ptr = do {
     let chunk_addr = ptr - SIZEOF_CHUNK;
     if chunk_addr < hp_virt_addr h \<or> chunk_addr > END_ADDR h then Some False
     else do { magic \<leftarrow> chunk_magic peek h chunk_addr; Some (magic = CHUNK_MAGIC) } }"

definition kheap_ptr_to_phys :: "(u64 \<Rightarrow> u16 option) \<Rightarrow> mm_heap \<Rightarrow> u64 \<Rightarrow> u64 option" where
  "kheap_ptr_to_phys peek h ptr = (if ptr = KERNEL_HEAP_VA then Some (hp_phys_addr h)
     else do {
       ok \<leftarrow> kheap_is_valid_ptr peek h ptr;
       kassert ok;
       Some (hp_phys_addr h + (ptr - hp_virt_addr h)) })"

section \<open>The layout of the heap\<close>

text \<open>
  The chunks \<open>cs\<close> fill the heap from address \<open>a\<close> to \<open>e\<close>, each directly behind the one before it or
  behind the hole that follows that one.
\<close>

fun tiled :: "(u64 \<rightharpoonup> mm_chunk) \<Rightarrow> (u64 \<rightharpoonup> u16) \<Rightarrow> nat \<Rightarrow> u64 list \<Rightarrow> nat \<Rightarrow> bool" where
  "tiled H holes a [] e \<longleftrightarrow> a = e"
| "tiled H holes a (c # cs) e \<longleftrightarrow> unat c = a + (case holes (of_nat a) of None \<Rightarrow> 0 | Some k \<Rightarrow> unat k) \<and>
     (case H c of None \<Rightarrow> False | Some hdr \<Rightarrow> tiled H holes (unat c + 24 + unat (ck_size hdr)) cs e)"

text \<open>The chunks \<open>cs\<close> in the order of their addresses, those on the free list \<open>ys\<close>, and the end \<open>e\<close>.\<close>

definition heap_layout :: "mm_heap \<Rightarrow> u64 list \<Rightarrow> u64 list \<Rightarrow> nat \<Rightarrow> bool" where
  "heap_layout h cs ys e \<longleftrightarrow> hp_virt_addr h = KERNEL_HEAP_VA \<and> hp_size h = KERNEL_HEAP_SIZE \<and>
     tiled (hp_hdrs h) (hp_holes h) (unat KERNEL_HEAP_VA) cs e \<and> e \<le> unat KERNEL_HEAP_VA + unat KERNEL_HEAP_SIZE \<and>
     dom (hp_hdrs h) = set cs \<and> hp_last_chunk h = last (0 # cs) \<and> (\<forall>x \<in> dom (hp_holes h). unat x < e) \<and>
     is_list (hp_chunks h, hp_links h) ys \<and> set ys = {c. \<exists>hdr. hp_hdrs h c = Some hdr \<and> ck_free hdr} \<and>
     (\<forall>c hdr. hp_hdrs h c = Some hdr \<longrightarrow> \<not> ck_free hdr \<longrightarrow> ln_next (hp_links h) c = 0 \<and> ln_prev (hp_links h) c = 0)"

definition heap_inv :: "mm_heap \<Rightarrow> bool" where
  "heap_inv h \<longleftrightarrow> (\<exists>cs ys e. heap_layout h cs ys e)"

text \<open>The blocks in use: addresses of their first byte and sizes.\<close>

definition live :: "mm_heap \<Rightarrow> u64 \<rightharpoonup> nat" where
  "live h p = (case hp_hdrs h (p - SIZEOF_CHUNK) of
     Some hdr \<Rightarrow> if ck_free hdr then None else Some (unat (ck_size hdr)) | None \<Rightarrow> None)"

definition bytes :: "u64 \<Rightarrow> nat \<Rightarrow> nat set" where
  "bytes p n = {unat p ..< unat p + n}"

lemma tiled_append: "tiled H holes a (cs @ ds) e \<longleftrightarrow> (\<exists>m. tiled H holes a cs m \<and> tiled H holes m ds e)"
  by (induction cs arbitrary: a) (auto split: option.splits)

lemma tiled_le: "tiled H holes a cs e \<Longrightarrow> a \<le> e"
  by (induction cs arbitrary: a) (fastforce split: option.splits)+

lemma tiled_mem:
  "tiled H holes a cs e \<Longrightarrow> c \<in> set cs \<Longrightarrow> H c = Some hdr \<Longrightarrow> a \<le> unat c \<and> unat c + 24 + unat (ck_size hdr) \<le> e"
proof (induction cs arbitrary: a)
  case (Cons d cs)
  then show ?case using tiled_le [of H holes "unat d + 24 + unat (ck_size hdr)" cs e]
    by (fastforce split: option.splits)
qed simp

lemma tiled_hdr: "tiled H holes a cs e \<Longrightarrow> c \<in> set cs \<Longrightarrow> H c \<noteq> None"
  by (induction cs arbitrary: a) (auto split: option.splits)

lemma tiled_distinct: "tiled H holes a cs e \<Longrightarrow> distinct cs"
proof (induction cs arbitrary: a)
  case (Cons d cs)
  then obtain hdr where "H d = Some hdr" "tiled H holes (unat d + 24 + unat (ck_size hdr)) cs e"
    by (auto split: option.splits)
  then show ?case using Cons.IH tiled_mem [of H holes _ cs e d hdr] by fastforce
qed simp

lemma tiled_disjoint:
  assumes "tiled H holes a cs e" "c \<in> set cs" "d \<in> set cs" "c \<noteq> d" "H c = Some x" "H d = Some y"
  shows "unat c + 24 + unat (ck_size x) \<le> unat d \<or> unat d + 24 + unat (ck_size y) \<le> unat c"
  using assms
proof (induction cs arbitrary: a)
  case (Cons b cs)
  then obtain hdr where b: "H b = Some hdr" and t: "tiled H holes (unat b + 24 + unat (ck_size hdr)) cs e"
    by (auto split: option.splits)
  show ?case
  proof (cases "c = b \<or> d = b")
    case True
    then show ?thesis using Cons.prems b tiled_mem [OF t, of d y] tiled_mem [OF t, of c x] by auto
  next
    case False
    then show ?thesis using Cons t by auto
  qed
qed simp

lemma tiled_cong:
  assumes "tiled H holes a cs e" "\<forall>c \<in> set cs. map_option ck_size (H' c) = map_option ck_size (H c)"
    and "\<forall>x. a \<le> x \<and> x < e \<longrightarrow> holes' (of_nat x) = holes (of_nat x)"
  shows "tiled H' holes' a cs e"
  using assms
proof (induction cs arbitrary: a)
  case (Cons c cs)
  then obtain hdr where c: "H c = Some hdr" and t: "tiled H holes (unat c + 24 + unat (ck_size hdr)) cs e"
    and u: "unat c = a + (case holes (of_nat a) of None \<Rightarrow> 0 | Some k \<Rightarrow> unat k)"
    by (auto split: option.splits)
  have "a \<le> unat c" "unat c < e" using u tiled_le [OF t] by simp_all
  moreover obtain hdr' where "H' c = Some hdr'" "ck_size hdr' = ck_size hdr" using Cons.prems(2) c by auto
  ultimately show ?case using u Cons.IH [OF t] Cons.prems(2,3) by (auto split: option.splits)
qed simp

lemma tiled_other [simp]: "c \<notin> set cs \<Longrightarrow> tiled (H(c := v)) holes a cs e = tiled H holes a cs e"
  by (induction cs arbitrary: a) (auto split: option.splits)

section \<open>Best fit\<close>

text \<open>What the loop over the free chunks computes.\<close>

definition fits :: "(u64 \<rightharpoonup> mm_chunk) \<Rightarrow> u64 \<Rightarrow> u64 \<Rightarrow> u64 \<Rightarrow> bool" where
  "fits H sz alignment c \<longleftrightarrow> (c + SIZEOF_CHUNK) mod alignment = 0 \<and> ucast (ck_size (the (H c))) \<ge> sz"

fun best_fit :: "(u64 \<rightharpoonup> mm_chunk) \<Rightarrow> u64 \<Rightarrow> u64 \<Rightarrow> u64 \<Rightarrow> u64 list \<Rightarrow> u64" where
  "best_fit H sz alignment b [] = b"
| "best_fit H sz alignment b (c # cs) = best_fit H sz alignment
     (if fits H sz alignment c \<and> (b = 0 \<or> ck_size (the (H c)) < ck_size (the (H b))) then c else b) cs"

lemma search_best_fit:
  assumes "seg l p ys 0" "\<forall>y \<in> set ys. H y \<noteq> None" "b = 0 \<or> H b \<noteq> None"
  shows "kmalloc_search H l sz alignment (hd (ys @ [0])) b = Some (best_fit H sz alignment b ys)"
  using assms
proof (induction ys arbitrary: p b)
  case Nil
  then show ?case by (subst kmalloc_search.simps) simp
next
  case (Cons y ys)
  then obtain hdr where h: "H y = Some hdr" by auto
  have n: "ln_next l y = hd (ys @ [0])" and s: "seg l y ys 0" and y: "y \<noteq> 0" using Cons.prems(1) by auto
  have IH: "kmalloc_search H l sz alignment (hd (ys @ [0])) b' = Some (best_fit H sz alignment b' ys)"
    if "b' = 0 \<or> H b' \<noteq> None" for b'
    using Cons.IH [OF s _ that] Cons.prems(2) by simp
  have step: "best_fit H sz alignment b (y # ys) = best_fit H sz alignment
      (if fits H sz alignment y \<and> (b = 0 \<or> ck_size (the (H y)) < ck_size (the (H b))) then y else b) ys"
    by simp
  show ?case using Cons.prems(3) y n h IH [of y] IH [of b] unfolding step
    by (subst kmalloc_search.simps) (auto simp: fits_def)
qed

lemma best_fit_0: "0 \<notin> set ys \<Longrightarrow> best_fit H sz al b ys = 0 \<longleftrightarrow> b = 0 \<and> (\<forall>y \<in> set ys. \<not> fits H sz al y)"
  by (induction ys arbitrary: b) auto

lemma best_fit_mem: "best_fit H sz al b ys = b \<or> best_fit H sz al b ys \<in> set ys \<and> fits H sz al (best_fit H sz al b ys)"
proof (induction ys arbitrary: b)
  case (Cons y ys)
  then show ?case using Cons.IH [of y] Cons.IH [of b] by (cases "best_fit H sz al y ys = y") auto
qed simp

lemma best_fit_least:
  assumes "0 \<notin> set ys" "best_fit H sz al b ys \<noteq> 0"
  shows "(\<forall>y \<in> set ys. fits H sz al y \<longrightarrow> ck_size (the (H (best_fit H sz al b ys))) \<le> ck_size (the (H y))) \<and>
    (b \<noteq> 0 \<longrightarrow> ck_size (the (H (best_fit H sz al b ys))) \<le> ck_size (the (H b)))"
  using assms
proof (induction ys arbitrary: b)
  case (Cons y ys)
  let ?b = "if fits H sz al y \<and> (b = 0 \<or> ck_size (the (H y)) < ck_size (the (H b))) then y else b"
  have step: "best_fit H sz al b (y # ys) = best_fit H sz al ?b ys" by simp
  have y: "y \<noteq> 0" "0 \<notin> set ys" using Cons.prems(1) by auto
  show ?case using Cons.IH [of ?b] Cons.prems(2) y unfolding step
    by (auto split: if_splits)
qed simp

section \<open>Locking\<close>

text \<open>
  Nobody holds the early spin lock or the heap's mutex, and the cpu runs a thread, or none and then
  it keeps no list of claims either.
\<close>

definition heap_unlocked :: "heap_state \<Rightarrow> bool" where
  "heap_unlocked = (\<lambda>(h, kl, c).
     m_lock kl = MTX_UNOWNED \<and> m_data kl = 0 \<and> mtx_get_lc kl = SPINLOCK_LOCKCLASS \<and> mtx_idle (hp_lock h) \<and>
     (if c_thread c = 0 then c_claims c = None else thread_ptr (c_thread c)))"

lemma heap_locking:
  assumes "heap_unlocked (h, kl, c)"
  shows "\<exists>m1 kl1 c1 c2. aquire_heap (h, kl, c) = Some (h\<lparr>hp_lock := m1\<rparr>, kl1, c1) \<and>
    (\<forall>h'. hp_lock h' = m1 \<longrightarrow> release_heap (h', kl1, c1) = Some (h'\<lparr>hp_lock := hp_lock h\<rparr>, kl, c2)) \<and>
    (\<forall>h'. hp_lock h' = hp_lock h \<longrightarrow> heap_unlocked (h', kl, c2))"
proof (cases "c_thread c = 0")
  case True
  then obtain kl1 c1 where "mtx_spin_lock kl c = Some (True, kl1, c1)" "c_thread c1 = 0"
    "mtx_spin_unlock kl1 c1 = Some (kl, c\<lparr>c_saved := c_intr c\<rparr>)"
    using early_locking [of kl c] assms by (auto simp: heap_unlocked_def)
  then show ?thesis using True assms
    by - (rule exI [of _ "hp_lock h"], rule exI [of _ kl1], rule exI [of _ c1], rule exI [of _ "c\<lparr>c_saved := c_intr c\<rparr>"],
      auto simp: aquire_heap_def release_heap_def heap_unlocked_def)
next
  case False
  then have t: "thread_ptr (c_thread c)" and i: "mtx_idle (hp_lock h)" using assms by (auto simp: heap_unlocked_def)
  let ?c1 = "c\<lparr>c_lock_count := c_lock_count c + 1\<rparr>"
  have l: "mtx_wait_lock (lockq_chain_mtx 0) (hp_lock h) c = Some (True, held (hp_lock h) (c_thread c) 1, ?c1)"
    using lock_held [OF i t, of 0] by simp
  have "mtx_wait_unlock (held (hp_lock h) (c_thread c) 1) ?c1 = Some (hp_lock h, c)"
    using unlock_held [OF i, of ?c1 0] t by simp
  then show ?thesis using False l t i assms
    by - (rule exI [of _ "held (hp_lock h) (c_thread c) 1"], rule exI [of _ kl], rule exI [of _ ?c1], rule exI [of _ c],
      auto simp: aquire_heap_def release_heap_def heap_unlocked_def)
qed

section \<open>The free list\<close>

lemma add_front_frame:
  assumes "LIST_ADD_FRONT el (h, l) = Some (h', l')" "x \<noteq> el" "x \<noteq> lh_first h"
  shows "ln_next l' x = ln_next l x \<and> ln_prev l' x = ln_prev l x"
  using assms by (auto simp: LIST_ADD_FRONT_def link_defs split: if_splits)

lemma remove_frame:
  assumes "LIST_REMOVE el (h, l) = Some (h', l')" "x \<noteq> el" "x \<noteq> ln_next l el" "x \<noteq> ln_prev l el"
  shows "ln_next l' x = ln_next l x \<and> ln_prev l' x = ln_prev l x"
  using assms by (auto simp: LIST_REMOVE_def link_defs split: if_splits)

lemma seg_neighbours:
  assumes "seg l 0 ys 0" "y \<in> set ys"
  shows "ln_next l y \<in> insert 0 (set ys)" "ln_prev l y \<in> insert 0 (set ys)"
proof -
  obtain as bs where ys: "ys = as @ y # bs" using assms(2) by (meson split_list)
  have "ln_next l y = hd (bs @ [0])" "ln_prev l y = last (0 # as)" using assms(1) unfolding ys by (simp_all add: seg_append)
  moreover have "hd (bs @ [0]) \<in> insert 0 (set bs)" by (cases bs) simp_all
  moreover have "last (0 # as) \<in> insert 0 (set as)" by (cases as rule: rev_cases) simp_all
  ultimately show "ln_next l y \<in> insert 0 (set ys)" "ln_prev l y \<in> insert 0 (set ys)"
    unfolding ys by auto
qed

section \<open>Chunks and the free list\<close>

text \<open>The part of the layout that does not depend on which chunk is the last one.\<close>

definition heap_core :: "mm_heap \<Rightarrow> u64 list \<Rightarrow> u64 list \<Rightarrow> nat \<Rightarrow> bool" where
  "heap_core h cs ys e \<longleftrightarrow> hp_virt_addr h = KERNEL_HEAP_VA \<and> hp_size h = KERNEL_HEAP_SIZE \<and>
     tiled (hp_hdrs h) (hp_holes h) (unat KERNEL_HEAP_VA) cs e \<and> dom (hp_hdrs h) = set cs \<and>
     is_list (hp_chunks h, hp_links h) ys \<and> set ys = {c. \<exists>hdr. hp_hdrs h c = Some hdr \<and> ck_free hdr} \<and>
     (\<forall>c hdr. hp_hdrs h c = Some hdr \<longrightarrow> \<not> ck_free hdr \<longrightarrow> ln_next (hp_links h) c = 0 \<and> ln_prev (hp_links h) c = 0)"

lemma layout_core: "heap_layout h cs ys e \<longleftrightarrow> heap_core h cs ys e \<and> e \<le> unat KERNEL_HEAP_VA + unat KERNEL_HEAP_SIZE \<and>
    hp_last_chunk h = last (0 # cs) \<and> (\<forall>x \<in> dom (hp_holes h). unat x < e)"
  by (auto simp: heap_layout_def heap_core_def)

lemma heap_va_pos: "0 < unat KERNEL_HEAP_VA"
  by (simp add: KERNEL_HEAP_VA_def)

lemma core_mem:
  assumes "heap_core h cs ys e" "hp_hdrs h c = Some hdr"
  shows "c \<in> set cs \<and> unat KERNEL_HEAP_VA \<le> unat c \<and> unat c + 24 + unat (ck_size hdr) \<le> e"
  using assms tiled_mem [of "hp_hdrs h" "hp_holes h" "unat KERNEL_HEAP_VA" cs e c hdr]
  by (auto simp: heap_core_def)

lemma core_fresh:
  assumes "heap_core h cs ys e" "e \<le> unat c"
  shows "hp_hdrs h c = None" "c \<notin> set cs" "c \<notin> set ys"
proof -
  show n: "hp_hdrs h c = None" using core_mem [OF assms(1), of c] assms(2) by (cases "hp_hdrs h c") auto
  have "dom (hp_hdrs h) = set cs" "set ys \<subseteq> dom (hp_hdrs h)" using assms(1) by (auto simp: heap_core_def)
  then show "c \<notin> set cs" "c \<notin> set ys" using n by blast+
qed

lemma core_ys:
  assumes "heap_core h cs ys e" "y \<in> set ys"
  shows "\<exists>hdr. hp_hdrs h y = Some hdr \<and> ck_free hdr" "y \<noteq> 0"
  using assms seg_nonzero [of "hp_links h" 0 ys 0] by (auto simp: heap_core_def is_list_def)

lemma core_add:
  assumes "heap_core h cs ys e" "e \<le> unat c" "unat c = e + (case hp_holes h (of_nat e) of None \<Rightarrow> 0 | Some k \<Rightarrow> unat k)"
    and "\<not> ck_free hdr"
  shows "heap_core (h\<lparr>hp_hdrs := (hp_hdrs h)(c \<mapsto> hdr), hp_links := (hp_links h)\<lparr>
      ln_next := (ln_next (hp_links h))(c := 0), ln_prev := (ln_prev (hp_links h))(c := 0)\<rparr>\<rparr>)
    (cs @ [c]) ys (unat c + 24 + unat (ck_size hdr))"
proof -
  note f = core_fresh [OF assms(1,2)]
  have "tiled ((hp_hdrs h)(c \<mapsto> hdr)) (hp_holes h) (unat KERNEL_HEAP_VA) cs e"
    using assms(1) f(2) by (simp add: heap_core_def)
  then have "tiled ((hp_hdrs h)(c \<mapsto> hdr)) (hp_holes h) (unat KERNEL_HEAP_VA) (cs @ [c]) (unat c + 24 + unat (ck_size hdr))"
    using assms(3) unfolding tiled_append by (intro exI [of _ e]) simp
  moreover have "set ys = {x. \<exists>hx. ((hp_hdrs h)(c \<mapsto> hdr)) x = Some hx \<and> ck_free hx}"
    using assms(1,4) f(1) by (auto simp: heap_core_def)
  moreover have "is_list (hp_chunks h, (hp_links h)\<lparr>ln_next := (ln_next (hp_links h))(c := 0),
      ln_prev := (ln_prev (hp_links h))(c := 0)\<rparr>) ys"
    using assms(1) f(3) by (simp add: heap_core_def is_list_def)
  moreover have "hp_virt_addr h = KERNEL_HEAP_VA" "hp_size h = KERNEL_HEAP_SIZE" "dom (hp_hdrs h) = set cs"
    "\<forall>c hdr. hp_hdrs h c = Some hdr \<longrightarrow> \<not> ck_free hdr \<longrightarrow> ln_next (hp_links h) c = 0 \<and> ln_prev (hp_links h) c = 0"
    using assms(1) by (simp_all add: heap_core_def)
  ultimately show ?thesis by (simp add: heap_core_def)
qed

lemma core_add_free:
  assumes "heap_core h cs ys (unat c)" "hp_holes h c = None" "ck_free hdr"
  shows "\<exists>hd' l. LIST_ADD_FRONT c (hp_chunks h, hp_links h) = Some (hd', l) \<and>
    heap_core (h\<lparr>hp_chunks := hd', hp_links := l, hp_hdrs := (hp_hdrs h)(c \<mapsto> hdr)\<rparr>) (cs @ [c]) (c # ys)
      (unat c + 24 + unat (ck_size hdr))"
proof -
  note f = core_fresh [OF assms(1) order_refl]
  have c: "c \<noteq> 0" using assms(1) tiled_le [of "hp_hdrs h" "hp_holes h" "unat KERNEL_HEAP_VA" cs "unat c"] heap_va_pos
    by (auto simp: heap_core_def)
  have "is_list (hp_chunks h, hp_links h) ys" using assms(1) by (simp add: heap_core_def)
  from add_front_list [OF this c f(3)] obtain hd' l where l: "LIST_ADD_FRONT c (hp_chunks h, hp_links h) = Some (hd', l)"
    "is_list (hd', l) (c # ys)" by auto
  have fr: "ln_next l x = ln_next (hp_links h) x \<and> ln_prev l x = ln_prev (hp_links h) x" if "x \<noteq> c" "x \<notin> set ys" "x \<noteq> 0" for x
  proof -
    have "lh_first (hp_chunks h) \<in> insert 0 (set ys)" using assms(1) by (cases ys) (auto simp: heap_core_def is_list_def)
    then show ?thesis using add_front_frame [OF l(1), of x] that by auto
  qed
  have "tiled ((hp_hdrs h)(c \<mapsto> hdr)) (hp_holes h) (unat KERNEL_HEAP_VA) cs (unat c)"
    using assms(1) f(2) by (simp add: heap_core_def)
  then have "tiled ((hp_hdrs h)(c \<mapsto> hdr)) (hp_holes h) (unat KERNEL_HEAP_VA) (cs @ [c]) (unat c + 24 + unat (ck_size hdr))"
    using assms(2) unfolding tiled_append by (intro exI [of _ "unat c"]) simp
  moreover have "ln_next l x = 0 \<and> ln_prev l x = 0" if x: "hp_hdrs h x = Some hx" "\<not> ck_free hx" "x \<noteq> c" for x hx
  proof -
    have "x \<notin> set ys" "ln_next (hp_links h) x = 0 \<and> ln_prev (hp_links h) x = 0" using x assms(1) by (auto simp: heap_core_def)
    moreover have "x \<noteq> 0" using core_mem [OF assms(1) x(1)] heap_va_pos by auto
    ultimately show ?thesis using fr [of x] x(3) by simp
  qed
  moreover have "set (c # ys) = {x. \<exists>hx. ((hp_hdrs h)(c \<mapsto> hdr)) x = Some hx \<and> ck_free hx}"
    using assms(1,3) f(1) by (auto simp: heap_core_def)
  moreover have "hp_virt_addr h = KERNEL_HEAP_VA" "hp_size h = KERNEL_HEAP_SIZE" "dom (hp_hdrs h) = set cs"
    using assms(1) by (simp_all add: heap_core_def)
  ultimately have "heap_core (h\<lparr>hp_chunks := hd', hp_links := l, hp_hdrs := (hp_hdrs h)(c \<mapsto> hdr)\<rparr>) (cs @ [c]) (c # ys)
      (unat c + 24 + unat (ck_size hdr))"
    using l(2) assms(3) by (simp add: heap_core_def)
  then show ?thesis using l(1) by blast
qed

section \<open>The operations on the layout\<close>

lemma live_upd:
  assumes "hp_hdrs h' = (hp_hdrs h)(c \<mapsto> hdr)"
  shows "live h' = (live h)(c + SIZEOF_CHUNK := if ck_free hdr then None else Some (unat (ck_size hdr)))"
  using assms by (auto simp: live_def fun_eq_iff)

lemma live_cong: "hp_hdrs h' = hp_hdrs h \<Longrightarrow> live h' = live h"
  by (simp add: live_def fun_eq_iff)

lemma layout_mem:
  assumes "heap_layout h cs ys e" "hp_hdrs h c = Some hdr"
  shows "c \<in> set cs \<and> c \<noteq> 0 \<and> unat c + 24 + unat (ck_size hdr) \<le> e \<and> unat KERNEL_HEAP_VA \<le> unat c"
  using core_mem [of h cs ys e c hdr] assms heap_va_pos by (auto simp: layout_core)

text \<open>Changing whether a chunk is free, together with its place on the free list.\<close>

lemma layout_flip:
  assumes "heap_layout h cs ys e" "hp_hdrs h c = Some hdr"
    and "is_list (hd', l) ys'" "set ys' = (if f then insert c (set ys) else set ys - {c})"
    and "\<And>x. x \<noteq> c \<Longrightarrow> x \<notin> set ys \<Longrightarrow> x \<noteq> 0 \<Longrightarrow> ln_next l x = ln_next (hp_links h) x \<and> ln_prev l x = ln_prev (hp_links h) x"
    and "\<not> f \<Longrightarrow> ln_next l c = 0 \<and> ln_prev l c = 0"
  shows "heap_layout (h\<lparr>hp_chunks := hd', hp_links := l, hp_hdrs := (hp_hdrs h)(c \<mapsto> hdr\<lparr>ck_free := f\<rparr>)\<rparr>) cs ys' e"
proof -
  let ?H = "(hp_hdrs h)(c \<mapsto> hdr\<lparr>ck_free := f\<rparr>)"
  have ys: "set ys = {c. \<exists>hdr. hp_hdrs h c = Some hdr \<and> ck_free hdr}" using assms(1) by (simp add: heap_layout_def)
  have "tiled ?H (hp_holes h) (unat KERNEL_HEAP_VA) cs e"
    by (rule tiled_cong [of "hp_hdrs h" "hp_holes h"]) (use assms(1,2) in \<open>simp_all add: heap_layout_def\<close>)
  moreover have "dom ?H = set cs" using assms(1,2) by (auto simp: heap_layout_def)
  moreover have "set ys' = {x. \<exists>hx. ?H x = Some hx \<and> ck_free hx}" unfolding assms(4) ys using assms(2) by auto
  moreover have "ln_next l x = 0 \<and> ln_prev l x = 0" if x: "?H x = Some hx" "\<not> ck_free hx" for x hx
  proof (cases "x = c")
    case True
    then show ?thesis using assms(6) x by auto
  next
    case False
    then have h: "hp_hdrs h x = Some hx" "x \<notin> set ys" using x ys by auto
    moreover have "x \<noteq> 0" using layout_mem [OF assms(1) h(1)] by simp
    moreover have "ln_next (hp_links h) x = 0 \<and> ln_prev (hp_links h) x = 0" using assms(1) h(1) x(2) by (simp add: heap_layout_def)
    ultimately show ?thesis using assms(5) [OF False] by simp
  qed
  ultimately show ?thesis using assms(1,3) by (simp add: heap_layout_def)
qed

lemma reuse_layout:
  assumes "heap_layout h cs ys e" "c \<in> set ys"
  shows "\<exists>h' hdr ys'. hp_hdrs h c = Some hdr \<and> kmalloc_reuse h sz c = Some h' \<and> heap_layout h' cs ys' e \<and>
    hp_lock h' = hp_lock h \<and> live h' = (live h)(c + SIZEOF_CHUNK \<mapsto> unat (ck_size hdr)) \<and> hp_used h' = hp_used h + (sz + SIZEOF_CHUNK)"
proof -
  obtain as bs where ys: "ys = as @ c # bs" using assms(2) by (meson split_list)
  have L: "is_list (hp_chunks h, hp_links h) ys" using assms(1) by (simp add: heap_layout_def)
  obtain hdr where hdr: "hp_hdrs h c = Some hdr" using assms by (auto simp: heap_layout_def)
  obtain hd' l where r: "LIST_REMOVE c (hp_chunks h, hp_links h) = Some (hd', l)" "is_list (hd', l) (as @ bs)"
    "ln_next l c = 0" "ln_prev l c = 0"
    using remove_list [of "hp_chunks h" "hp_links h" as c bs] L ys by auto
  have d: "set (as @ bs) = (if False then insert c (set ys) else set ys - {c})" using L ys by (auto simp: is_list_def)
  have "ln_next l x = ln_next (hp_links h) x \<and> ln_prev l x = ln_prev (hp_links h) x" if "x \<noteq> c" "x \<notin> set ys" "x \<noteq> 0" for x
  proof -
    have "x \<noteq> ln_next (hp_links h) c" "x \<noteq> ln_prev (hp_links h) c"
      using seg_neighbours [of "hp_links h" ys c] L assms(2) that by (auto simp: is_list_def)
    then show ?thesis using remove_frame [OF r(1) that(1)] by simp
  qed
  from layout_flip [OF assms(1) hdr r(2) d this] r(3,4)
  have "heap_layout (h\<lparr>hp_chunks := hd', hp_links := l, hp_hdrs := (hp_hdrs h)(c \<mapsto> hdr\<lparr>ck_free := False\<rparr>)\<rparr>) cs (as @ bs) e" by simp
  then have "heap_layout (h\<lparr>hp_chunks := hd', hp_links := l, hp_hdrs := (hp_hdrs h)(c \<mapsto> hdr\<lparr>ck_free := False\<rparr>),
      hp_used := hp_used h + (sz + SIZEOF_CHUNK)\<rparr>) cs (as @ bs) e"
    by (simp add: heap_layout_def)
  then show ?thesis using hdr r(1)
    by (intro exI [of _ "h\<lparr>hp_chunks := hd', hp_links := l, hp_hdrs := (hp_hdrs h)(c \<mapsto> hdr\<lparr>ck_free := False\<rparr>),
      hp_used := hp_used h + (sz + SIZEOF_CHUNK)\<rparr>"] exI [of _ hdr] exI [of _ "as @ bs"])
       (simp add: kmalloc_reuse_def live_upd [of _ h c "hdr\<lparr>ck_free := False\<rparr>"])
qed

lemma heap_end: "unat (KERNEL_HEAP_VA + KERNEL_HEAP_SIZE) = unat KERNEL_HEAP_VA + unat KERNEL_HEAP_SIZE"
  by (simp add: KERNEL_HEAP_VA_def KERNEL_HEAP_SIZE_def)

lemma heap_end_bound: "unat KERNEL_HEAP_VA + unat KERNEL_HEAP_SIZE + 24 + 2 ^ 38 + 2 ^ 20 < 2 ^ 64"
  by (simp add: KERNEL_HEAP_VA_def KERNEL_HEAP_SIZE_def)

lemma unat_size: "unat (ucast (x :: 31 word) :: u64) = unat x"
proof -
  have "unat x < 2 ^ 31" using unsigned_less [of x] by simp
  then show ?thesis by (simp add: unsigned_ucast_eq take_bit_nat_eq_self_iff)
qed

lemma unat_chunk_end:
  assumes "unat c + 24 + unat (x :: 31 word) < 2 ^ 64"
  shows "unat (c + (SIZEOF_CHUNK + ucast x)) = unat c + 24 + unat x"
proof -
  have "unat (SIZEOF_CHUNK + ucast x) = 24 + unat x"
    using assms by (subst unat_add_lem [THEN iffD1]) (auto simp: unat_size SIZEOF_CHUNK_def)
  then show ?thesis using assms by (subst unat_add_lem [THEN iffD1]) auto
qed

text \<open>The walk to the next chunk always finds a header.\<close>

lemma next_chunk_ok:
  assumes "heap_layout h cs ys e" "hp_hdrs h c = Some hdr"
  shows "\<exists>n. get_next_chunk h c hdr = Some n \<and> (n = 0 \<or> n \<in> set cs)"
proof (cases "c = hp_last_chunk h")
  case True
  then show ?thesis by (simp add: get_next_chunk_def)
next
  case False
  have e: "e \<le> unat KERNEL_HEAP_VA + unat KERNEL_HEAP_SIZE" using assms(1) by (simp add: heap_layout_def)
  obtain as bs where cs: "cs = as @ c # bs" using layout_mem [OF assms] by (meson split_list)
  then obtain d ds where bs: "bs = d # ds" using False assms(1) by (cases bs) (auto simp: heap_layout_def)
  let ?a = "unat c + 24 + unat (ck_size hdr)"
  have "tiled (hp_hdrs h) (hp_holes h) ?a (d # ds) e" and "tiled (hp_hdrs h) (hp_holes h) (unat KERNEL_HEAP_VA) cs e"
    using assms unfolding cs bs by (auto simp: heap_layout_def tiled_append)
  then obtain x where d: "unat d = ?a + (case hp_holes h (of_nat ?a) of None \<Rightarrow> 0 | Some k \<Rightarrow> unat k)"
    "hp_hdrs h d = Some x" "?a \<le> unat d"
    by (auto split: option.splits)
  have du: "unat d + 24 + unat (ck_size x) \<le> e" using layout_mem [OF assms(1) d(2)] by simp
  define v where "v = c + (SIZEOF_CHUNK + ucast (ck_size hdr))"
  have uv: "unat v = ?a" unfolding v_def using du d(3) e heap_end_bound by (intro unat_chunk_end) simp
  then have v: "v = of_nat ?a" by (metis of_nat_unat ucast_id)
  have END: "END_ADDR h = KERNEL_HEAP_VA + KERNEL_HEAP_SIZE" using assms(1) by (simp add: END_ADDR_def heap_layout_def)
  have lt: "v < END_ADDR h" "d < END_ADDR h" unfolding END word_less_nat_alt heap_end using uv d(3) du e by simp_all
  have "d = (case hp_holes h v of Some k \<Rightarrow> v + ucast k | None \<Rightarrow> v)"
  proof (cases "hp_holes h v")
    case None
    then have "unat d = unat v" using d(1) uv v by simp
    then show ?thesis using None by simp
  next
    case (Some k)
    then have "unat d = unat v + unat k" using d(1) uv v by simp
    then have "of_nat (unat d) = (of_nat (unat v) + of_nat (unat k) :: u64)" by simp
    then show ?thesis using Some by (simp add: of_nat_unat)
  qed
  then have "get_next_chunk h c hdr = Some d"
    using False lt d(2) unfolding get_next_chunk_def v_def [symmetric] Let_def
    by (auto split: option.splits dest: leD)
  then show ?thesis using cs bs by auto
qed

lemma next_chunk_cong:
  assumes "hp_last_chunk h' = hp_last_chunk h" "hp_virt_addr h' = hp_virt_addr h" "hp_size h' = hp_size h"
    "hp_holes h' = hp_holes h" "hp_hdrs h' = hp_hdrs h"
  shows "get_next_chunk h' c hdr = get_next_chunk h c hdr"
  unfolding get_next_chunk_def END_ADDR_def assms by (rule refl)

lemma kfree_layout:
  assumes "heap_layout h cs ys e" "hp_hdrs h c = Some hdr" "\<not> ck_free hdr"
  shows "\<exists>h'. kfree_chunk h c hdr = Some h' \<and> heap_layout h' cs (c # ys) e \<and> hp_lock h' = hp_lock h \<and>
    live h' = (live h)(c + SIZEOF_CHUNK := None) \<and> hp_used h' = hp_used h - (ucast (ck_size hdr) + SIZEOF_CHUNK)"
proof -
  have L: "is_list (hp_chunks h, hp_links h) ys" and z: "ln_next (hp_links h) c = 0" "ln_prev (hp_links h) c = 0"
    and c: "c \<notin> set ys" "c \<noteq> 0"
    using assms layout_mem [OF assms(1,2)] by (auto simp: heap_layout_def)
  from add_front_list [OF L c(2,1)] obtain hd' l where l: "LIST_ADD_FRONT c (hp_chunks h, hp_links h) = Some (hd', l)"
    "is_list (hd', l) (c # ys)" by auto
  let ?h1 = "h\<lparr>hp_hdrs := (hp_hdrs h)(c \<mapsto> hdr\<lparr>ck_free := True\<rparr>)\<rparr>"
  let ?h2 = "h\<lparr>hp_chunks := hd', hp_links := l, hp_hdrs := (hp_hdrs h)(c \<mapsto> hdr\<lparr>ck_free := True\<rparr>)\<rparr>"
  have "ln_next l x = ln_next (hp_links h) x \<and> ln_prev l x = ln_prev (hp_links h) x" if "x \<noteq> c" "x \<notin> set ys" "x \<noteq> 0" for x
  proof -
    have "lh_first (hp_chunks h) \<in> insert 0 (set ys)" using L by (cases ys) (auto simp: is_list_def)
    then show ?thesis using add_front_frame [OF l(1), of x] that by auto
  qed
  then have h2: "heap_layout ?h2 cs (c # ys) e"
    using layout_flip [OF assms(1,2) l(2), of True] by simp
  obtain n where "get_next_chunk ?h2 c (hdr\<lparr>ck_free := True\<rparr>) = Some n"
    using next_chunk_ok [OF h2, of c "hdr\<lparr>ck_free := True\<rparr>"] by auto
  then have n: "get_next_chunk ?h1 c (hdr\<lparr>ck_free := True\<rparr>) = Some n" using next_chunk_cong [of ?h1 ?h2] by simp
  let ?h3 = "?h2\<lparr>hp_used := hp_used h - (ucast (ck_size hdr) + SIZEOF_CHUNK)\<rparr>"
  have "kfree_chunk h c hdr = Some ?h3" using z n l(1) by (simp add: kfree_chunk_def)
  moreover have "heap_layout ?h3 cs (c # ys) e" using h2 by (simp add: heap_layout_def)
  moreover have "live ?h3 = (live h)(c + SIZEOF_CHUNK := None)" by (simp add: live_upd [of ?h3 h c "hdr\<lparr>ck_free := True\<rparr>"])
  ultimately show ?thesis by (intro exI [of _ ?h3]) simp
qed

text \<open>Where the next new chunk goes.\<close>

lemma top_addr:
  assumes "heap_layout h cs ys e"
  shows "\<exists>a. (if hp_last_chunk h = 0 then Some (hp_virt_addr h)
      else do { hdr \<leftarrow> hp_hdrs h (hp_last_chunk h);
                Some (hp_last_chunk h + (SIZEOF_CHUNK + ucast (ck_size hdr))) }) = Some a \<and> unat a = e"
proof (cases cs rule: rev_cases)
  case Nil
  then show ?thesis using assms by (auto simp: heap_layout_def)
next
  case (snoc ds c)
  then have l: "hp_last_chunk h = c" using assms by (simp add: heap_layout_def)
  have "tiled (hp_hdrs h) (hp_holes h) (unat KERNEL_HEAP_VA) (ds @ [c]) e" using assms snoc by (simp add: heap_layout_def)
  then obtain hdr where hdr: "hp_hdrs h c = Some hdr" "e = unat c + 24 + unat (ck_size hdr)"
    by (auto simp: tiled_append split: option.splits)
  have "e < 2 ^ 64" using assms heap_end_bound by (simp add: heap_layout_def)
  then have "unat (c + (SIZEOF_CHUNK + ucast (ck_size hdr))) = e" using hdr(2) by (simp add: unat_chunk_end)
  moreover have "c \<noteq> 0" using layout_mem [OF assms hdr(1)] by simp
  ultimately show ?thesis using l hdr(1) by simp
qed

lemma layout_top_hole: "heap_layout h cs ys e \<Longrightarrow> unat a = e \<Longrightarrow> hp_holes h a = None"
  by (cases "hp_holes h a") (auto simp: heap_layout_def)

lemma tiled_hole_other:
  assumes "tiled H holes b cs e" "unat a = e"
  shows "tiled H (holes(a := v)) b cs e"
proof (rule tiled_cong [OF assms(1)])
  have "of_nat x \<noteq> a" if "x < e" for x
  proof -
    have "unat a < 2 ^ 64" using unsigned_less [of a] by simp
    then have "x < 2 ^ 64" using that assms(2) by simp
    then have "unat (of_nat x :: u64) = x" by (simp add: unat_of_nat)
    then show ?thesis using that assms(2) by auto
  qed
  then show "\<forall>x. b \<le> x \<and> x < e \<longrightarrow> (holes(a := v)) (of_nat x) = holes (of_nat x)" by simp
qed simp

lemma gap_layout:
  assumes "heap_layout h cs ys e" "unat a = e" "e \<le> unat c" "unat c \<le> unat KERNEL_HEAP_VA + unat KERNEL_HEAP_SIZE"
  shows "\<exists>h1 cs1 ys1 e1. kmalloc_gap h a c = Some h1 \<and> heap_core h1 cs1 ys1 e1 \<and> e1 \<le> unat c \<and>
    unat c = e1 + (case hp_holes h1 (of_nat e1) of None \<Rightarrow> 0 | Some k \<Rightarrow> unat k) \<and>
    (\<forall>x \<in> dom (hp_holes h1). unat x \<le> unat c) \<and> hp_last_chunk h1 = hp_last_chunk h \<and> hp_lock h1 = hp_lock h \<and> live h1 = live h"
proof -
  have core: "heap_core h cs ys e" and holes: "\<forall>x \<in> dom (hp_holes h). unat x < e" using assms(1) by (simp_all add: layout_core)
  have below: "\<forall>x \<in> dom (hp_holes h). unat x \<le> unat c" using holes assms(3) by (meson less_imp_le order_trans)
  have a: "of_nat e = a" using assms(2) by auto
  have none: "hp_holes h a = None" using layout_top_hole [OF assms(1,2)] .
  have ca: "unat (c - a) = unat c - e" using assms(2,3) by (simp add: unat_sub word_le_nat_alt)
  let ?P = "\<lambda>h1 cs1 ys1 e1. kmalloc_gap h a c = Some h1 \<and> heap_core h1 cs1 ys1 e1 \<and> e1 \<le> unat c \<and>
    unat c = e1 + (case hp_holes h1 (of_nat e1) of None \<Rightarrow> 0 | Some k \<Rightarrow> unat k) \<and>
    (\<forall>x \<in> dom (hp_holes h1). unat x \<le> unat c) \<and> hp_last_chunk h1 = hp_last_chunk h \<and> hp_lock h1 = hp_lock h \<and> live h1 = live h"
  consider "c = a" | "c \<noteq> a" "c - a < 32" | "c \<noteq> a" "\<not> c - a < 32" by blast
  then show ?thesis
  proof cases
    case 1
    then have "kmalloc_gap h a c = Some h" "unat c = e" by (simp_all add: kmalloc_gap_def assms(2))
    then have "?P h cs ys e" using core none a holes by (auto intro: less_imp_le)
    then show ?thesis by blast
  next
    case 2
    let ?h = "h\<lparr>hp_holes := (hp_holes h)(a \<mapsto> ucast (c - a)), hp_used := hp_used h + (c - a)\<rparr>"
    have g: "kmalloc_gap h a c = Some ?h" using 2 by (simp add: kmalloc_gap_def SIZEOF_CHUNK_def CHUNK_MIN_SIZE_def Let_def)
    have "unat (c - a) < 32" using 2 by (simp add: word_less_nat_alt)
    then have u: "unat (ucast (c - a) :: u16) = unat c - e"
      by (simp add: unsigned_ucast_eq take_bit_nat_eq_self_iff flip: ca)
    have "tiled (hp_hdrs h) ((hp_holes h)(a \<mapsto> ucast (c - a))) (unat KERNEL_HEAP_VA) cs e"
      using core assms(2) by (intro tiled_hole_other) (simp_all add: heap_core_def)
    then have "heap_core ?h cs ys e" using core by (simp add: heap_core_def)
    moreover have "\<forall>x \<in> dom (hp_holes ?h). unat x \<le> unat c" using below assms(2,3) by simp
    moreover have "live ?h = live h" by (rule live_cong) simp
    ultimately have "?P ?h cs ys e" using g u assms(3) unfolding a by simp
    then show ?thesis by blast
  next
    case 3
    let ?hdr = "\<lparr>ck_prev_offset = None, ck_size = ucast (c - a - SIZEOF_CHUNK), ck_free = True\<rparr>"
    have "heap_core h cs ys (unat a)" using core assms(2) by simp
    from core_add_free [OF this none, of ?hdr] obtain hd' l where
      l: "LIST_ADD_FRONT a (hp_chunks h, hp_links h) = Some (hd', l)" and
      k: "heap_core (h\<lparr>hp_chunks := hd', hp_links := l, hp_hdrs := (hp_hdrs h)(a \<mapsto> ?hdr)\<rparr>) (cs @ [a]) (a # ys)
        (unat a + 24 + unat (ck_size ?hdr))" by auto
    let ?h = "h\<lparr>hp_chunks := hd', hp_links := l, hp_hdrs := (hp_hdrs h)(a \<mapsto> ?hdr)\<rparr>"
    have g: "kmalloc_gap h a c = Some ?h" using 3 l by (simp add: kmalloc_gap_def SIZEOF_CHUNK_def CHUNK_MIN_SIZE_def Let_def)
    have ge: "32 \<le> unat c - e" using 3 by (simp add: word_less_nat_alt flip: ca)
    have "24 \<le> c - a" using ge by (simp add: word_le_nat_alt ca)
    then have "unat (c - a - SIZEOF_CHUNK) = unat c - e - 24" by (simp add: SIZEOF_CHUNK_def unat_sub ca)
    moreover have "unat c - e - 24 < 2 ^ 31"
      using assms(4) tiled_le [of "hp_hdrs h" "hp_holes h" "unat KERNEL_HEAP_VA" cs e] core
      by (simp add: heap_core_def KERNEL_HEAP_SIZE_def)
    ultimately have "unat (ucast (c - a - SIZEOF_CHUNK) :: 31 word) = unat c - e - 24"
      by (simp add: unsigned_ucast_eq take_bit_nat_eq_self_iff)
    then have e1: "unat a + 24 + unat (ck_size ?hdr) = unat c" using ge assms(2,3) by simp
    have "hp_holes h c = None" using holes assms(3) by (meson domIff leD)
    moreover have "live ?h = live h"
      using core_fresh(1) [OF core, of a] assms(2) by (auto simp: live_def fun_eq_iff)
    moreover have "\<forall>x \<in> dom (hp_holes ?h). unat x \<le> unat c" using below by simp
    ultimately have "?P ?h (cs @ [a]) (a # ys) (unat c)" using g k [unfolded e1] by simp
    then show ?thesis by blast
  qed
qed

lemma new_layout:
  assumes "heap_layout h cs ys e" "k \<le> 38" "unat sz \<le> 524288" "unat KERNEL_HEAP_SIZE + unat KERNEL_HEAP_VA = E"
  shows "\<exists>v. unat v = e \<and> (let m = unat (align_up (v + SIZEOF_CHUNK) (2 ^ k)) in
    e + 24 \<le> m \<and> m < e + 24 + 2 ^ k \<and> m mod 2 ^ k = 0 \<and>
    (if m + unat sz \<le> E then \<exists>c h' cs' ys'. kmalloc_new h sz (2 ^ k) = Some (c, h') \<and> unat c + 24 = m \<and>
       heap_layout h' cs' ys' (m + unat sz) \<and> hp_lock h' = hp_lock h \<and> live h' = (live h)(c + SIZEOF_CHUNK \<mapsto> unat sz)
     else kmalloc_new h sz (2 ^ k) = None))"
proof -
  obtain v where v: "(if hp_last_chunk h = 0 then Some (hp_virt_addr h)
      else do { hdr \<leftarrow> hp_hdrs h (hp_last_chunk h);
                Some (hp_last_chunk h + (SIZEOF_CHUNK + ucast (ck_size hdr))) }) = Some v" "unat v = e"
    using top_addr [OF assms(1)] by blast
  have e: "e \<le> E" "E + 24 + 2 ^ 38 + 2 ^ 20 < 2 ^ 64" using assms(1,4) heap_end_bound by (simp_all add: heap_layout_def)
  have u: "unat (v + SIZEOF_CHUNK) = e + 24"
    using v(2) e by (subst unat_add_lem [THEN iffD1]) (auto simp: SIZEOF_CHUNK_def)
  have k: "(2 :: nat) ^ k \<le> 2 ^ 38" using assms(2) by (rule power_increasing) simp
  define m where "m = align_up (v + SIZEOF_CHUNK) (2 ^ k)"
  have "unat (v + SIZEOF_CHUNK) + (2 ^ k - 1) < 2 ^ 64" using u k e by simp
  note al = align_up_pow2 [OF _ this, folded m_def]
  have m: "e + 24 \<le> unat m" "unat m < e + 24 + 2 ^ k" "unat m mod 2 ^ k = 0" using al assms(2) u by simp_all
  have mc: "unat (m - SIZEOF_CHUNK) + 24 = unat m"
    using m(1) by (simp add: unat_sub word_le_nat_alt SIZEOF_CHUNK_def)
  have ms: "unat (m + sz) = unat m + unat sz"
    using m(2) k e assms(3) by (subst unat_add_lem [THEN iffD1]) auto
  note new = kmalloc_new_def v(1) bind.bind_lunit Let_def m_def [symmetric]
  have "if unat m + unat sz \<le> E then \<exists>c h' cs' ys'. kmalloc_new h sz (2 ^ k) = Some (c, h') \<and> unat c + 24 = unat m \<and>
       heap_layout h' cs' ys' (unat m + unat sz) \<and> hp_lock h' = hp_lock h \<and> live h' = (live h)(c + SIZEOF_CHUNK \<mapsto> unat sz)
     else kmalloc_new h sz (2 ^ k) = None"
  proof (cases "unat m + unat sz \<le> E")
    case True
    let ?c = "m - SIZEOF_CHUNK"
    have c: "e \<le> unat ?c" "unat ?c \<le> unat KERNEL_HEAP_VA + unat KERNEL_HEAP_SIZE" using mc m(1) True assms(4) by simp_all
    obtain h1 cs1 ys1 e1 where g: "kmalloc_gap h v ?c = Some h1" "heap_core h1 cs1 ys1 e1" "e1 \<le> unat ?c"
      "unat ?c = e1 + (case hp_holes h1 (of_nat e1) of None \<Rightarrow> 0 | Some k \<Rightarrow> unat k)"
      "\<forall>x \<in> dom (hp_holes h1). unat x \<le> unat ?c" "hp_last_chunk h1 = hp_last_chunk h" "hp_lock h1 = hp_lock h" "live h1 = live h"
      using gap_layout [OF assms(1) v(2) c] by blast
    define hdr where "hdr = \<lparr>ck_prev_offset = Some (if hp_last_chunk h1 \<noteq> 0
           then ucast (?c - hp_last_chunk h1) else 0), ck_size = ucast sz, ck_free = False\<rparr>"
    have sz: "unat (ck_size hdr) = unat sz" using assms(3) by (simp add: hdr_def unsigned_ucast_eq take_bit_nat_eq_self_iff)
    define h' where "h' = h1\<lparr>hp_hdrs := (hp_hdrs h1)(?c \<mapsto> hdr), hp_links := (hp_links h1)\<lparr>ln_next := (ln_next (hp_links h1))(?c := 0),
         ln_prev := (ln_prev (hp_links h1))(?c := 0)\<rparr>, hp_last_chunk := ?c, hp_used := hp_used h1 + (sz + SIZEOF_CHUNK)\<rparr>"
    have end1: "\<not> m + sz > END_ADDR h1"
      using True assms(4) g(2) ms heap_end by (simp add: END_ADDR_def heap_core_def word_less_nat_alt)
    have new': "kmalloc_new h sz (2 ^ k) = Some (?c, h')"
      unfolding new g(1) h'_def hdr_def using end1 by simp
    have "heap_core h' (cs1 @ [?c]) ys1 (unat ?c + 24 + unat (ck_size hdr))"
      using core_add [OF g(2-4), of hdr] by (simp add: h'_def hdr_def heap_core_def)
    moreover have "\<forall>x \<in> dom (hp_holes h'). unat x < unat m + unat sz"
    proof
      fix x assume "x \<in> dom (hp_holes h')"
      then have "unat x \<le> unat ?c" using g(5) by (simp add: h'_def)
      then show "unat x < unat m + unat sz" using mc by simp
    qed
    ultimately have "heap_layout h' (cs1 @ [?c]) ys1 (unat m + unat sz)"
      using mc True assms(4) unfolding layout_core sz by (simp add: h'_def add.commute)
    moreover have "live h' = (live h)(?c + SIZEOF_CHUNK \<mapsto> unat sz)"
      using live_upd [of h' h1 ?c hdr] sz g(8) by (simp add: h'_def hdr_def)
    ultimately show ?thesis using new' True mc g(7) by (auto simp: h'_def)
  next
    case False
    have "m + sz > KERNEL_HEAP_VA + KERNEL_HEAP_SIZE" using False assms(4) ms heap_end by (simp add: word_less_nat_alt)
    moreover have "END_ADDR h1 = KERNEL_HEAP_VA + KERNEL_HEAP_SIZE" if "kmalloc_gap h v (m - SIZEOF_CHUNK) = Some h1" for h1
      using that assms(1) by (auto simp: kmalloc_gap_def END_ADDR_def heap_layout_def Let_def split: if_splits bind_splits)
    ultimately have "kmalloc_new h sz (2 ^ k) = None" unfolding new by (auto split: bind_splits)
    then show ?thesis using False by simp
  qed
  then show ?thesis using m v(2) unfolding m_def by (intro exI [of _ v]) (simp add: Let_def)
qed

section \<open>Allocation and release on the layout\<close>

text \<open>Where the unmanaged memory starts.\<close>

definition heap_top :: "mm_heap \<Rightarrow> u64" where
  "heap_top h = (if hp_last_chunk h = 0 then hp_virt_addr h
     else hp_last_chunk h + (SIZEOF_CHUNK + ucast (ck_size (the (hp_hdrs h (hp_last_chunk h))))))"

definition heap_room :: "mm_heap \<Rightarrow> u64 \<Rightarrow> u64 \<Rightarrow> bool" where
  "heap_room h sz alignment \<longleftrightarrow>
     unat (align_up (heap_top h + SIZEOF_CHUNK) alignment) + unat sz \<le> unat KERNEL_HEAP_VA + unat KERNEL_HEAP_SIZE"

definition free_fit :: "mm_heap \<Rightarrow> u64 \<Rightarrow> u64 \<Rightarrow> bool" where
  "free_fit h sz alignment \<longleftrightarrow> (\<exists>c hdr. hp_hdrs h c = Some hdr \<and> ck_free hdr \<and> fits (hp_hdrs h) sz alignment c)"

lemma heap_top_layout: "heap_layout h cs ys e \<Longrightarrow> unat (heap_top h) = e"
  using top_addr [of h cs ys e] by (auto simp: heap_top_def split: if_splits bind_splits)

lemma live_disjoint:
  assumes "heap_layout h cs ys e" "live h p = Some m" "live h q = Some n" "p \<noteq> q"
  shows "bytes p m \<inter> bytes q n = {}"
proof -
  obtain x y where x: "hp_hdrs h (p - SIZEOF_CHUNK) = Some x" "m = unat (ck_size x)"
    and y: "hp_hdrs h (q - SIZEOF_CHUNK) = Some y" "n = unat (ck_size y)"
    using assms(2,3) by (auto simp: live_def split: option.splits if_splits)
  have t: "tiled (hp_hdrs h) (hp_holes h) (unat KERNEL_HEAP_VA) cs e" using assms(1) by (simp add: heap_layout_def)
  note mx = layout_mem [OF assms(1) x(1)] and my = layout_mem [OF assms(1) y(1)]
  have "p - SIZEOF_CHUNK \<noteq> q - SIZEOF_CHUNK" using assms(4) by simp
  from tiled_disjoint [OF t _ _ this x(1) y(1)] mx my
  have d: "unat (p - SIZEOF_CHUNK) + 24 + m \<le> unat (q - SIZEOF_CHUNK) \<or> unat (q - SIZEOF_CHUNK) + 24 + n \<le> unat (p - SIZEOF_CHUNK)"
    using x(2) y(2) by blast
  have e: "e < 2 ^ 64" using assms(1) heap_end_bound by (simp add: heap_layout_def)
  have u: "unat z = unat (z - SIZEOF_CHUNK) + 24" if "unat (z - SIZEOF_CHUNK) + 24 \<le> e" for z
  proof -
    have "unat ((z - SIZEOF_CHUNK) + SIZEOF_CHUNK) = unat (z - SIZEOF_CHUNK) + 24"
      using that e by (subst unat_add_lem [THEN iffD1]) (auto simp: SIZEOF_CHUNK_def)
    then show ?thesis by simp
  qed
  show ?thesis using d u [of p] u [of q] mx my by (auto simp: bytes_def)
qed

lemma live_bounds:
  assumes "heap_layout h cs ys e" "live h p = Some n"
  shows "bytes p n \<subseteq> {unat KERNEL_HEAP_VA ..< unat KERNEL_HEAP_VA + unat KERNEL_HEAP_SIZE}"
proof -
  obtain x where x: "hp_hdrs h (p - SIZEOF_CHUNK) = Some x" "n = unat (ck_size x)"
    using assms(2) by (auto simp: live_def split: option.splits if_splits)
  note m = layout_mem [OF assms(1) x(1)]
  have e: "e \<le> unat KERNEL_HEAP_VA + unat KERNEL_HEAP_SIZE" using assms(1) by (simp add: heap_layout_def)
  have "unat ((p - SIZEOF_CHUNK) + SIZEOF_CHUNK) = unat (p - SIZEOF_CHUNK) + 24"
    using m e heap_end_bound by (subst unat_add_lem [THEN iffD1]) (auto simp: SIZEOF_CHUNK_def)
  then show ?thesis using m e x(2) by (auto simp: bytes_def)
qed

lemma fits_unat:
  assumes "k \<le> 38" "hp_hdrs h c = Some hdr"
  shows "fits (hp_hdrs h) sz (2 ^ k) c \<longleftrightarrow> unat (c + SIZEOF_CHUNK) mod 2 ^ k = 0 \<and> unat sz \<le> unat (ck_size hdr)"
proof -
  have "unat ((c + SIZEOF_CHUNK) mod 2 ^ k) = unat (c + SIZEOF_CHUNK) mod 2 ^ k"
    using assms(1) by (simp add: unat_mod unat_exp64)
  then show ?thesis using assms(2) by (metis fits_def option.sel unat_eq_zero unat_size word_le_nat_alt)
qed

lemma search_layout:
  assumes "heap_layout h cs ys e"
  shows "kmalloc_search (hp_hdrs h) (hp_links h) sz al (lh_first (hp_chunks h)) 0 = Some (best_fit (hp_hdrs h) sz al 0 ys)"
    "0 \<notin> set ys"
proof -
  have "seg (hp_links h) 0 ys 0" "lh_first (hp_chunks h) = hd (ys @ [0])" "\<forall>y \<in> set ys. hp_hdrs h y \<noteq> None"
    using assms by (auto simp: heap_layout_def is_list_def)
  then show "kmalloc_search (hp_hdrs h) (hp_links h) sz al (lh_first (hp_chunks h)) 0 = Some (best_fit (hp_hdrs h) sz al 0 ys)"
    "0 \<notin> set ys"
    using search_best_fit [of "hp_links h" 0 ys "hp_hdrs h" 0] seg_nonzero by auto
qed

lemma chunk_layout:
  assumes "heap_layout h cs ys e" "k \<le> 38" "unat sz \<le> 524288"
  shows "if free_fit h sz (2 ^ k) \<or> heap_room h sz (2 ^ k)
    then \<exists>c h' cs' ys' e' n. kmalloc_chunk h sz (2 ^ k) = Some (c, h') \<and> heap_layout h' cs' ys' e' \<and> hp_lock h' = hp_lock h \<and>
      live h' = (live h)(c + SIZEOF_CHUNK \<mapsto> n) \<and> live h (c + SIZEOF_CHUNK) = None \<and> unat sz \<le> n \<and>
      unat (c + SIZEOF_CHUNK) mod 2 ^ k = 0
    else kmalloc_chunk h sz (2 ^ k) = None"
proof -
  let ?b = "best_fit (hp_hdrs h) sz (2 ^ k) 0 ys"
  note search = search_layout(1) [OF assms(1), of sz "2 ^ k"] search_layout(2) [OF assms(1)]
  have ys: "set ys = {c. \<exists>hdr. hp_hdrs h c = Some hdr \<and> ck_free hdr}" using assms(1) by (simp add: heap_layout_def)
  have b0: "?b = 0 \<longleftrightarrow> \<not> free_fit h sz (2 ^ k)"
    using best_fit_0 [OF search(2), of "hp_hdrs h" sz "2 ^ k" 0] ys by (auto simp: free_fit_def)
  show ?thesis
  proof (cases "?b = 0")
    case False
    then have b: "?b \<in> set ys" "fits (hp_hdrs h) sz (2 ^ k) ?b" using best_fit_mem [of "hp_hdrs h" sz "2 ^ k" 0 ys] by auto
    obtain h' hdr ys' where r: "hp_hdrs h ?b = Some hdr" "kmalloc_reuse h sz ?b = Some h'" "heap_layout h' cs ys' e"
      "hp_lock h' = hp_lock h" "live h' = (live h)(?b + SIZEOF_CHUNK \<mapsto> unat (ck_size hdr))"
      using reuse_layout [OF assms(1) b(1), of sz] by blast
    have "live h (?b + SIZEOF_CHUNK) = None" using b(1) r(1) ys by (auto simp: live_def)
    moreover have "kmalloc_chunk h sz (2 ^ k) = Some (?b, h')" using False r(2) search(1) by (simp add: kmalloc_chunk_def)
    moreover note fits_unat [OF assms(2) r(1), of sz] b(2) r(3-5)
    ultimately show ?thesis using False b0 by simp blast
  next
    case True
    then have eq: "kmalloc_chunk h sz (2 ^ k) = kmalloc_new h sz (2 ^ k)" and nf: "\<not> free_fit h sz (2 ^ k)"
      using search(1) b0 by (simp_all add: kmalloc_chunk_def)
    obtain v where v: "unat v = e" "let m = unat (align_up (v + SIZEOF_CHUNK) (2 ^ k)) in
      e + 24 \<le> m \<and> m < e + 24 + 2 ^ k \<and> m mod 2 ^ k = 0 \<and>
      (if m + unat sz \<le> unat KERNEL_HEAP_SIZE + unat KERNEL_HEAP_VA
       then \<exists>c h' cs' ys'. kmalloc_new h sz (2 ^ k) = Some (c, h') \<and> unat c + 24 = m \<and>
         heap_layout h' cs' ys' (m + unat sz) \<and> hp_lock h' = hp_lock h \<and> live h' = (live h)(c + SIZEOF_CHUNK \<mapsto> unat sz)
       else kmalloc_new h sz (2 ^ k) = None)"
      using new_layout [OF assms refl] by blast
    have vt: "v = heap_top h" using heap_top_layout [OF assms(1)] v(1) by (metis unat_inject)
    define m where "m = unat (align_up (v + SIZEOF_CHUNK) (2 ^ k))"
    have room: "heap_room h sz (2 ^ k) \<longleftrightarrow> m + unat sz \<le> unat KERNEL_HEAP_SIZE + unat KERNEL_HEAP_VA"
      by (simp add: heap_room_def m_def vt add.commute)
    show ?thesis
    proof (cases "heap_room h sz (2 ^ k)")
      case True
      then obtain c h' cs' ys' where c: "kmalloc_new h sz (2 ^ k) = Some (c, h')" "unat c + 24 = m"
         "heap_layout h' cs' ys' (m + unat sz)" "hp_lock h' = hp_lock h" "live h' = (live h)(c + SIZEOF_CHUNK \<mapsto> unat sz)"
        and m: "e + 24 \<le> m" "m mod 2 ^ k = 0"
        using v(2) room unfolding m_def [symmetric] Let_def by auto
      have "m < 2 ^ 64" unfolding m_def using unsigned_less [of "align_up (v + SIZEOF_CHUNK) (2 ^ k)"] by simp
      then have u: "unat (c + SIZEOF_CHUNK) = m" using c(2) by (subst unat_add_lem [THEN iffD1]) (auto simp: SIZEOF_CHUNK_def)
      have "hp_hdrs h c = None" using core_fresh(1) [of h cs ys e c] assms(1) c(2) m(1) by (simp add: layout_core)
      then have "live h (c + SIZEOF_CHUNK) = None" by (simp add: live_def)
      then show ?thesis using True c u m(2) eq by auto
    next
      case False
      then show ?thesis using nf v(2) room eq unfolding m_def [symmetric] Let_def by simp
    qed
  qed
qed

text \<open>The states the heap's entry points are called in.\<close>

definition heap_wf :: "heap_state \<Rightarrow> bool" where
  "heap_wf s \<longleftrightarrow> heap_inv (fst s) \<and> heap_unlocked s"

definition round_size :: "u64 \<Rightarrow> u64" where
  "round_size sz = align_up (max sz CHUNK_MIN_SIZE) CHUNK_SIZE_ALIGN"

lemma round_size:
  assumes "sz \<le> CHUNK_MAX_SIZE"
  shows "unat sz \<le> unat (round_size sz)" "unat (round_size sz) \<le> 524288"
proof -
  have m: "unat (max sz CHUNK_MIN_SIZE) = max (unat sz) 8"
    by (auto simp: max_def CHUNK_MIN_SIZE_def word_le_nat_alt)
  have s: "unat sz \<le> 524288" using assms by (simp add: CHUNK_MAX_SIZE_def word_le_nat_alt)
  have k: "CHUNK_SIZE_ALIGN = 2 ^ 3" by (simp add: CHUNK_SIZE_ALIGN_def)
  have b: "unat (max sz CHUNK_MIN_SIZE) + (2 ^ 3 - 1) < 2 ^ 64" unfolding m using s by simp
  have "unat (max sz CHUNK_MIN_SIZE) \<le> unat (round_size sz)"
    unfolding round_size_def k by (rule align_up_ge [OF _ b]) simp
  then show "unat sz \<le> unat (round_size sz)" unfolding m by simp
  have "unat (round_size sz) = (max (unat sz) 8 + (2 ^ 3 - 1)) div 2 ^ 3 * 2 ^ 3"
    unfolding round_size_def k m [symmetric] by (rule align_up_unat [OF _ b]) simp
  moreover have "(max (unat sz) 8 + 7) div 8 \<le> 524295 div 8" using s by (intro div_le_mono) simp
  ultimately show "unat (round_size sz) \<le> 524288" by simp
qed

lemma pow2_guard: "k \<le> 38 \<Longrightarrow> (2 :: u64) ^ k \<noteq> 0 \<and> (2 :: u64) ^ k AND (2 ^ k - 1) = 0"
proof
  assume k: "k \<le> 38"
  show "(2 :: u64) ^ k \<noteq> 0" using k by simp
  show "(2 :: u64) ^ k AND (2 ^ k - 1) = 0"
    unfolding exp_minus_1_eq_mask by (rule bit_word_eqI) (auto simp: bit_and_iff bit_exp_iff bit_mask_iff)
qed

lemma layout_fields [simp]:
  "heap_layout (h\<lparr>hp_lock := m\<rparr>) cs ys e = heap_layout h cs ys e"
  "heap_layout (kmalloc_stats h sz) cs ys e = heap_layout h cs ys e"
  "heap_layout (h\<lparr>hp_free_count := n\<rparr>) cs ys e = heap_layout h cs ys e"
  "live (h\<lparr>hp_lock := m\<rparr>) = live h" "live (kmalloc_stats h sz) = live h" "live (h\<lparr>hp_free_count := n\<rparr>) = live h"
  "free_fit (h\<lparr>hp_lock := m\<rparr>) = free_fit h" "free_fit (kmalloc_stats h sz) = free_fit h"
  "heap_room (h\<lparr>hp_lock := m\<rparr>) = heap_room h" "heap_room (kmalloc_stats h sz) = heap_room h"
  "hp_lock (kmalloc_stats h sz) = hp_lock h"
  by (simp_all add: heap_layout_def kmalloc_stats_def live_def free_fit_def heap_room_def heap_top_def fun_eq_iff)

lemma kmalloc_wf:
  assumes "heap_wf s" "k \<le> 38" "0 < sz" "sz \<le> CHUNK_MAX_SIZE"
  defines "fit \<equiv> free_fit (fst s) (round_size sz) (2 ^ k) \<or> heap_room (fst s) (round_size sz) (2 ^ k)"
  shows "if fit
    then \<exists>p s' n. kmalloc_impl s sz (2 ^ k) = Some (p, s') \<and> heap_wf s' \<and> live (fst s') = (live (fst s))(p \<mapsto> n) \<and>
      live (fst s) p = None \<and> unat sz \<le> n \<and> unat p mod 2 ^ k = 0
    else kmalloc_impl s sz (2 ^ k) = None"
proof -
  obtain h kl c where s: "s = (h, kl, c)" by (cases s) auto
  obtain cs ys e where L: "heap_layout h cs ys e" using assms(1) by (auto simp: heap_wf_def heap_inv_def s)
  have "heap_unlocked (h, kl, c)" using assms(1) by (simp add: heap_wf_def s)
  then obtain m1 kl1 c1 c2 where a: "aquire_heap (h, kl, c) = Some (h\<lparr>hp_lock := m1\<rparr>, kl1, c1)"
    and r: "\<And>h'. hp_lock h' = m1 \<Longrightarrow> release_heap (h', kl1, c1) = Some (h'\<lparr>hp_lock := hp_lock h\<rparr>, kl, c2)"
    and u: "\<And>h'. hp_lock h' = hp_lock h \<Longrightarrow> heap_unlocked (h', kl, c2)"
    using heap_locking [of h kl c] by blast
  let ?h = "kmalloc_stats (h\<lparr>hp_lock := m1\<rparr>) sz"
  have L1: "heap_layout ?h cs ys e" using L by simp
  note rs = round_size [OF assms(4)]
  note ch = chunk_layout [OF L1 assms(2) rs(2)]
  have impl: "kmalloc_impl s sz (2 ^ k) = do {
       (chunk, h') \<leftarrow> kmalloc_chunk ?h (round_size sz) (2 ^ k);
       s' \<leftarrow> release_heap (h', kl1, c1);
       Some (chunk + SIZEOF_CHUNK, s') }"
  proof -
    have "sz \<noteq> 0" "\<not> CHUNK_MAX_SIZE < sz" using assms(3,4) by auto
    then show ?thesis using pow2_guard [OF assms(2)] a by (simp add: kmalloc_impl_def s round_size_def)
  qed
  have f: "free_fit ?h (round_size sz) (2 ^ k) \<or> heap_room ?h (round_size sz) (2 ^ k) \<longleftrightarrow> fit"
    by (simp add: fit_def s)
  show ?thesis
  proof (cases fit)
    case True
    then obtain c h' cs' ys' e' n where c: "kmalloc_chunk ?h (round_size sz) (2 ^ k) = Some (c, h')"
      "heap_layout h' cs' ys' e'" "hp_lock h' = m1" "live h' = (live h)(c + SIZEOF_CHUNK \<mapsto> n)"
      "live h (c + SIZEOF_CHUNK) = None" "unat (round_size sz) \<le> n" "unat (c + SIZEOF_CHUNK) mod 2 ^ k = 0"
      using ch f by auto
    have "kmalloc_impl s sz (2 ^ k) = Some (c + SIZEOF_CHUNK, h'\<lparr>hp_lock := hp_lock h\<rparr>, kl, c2)"
      unfolding impl c(1) using r [OF c(3)] by simp
    moreover have "heap_wf (h'\<lparr>hp_lock := hp_lock h\<rparr>, kl, c2)"
      using c(2) u by (auto simp: heap_wf_def heap_inv_def)
    ultimately show ?thesis using True c rs(1) by (auto simp: s)
  next
    case False
    then show ?thesis using ch f impl by simp
  qed
qed

text \<open>
  The pointers \<open>__kfree\<close> can be given: NULL, one behind a chunk header, whether in use or free, and
  any other for which readable memory without the magic lies where the header would be.
\<close>

definition can_free :: "(u64 \<Rightarrow> u16 option) \<Rightarrow> mm_heap \<Rightarrow> u64 \<Rightarrow> bool" where
  "can_free peek h p \<longleftrightarrow> p = 0 \<or> hp_hdrs h (p - SIZEOF_CHUNK) \<noteq> None \<or>
     (\<exists>m. peek (p - SIZEOF_CHUNK) = Some m \<and> m \<noteq> CHUNK_MAGIC)"

lemma kfree_wf:
  assumes "heap_wf s"
  shows "if can_free peek (fst s) p
    then \<exists>s'. kfree_impl peek s p = Some s' \<and> heap_wf s' \<and> live (fst s') = (live (fst s))(p := None)
    else kfree_impl peek s p = None"
proof -
  obtain h0 kl c where s: "s = (h0, kl, c)" by (cases s) auto
  obtain cs ys e where L0: "heap_layout h0 cs ys e" using assms(1) by (auto simp: heap_wf_def heap_inv_def s)
  define h where "h = h0\<lparr>hp_free_count := hp_free_count h0 + 1\<rparr>"
  have L: "heap_layout h cs ys e" "live h = live h0" "hp_lock h = hp_lock h0" using L0 by (simp_all add: h_def)
  have un: "heap_unlocked (h, kl, c)" using assms by (simp add: heap_wf_def s heap_unlocked_def h_def)
  then obtain m1 kl1 c1 c2 where a: "aquire_heap (h, kl, c) = Some (h\<lparr>hp_lock := m1\<rparr>, kl1, c1)"
    and r: "\<And>h'. hp_lock h' = m1 \<Longrightarrow> release_heap (h', kl1, c1) = Some (h'\<lparr>hp_lock := hp_lock h\<rparr>, kl, c2)"
    and u: "\<And>h'. hp_lock h' = hp_lock h \<Longrightarrow> heap_unlocked (h', kl, c2)"
    using heap_locking [of h kl c] by blast
  have wf: "heap_wf (h, kl, c)" using L(1) un by (auto simp: heap_wf_def heap_inv_def)
  let ?c = "p - SIZEOF_CHUNK"
  have impl: "kfree_impl peek s p = (if p = 0 then Some s else case hp_hdrs h ?c of
         None \<Rightarrow> if can_free peek h0 p then Some (h, kl, c) else None
       | Some hdr \<Rightarrow> if ck_free hdr then Some (h, kl, c)
           else do { (h1, kl, c) \<leftarrow> aquire_heap (h, kl, c); h2 \<leftarrow> kfree_chunk h1 ?c hdr; release_heap (h2, kl, c) })"
    by (cases "peek ?c") (auto simp: kfree_impl_def s h_def Let_def can_free_def chunk_magic_def split: option.splits)
  have z: "p = 0 \<Longrightarrow> live h0 p = None"
  proof -
    assume "p = 0"
    have "e < unat (0 - SIZEOF_CHUNK)" using L(1) by (simp add: heap_layout_def SIZEOF_CHUNK_def KERNEL_HEAP_VA_def KERNEL_HEAP_SIZE_def)
    then have "hp_hdrs h0 (0 - SIZEOF_CHUNK) = None" using layout_mem [OF L0, of "0 - SIZEOF_CHUNK"]
      by (cases "hp_hdrs h0 (0 - SIZEOF_CHUNK)") auto
    then show "live h0 p = None" using \<open>p = 0\<close> by (simp add: live_def)
  qed
  show ?thesis
  proof (cases "p \<noteq> 0 \<and> live h0 p \<noteq> None")
    case False
    then have "live (fst s) = (live (fst s))(p := None)" using z by (auto simp: s)
    moreover have "if can_free peek h0 p then kfree_impl peek s p = Some s \<or> kfree_impl peek s p = Some (h, kl, c)
        else kfree_impl peek s p = None"
      using False L(2) unfolding impl by (auto simp: live_def h_def can_free_def split: option.splits if_splits)
    ultimately show ?thesis using assms wf L(2) by (auto simp: s)
  next
    case True
    then obtain hdr where hdr: "hp_hdrs h ?c = Some hdr" "\<not> ck_free hdr"
      using L(2) by (auto simp: live_def h_def split: option.splits if_splits)
    have can: "can_free peek (fst s) p" using hdr(1) by (simp add: can_free_def s h_def)
    obtain h2 where h2: "kfree_chunk (h\<lparr>hp_lock := m1\<rparr>) ?c hdr = Some h2" "heap_layout h2 cs (?c # ys) e" "hp_lock h2 = m1"
      "live h2 = (live h)(?c + SIZEOF_CHUNK := None)"
      using kfree_layout [of "h\<lparr>hp_lock := m1\<rparr>" cs ys e ?c hdr] L(1) hdr by auto
    have "kfree_impl peek s p = Some (h2\<lparr>hp_lock := hp_lock h\<rparr>, kl, c2)"
      unfolding impl using True hdr a h2(1) r [OF h2(3)] by simp
    moreover have "heap_wf (h2\<lparr>hp_lock := hp_lock h\<rparr>, kl, c2)" using h2(2) u by (auto simp: heap_wf_def heap_inv_def)
    ultimately show ?thesis using h2(4) L(2) can by (auto simp: s)
  qed
qed

section \<open>Runs of the heap\<close>

text \<open>
  The heap after initialisation and any sequence of allocations with alignments up to \<open>2^38\<close>, of
  releases, and of switches to another thread or another cpu. The memory outside headers and holes
  may hold anything at each release; one that faults or meets the magic in foreign memory is no
  step. Larger alignments are left out because the code then returns memory outside the heap.
\<close>

inductive heap_reach :: "heap_state \<Rightarrow> bool" where
  heap_init: "mm_init_kheap phys lock_addr kheap_lock_addr = (maps, h, kl) \<Longrightarrow> c_thread c = 0 \<Longrightarrow> c_claims c = None \<Longrightarrow>
    heap_reach (h, kl, c)"
| heap_alloc: "heap_reach s \<Longrightarrow> k \<le> 38 \<Longrightarrow> kmalloc_impl s sz (2 ^ k) = Some (p, s') \<Longrightarrow> heap_reach s'"
| heap_free: "heap_reach s \<Longrightarrow> kfree_impl peek s p = Some s' \<Longrightarrow> heap_reach s'"
| heap_switch: "heap_reach (h, kl, c) \<Longrightarrow> (if c_thread c' = 0 then c_claims c' = None else thread_ptr (c_thread c')) \<Longrightarrow>
    heap_reach (h, kl, c')"

lemma init_wf:
  assumes "mm_init_kheap phys la ka = (maps, h, kl)" "if c_thread c = 0 then c_claims c = None else thread_ptr (c_thread c)"
  shows "heap_wf (h, kl, c)" "live h = Map.empty"
proof -
  have l: "mtx_idle (mtx_init la MTX_RECURSIVE)"
    by (simp add: mtx_idle_def mtx_init_def mtx_get_lc_def mtx_get_lo_def mtx_opts_to_lockobject_flags_def mtx_flag_consts)
  have k: "m_lock kl = MTX_UNOWNED" "m_data kl = 0" "mtx_get_lc kl = SPINLOCK_LOCKCLASS"
    using assms(1) by (auto simp: mm_init_kheap_def Let_def mtx_init_def mtx_get_lc_def mtx_opts_to_lockobject_flags_def mtx_flag_consts)
  have h: "hp_virt_addr h = KERNEL_HEAP_VA" "hp_size h = KERNEL_HEAP_SIZE" "hp_hdrs h = Map.empty" "hp_holes h = Map.empty"
    "hp_last_chunk h = 0" "hp_chunks h = LIST_INIT" "hp_lock h = mtx_init la MTX_RECURSIVE"
    using assms(1) by (auto simp: mm_init_kheap_def Let_def)
  have "heap_layout h [] [] (unat KERNEL_HEAP_VA)" using h by (simp add: heap_layout_def is_list_def LIST_INIT_def)
  then show "heap_wf (h, kl, c)" using l k h(7) assms(2) by (auto simp: heap_wf_def heap_inv_def heap_unlocked_def)
  show "live h = Map.empty" using h(3) by (simp add: live_def fun_eq_iff)
qed

lemma kmalloc_cases:
  assumes "kmalloc_impl s sz (2 ^ k) = Some (p, s')" "k \<le> 38"
  shows "sz = 0 \<and> p = 0 \<and> s' = s \<or> 0 < sz \<and> sz \<le> CHUNK_MAX_SIZE"
  using assms pow2_guard [OF assms(2)] by (auto simp: kmalloc_impl_def word_gt_0 split: if_splits)

lemma reach_wf: "heap_reach s \<Longrightarrow> heap_wf s"
proof (induction rule: heap_reach.induct)
  case (heap_init phys la ka maps h kl c)
  then show ?case using init_wf [of phys la ka maps h kl c] by simp
next
  case (heap_alloc s k sz p s')
  then show ?case using kmalloc_cases [OF heap_alloc(3,2)] kmalloc_wf [of s k sz] by (auto split: if_splits)
next
  case (heap_free s peek p s')
  then show ?case using kfree_wf [of s peek p] by (auto split: if_splits)
next
  case (heap_switch h kl c c')
  then show ?case by (simp add: heap_wf_def heap_unlocked_def)
qed

lemma wf_blocks:
  assumes "heap_wf s" "live (fst s) p = Some m"
  shows "bytes p m \<subseteq> {unat KERNEL_HEAP_VA ..< unat KERNEL_HEAP_VA + unat KERNEL_HEAP_SIZE}"
    "live (fst s) q = Some n \<Longrightarrow> p \<noteq> q \<Longrightarrow> bytes p m \<inter> bytes q n = {}"
proof -
  obtain cs ys e where L: "heap_layout (fst s) cs ys e" using assms(1) by (auto simp: heap_wf_def heap_inv_def)
  show "bytes p m \<subseteq> {unat KERNEL_HEAP_VA ..< unat KERNEL_HEAP_VA + unat KERNEL_HEAP_SIZE}"
    by (rule live_bounds [OF L assms(2)])
  show "live (fst s) q = Some n \<Longrightarrow> p \<noteq> q \<Longrightarrow> bytes p m \<inter> bytes q n = {}"
    by (rule live_disjoint [OF L assms(2)])
qed

text \<open>The first block of a fresh heap, on a cpu without a thread.\<close>

lemma first_block:
  "\<exists>h kl p s n. mm_init_kheap 0x400000 0x10 0x20 = ([(KERNEL_HEAP_VA, 0x400000, 3, 0x203)], h, kl) \<and>
     kmalloc_impl (h, kl, \<lparr>c_thread = 0, c_intr = True, c_saved = False, c_claims = None,
       c_lock_count = 0, c_spin_count = 0, c_crit = 0\<rparr>) 100 64 = Some (p, s) \<and> heap_wf s \<and> live (fst s) = [p \<mapsto> n]"
proof -
  let ?c = "\<lparr>c_thread = 0, c_intr = True, c_saved = False, c_claims = None, c_lock_count = 0, c_spin_count = 0, c_crit = 0\<rparr> :: cpu_ctx"
  obtain h kl where i: "mm_init_kheap 0x400000 0x10 0x20 = ([(KERNEL_HEAP_VA, 0x400000, 3, 0x203)], h, kl)"
    by (auto simp: mm_init_kheap_def Let_def is_aligned_def BIGPAGE_SIZE_def KERNEL_HEAP_SIZE_def SIZE_TO_PAGES_def
        PAGES_TO_SIZE_def VM_RDWR_def VM_HUGE_2MB_def)
  have w: "heap_wf (h, kl, ?c)" "live h = Map.empty" using init_wf [OF i, of ?c] by simp_all
  have t: "heap_top h = KERNEL_HEAP_VA" using i by (auto simp: heap_top_def mm_init_kheap_def Let_def)
  have "heap_room h (round_size 100) (2 ^ 6)"
    by (simp add: heap_room_def t round_size_def align_up_def KERNEL_HEAP_VA_def KERNEL_HEAP_SIZE_def SIZEOF_CHUNK_def
        CHUNK_MIN_SIZE_def CHUNK_SIZE_ALIGN_def)
  then show ?thesis using kmalloc_wf [OF w(1), of 6 100] i w(2) by (auto simp: CHUNK_MAX_SIZE_def)
qed

section \<open>Properties\<close>

text \<open>
  C2: \<open>__kmalloc\<close> hands out fresh memory: for every request of 1 to 524288 bytes with an alignment
  of \<open>2^k\<close>, \<open>k\<close> at most 38, it returns as soon as some free chunk fits or the rest of the heap has
  room, and panics otherwise. The block is aligned, lies inside the heap, is at least as large as
  requested and shares no byte with a block in use; the other blocks stay as they are, the locks are
  released, and the heap is well formed again.
\<close>

theorem kmalloc_spec:
  assumes "heap_wf s" "k \<le> 38" "0 < sz" "sz \<le> CHUNK_MAX_SIZE"
  shows "if free_fit (fst s) (round_size sz) (2 ^ k) \<or> heap_room (fst s) (round_size sz) (2 ^ k)
    then \<exists>p s' n. kmalloc_impl s sz (2 ^ k) = Some (p, s') \<and> heap_wf s' \<and> live (fst s') = (live (fst s))(p \<mapsto> n) \<and>
      unat sz \<le> n \<and> unat p mod 2 ^ k = 0 \<and>
      bytes p n \<subseteq> {unat KERNEL_HEAP_VA ..< unat KERNEL_HEAP_VA + unat KERNEL_HEAP_SIZE} \<and>
      (\<forall>q m. live (fst s) q = Some m \<longrightarrow> bytes p n \<inter> bytes q m = {})
    else kmalloc_impl s sz (2 ^ k) = None"
proof (cases "free_fit (fst s) (round_size sz) (2 ^ k) \<or> heap_room (fst s) (round_size sz) (2 ^ k)")
  case True
  then obtain p s' n where a: "kmalloc_impl s sz (2 ^ k) = Some (p, s')" "heap_wf s'" "live (fst s') = (live (fst s))(p \<mapsto> n)"
    "live (fst s) p = None" "unat sz \<le> n" "unat p mod 2 ^ k = 0"
    using kmalloc_wf [OF assms] by auto
  have l: "live (fst s') p = Some n" using a(3) by simp
  have "bytes p n \<inter> bytes q m = {}" if "live (fst s) q = Some m" for q m
    using wf_blocks(2) [OF a(2) l, of q m] a(3,4) that by (cases "q = p") auto
  then show ?thesis using True a wf_blocks(1) [OF a(2) l] by auto
next
  case False
  then show ?thesis using kmalloc_wf [OF assms] by simp
qed

theorem kmalloc_spec_witness:
  "\<exists>h kl p s' n. mm_init_kheap 0x400000 0x10 0x20 = ([(KERNEL_HEAP_VA, 0x400000, 3, 0x203)], h, kl) \<and>
     kmalloc_impl (h, kl, \<lparr>c_thread = 0, c_intr = True, c_saved = False, c_claims = None,
       c_lock_count = 0, c_spin_count = 0, c_crit = 0\<rparr>) 100 64 = Some (p, s') \<and> live (fst s') = [p \<mapsto> n] \<and> 100 \<le> n"
proof -
  let ?c = "\<lparr>c_thread = 0, c_intr = True, c_saved = False, c_claims = None, c_lock_count = 0, c_spin_count = 0, c_crit = 0\<rparr> :: cpu_ctx"
  obtain h kl where i: "mm_init_kheap 0x400000 0x10 0x20 = ([(KERNEL_HEAP_VA, 0x400000, 3, 0x203)], h, kl)"
    by (auto simp: mm_init_kheap_def Let_def is_aligned_def BIGPAGE_SIZE_def KERNEL_HEAP_SIZE_def SIZE_TO_PAGES_def
        PAGES_TO_SIZE_def VM_RDWR_def VM_HUGE_2MB_def)
  have w: "heap_wf (h, kl, ?c)" "live h = Map.empty" using init_wf [OF i, of ?c] by simp_all
  have t: "heap_top h = KERNEL_HEAP_VA" using i by (auto simp: heap_top_def mm_init_kheap_def Let_def)
  have "heap_room h (round_size 100) (2 ^ 6)"
    by (simp add: heap_room_def t round_size_def align_up_def KERNEL_HEAP_VA_def KERNEL_HEAP_SIZE_def SIZEOF_CHUNK_def
        CHUNK_MIN_SIZE_def CHUNK_SIZE_ALIGN_def)
  then show ?thesis using kmalloc_spec [OF w(1), of 6 100] i w(2) by (auto simp: CHUNK_MAX_SIZE_def)
qed

text \<open>
  C6: \<open>__kfree\<close> releases exactly the block it is given. On a well-formed heap it returns for NULL, for
  every block in use, for every block already freed, and for any other pointer behind readable
  memory that does not carry the magic; then the pointer is no block in use, every other block is as
  before, the locks are released and the heap is well formed. Nothing is said of the remaining
  pointers, where the header cannot be read or foreign memory carries the magic.
\<close>

theorem kfree_spec:
  assumes "heap_wf s"
    "p = 0 \<or> hp_hdrs (fst s) (p - SIZEOF_CHUNK) \<noteq> None \<or> (\<exists>m. peek (p - SIZEOF_CHUNK) = Some m \<and> m \<noteq> CHUNK_MAGIC)"
  shows "\<exists>s'. kfree_impl peek s p = Some s' \<and> heap_wf s' \<and> live (fst s') = (live (fst s))(p := None)"
  using kfree_wf [OF assms(1), of peek p] assms(2) by (simp add: can_free_def)

text \<open>A block is allocated in a fresh heap and released again, whatever the rest of the memory holds.\<close>

theorem kfree_spec_witness:
  "\<exists>h kl p s n s'. mm_init_kheap 0x400000 0x10 0x20 = ([(KERNEL_HEAP_VA, 0x400000, 3, 0x203)], h, kl) \<and>
     kmalloc_impl (h, kl, \<lparr>c_thread = 0, c_intr = True, c_saved = False, c_claims = None,
       c_lock_count = 0, c_spin_count = 0, c_crit = 0\<rparr>) 100 64 = Some (p, s) \<and> live (fst s) = [p \<mapsto> n] \<and>
     kfree_impl (\<lambda>_. None) s p = Some s' \<and> live (fst s') = Map.empty"
proof -
  obtain h kl p s n where a: "mm_init_kheap 0x400000 0x10 0x20 = ([(KERNEL_HEAP_VA, 0x400000, 3, 0x203)], h, kl)"
    "kmalloc_impl (h, kl, \<lparr>c_thread = 0, c_intr = True, c_saved = False, c_claims = None,
       c_lock_count = 0, c_spin_count = 0, c_crit = 0\<rparr>) 100 64 = Some (p, s)" "heap_wf s" "live (fst s) = [p \<mapsto> n]"
    using first_block by blast
  have "hp_hdrs (fst s) (p - SIZEOF_CHUNK) \<noteq> None" using fun_cong [OF a(4), of p] by (auto simp: live_def split: option.splits)
  then obtain s' where "kfree_impl (\<lambda>_. None) s p = Some s'" "live (fst s') = (live (fst s))(p := None)"
    using kfree_spec [OF a(3), of p "\<lambda>_. None"] by blast
  then show ?thesis using a by (intro exI conjI) auto
qed

text \<open>
  C14: In every state the heap can reach from its initialisation by allocations with alignments up to
  \<open>2^38\<close>, releases and thread switches, the blocks in use lie inside the heap and no two of them share a
  byte. A release may be of any pointer for which \<open>__kfree\<close> returns in the model, that is any but one
  behind unmapped memory or behind foreign memory that carries the magic.
\<close>

theorem heap_blocks_disjoint:
  assumes "heap_reach s" "live (fst s) p = Some m"
  shows "bytes p m \<subseteq> {unat KERNEL_HEAP_VA ..< unat KERNEL_HEAP_VA + unat KERNEL_HEAP_SIZE} \<and>
    (\<forall>q n. live (fst s) q = Some n \<longrightarrow> q \<noteq> p \<longrightarrow> bytes p m \<inter> bytes q n = {})"
  using wf_blocks [OF reach_wf [OF assms(1)] assms(2)] by blast

theorem heap_blocks_disjoint_witness:
  "\<exists>s p m. heap_reach s \<and> live (fst s) p = Some m \<and>
     bytes p m \<subseteq> {unat KERNEL_HEAP_VA ..< unat KERNEL_HEAP_VA + unat KERNEL_HEAP_SIZE}"
proof -
  let ?c = "\<lparr>c_thread = 0, c_intr = True, c_saved = False, c_claims = None, c_lock_count = 0, c_spin_count = 0, c_crit = 0\<rparr> :: cpu_ctx"
  obtain maps h kl where i: "mm_init_kheap 0x1000 0x10 0x20 = (maps, h, kl)" by (cases "mm_init_kheap 0x1000 0x10 0x20")
  have r: "heap_reach (h, kl, ?c)" using heap_init [OF i, of ?c] by simp
  have t: "heap_top h = KERNEL_HEAP_VA" using i by (auto simp: heap_top_def mm_init_kheap_def Let_def)
  have "heap_room h (round_size 100) (2 ^ 6)"
    by (simp add: heap_room_def t round_size_def align_up_def KERNEL_HEAP_VA_def KERNEL_HEAP_SIZE_def SIZEOF_CHUNK_def
        CHUNK_MIN_SIZE_def CHUNK_SIZE_ALIGN_def)
  then obtain p s' n where a: "kmalloc_impl (h, kl, ?c) 100 (2 ^ 6) = Some (p, s')" "live (fst s') p = Some n"
    using kmalloc_wf [OF reach_wf [OF r], of 6 100] by (auto simp: CHUNK_MAX_SIZE_def)
  have "heap_reach s'" by (rule heap_alloc [OF r _ a(1)]) simp
  then show ?thesis using heap_blocks_disjoint [OF _ a(2)] a(2) by blast
qed

text \<open>
  C33: The count of used bytes drifts: when a request is served from a larger free chunk, releasing
  the block again takes the whole chunk off the count although only the rounded request was added,
  so the count ends below its old value by the difference.
\<close>

theorem heap_used_drifts:
  assumes "heap_inv h" "kmalloc_search (hp_hdrs h) (hp_links h) sz alignment (lh_first (hp_chunks h)) 0 = Some b" "b \<noteq> 0"
    "hp_hdrs h b = Some hdr"
  shows "\<exists>h1 hdr1 h2. kmalloc_chunk h sz alignment = Some (b, h1) \<and> hp_hdrs h1 b = Some hdr1 \<and> kfree_chunk h1 b hdr1 = Some h2 \<and>
    hp_used h2 = hp_used h - (ucast (ck_size hdr) - sz)"
proof -
  obtain cs ys e where L: "heap_layout h cs ys e" using assms(1) by (auto simp: heap_inv_def)
  have "b = best_fit (hp_hdrs h) sz alignment 0 ys" using search_layout(1) [OF L, of sz alignment] assms(2) by simp
  then have "b \<in> set ys" using best_fit_mem [of "hp_hdrs h" sz alignment 0 ys] assms(3) by auto
  then obtain h1 ys1 where h1: "kmalloc_reuse h sz b = Some h1" "heap_layout h1 cs ys1 e"
    "hp_used h1 = hp_used h + (sz + SIZEOF_CHUNK)"
    using reuse_layout [OF L, of b sz] by blast
  have hdr1: "hp_hdrs h1 b = Some (hdr\<lparr>ck_free := False\<rparr>)"
    using h1(1) assms(4) by (auto simp: kmalloc_reuse_def split: bind_splits)
  obtain h2 where "kfree_chunk h1 b (hdr\<lparr>ck_free := False\<rparr>) = Some h2" "hp_used h2 = hp_used h1 - (ucast (ck_size hdr) + SIZEOF_CHUNK)"
    using kfree_layout [OF h1(2) hdr1] by auto
  moreover have "kmalloc_chunk h sz alignment = Some (b, h1)" using assms(2,3) h1(1) by (simp add: kmalloc_chunk_def)
  ultimately show ?thesis using hdr1 h1(3) by (auto simp: algebra_simps)
qed

text \<open>A heap whose only chunk is free and has 64 bytes.\<close>

definition one_free_chunk :: mm_heap where
  "one_free_chunk = (fst (snd (mm_init_kheap 0x1000 0x10 0x20)))\<lparr>hp_last_chunk := KERNEL_HEAP_VA,
     hp_chunks := \<lparr>lh_first = KERNEL_HEAP_VA, lh_last = KERNEL_HEAP_VA\<rparr>,
     hp_hdrs := [KERNEL_HEAP_VA \<mapsto> \<lparr>ck_prev_offset = Some 0, ck_size = 64, ck_free = True\<rparr>]\<rparr>"

theorem heap_used_drifts_witness:
  "\<exists>h1 hdr1 h2. kmalloc_chunk one_free_chunk 8 4 = Some (KERNEL_HEAP_VA, h1) \<and>
     hp_hdrs h1 KERNEL_HEAP_VA = Some hdr1 \<and> kfree_chunk h1 KERNEL_HEAP_VA hdr1 = Some h2 \<and> hp_used h2 = - 56"
proof -
  note d = one_free_chunk_def mm_init_kheap_def Let_def
  have z: "KERNEL_HEAP_VA \<noteq> 0" by (simp add: KERNEL_HEAP_VA_def)
  have "heap_layout one_free_chunk [KERNEL_HEAP_VA] [KERNEL_HEAP_VA] (unat KERNEL_HEAP_VA + 24 + 64)"
    using z by (auto simp: heap_layout_def is_list_def d KERNEL_HEAP_SIZE_def split: if_splits)
  then have "heap_inv one_free_chunk" by (auto simp: heap_inv_def)
  moreover have "kmalloc_search (hp_hdrs one_free_chunk) (hp_links one_free_chunk) 8 4 (lh_first (hp_chunks one_free_chunk)) 0 = Some KERNEL_HEAP_VA"
    using z by (subst kmalloc_search.simps, subst kmalloc_search.simps) (simp add: d KERNEL_HEAP_VA_def SIZEOF_CHUNK_def)
  moreover have "hp_hdrs one_free_chunk KERNEL_HEAP_VA = Some \<lparr>ck_prev_offset = Some 0, ck_size = 64, ck_free = True\<rparr>"
    "hp_used one_free_chunk = 0" by (simp_all add: d)
  ultimately show ?thesis using heap_used_drifts [of one_free_chunk 8 4 KERNEL_HEAP_VA] z by fastforce
qed

text \<open>
  C32: When the heap's physical memory is 2 MiB aligned, \<open>mm_init_kheap\<close> maps it with big pages and
  records as its physical address the end of that memory, so that \<open>kheap_ptr_to_phys\<close> answers an
  address 6 MiB above the one the pointer is mapped to; otherwise its answer is right.
\<close>

theorem kheap_ptr_to_phys_off:
  assumes "mm_init_kheap phys la ka = (maps, h, kl)" "hp_phys_addr h' = hp_phys_addr h" "hp_virt_addr h' = hp_virt_addr h"
    "kheap_is_valid_ptr peek h' p = Some True"
  shows "if is_aligned phys BIGPAGE_SIZE
    then maps = [(KERNEL_HEAP_VA, phys, 3, VM_RDWR OR VM_HUGE_2MB)] \<and>
      kheap_ptr_to_phys peek h' p = Some (phys + (p - KERNEL_HEAP_VA) + KERNEL_HEAP_SIZE)
    else maps = [(KERNEL_HEAP_VA, phys, 1536, VM_RDWR)] \<and> kheap_ptr_to_phys peek h' p = Some (phys + (p - KERNEL_HEAP_VA))"
proof -
  have n: "SIZE_TO_PAGES KERNEL_HEAP_SIZE = 1536" "PAGES_TO_SIZE 1536 mod BIGPAGE_SIZE = 0" "KERNEL_HEAP_SIZE div BIGPAGE_SIZE = 3"
    "BIGPAGE_SIZE \<le> KERNEL_HEAP_SIZE" "3 * BIGPAGE_SIZE = KERNEL_HEAP_SIZE"
    by (simp_all add: SIZE_TO_PAGES_def PAGES_TO_SIZE_def KERNEL_HEAP_SIZE_def BIGPAGE_SIZE_def)
  have "maps = (if is_aligned phys BIGPAGE_SIZE then [(KERNEL_HEAP_VA, phys, 3, VM_RDWR OR VM_HUGE_2MB)]
      else [(KERNEL_HEAP_VA, phys, 1536, VM_RDWR)])"
    "hp_phys_addr h = (if is_aligned phys BIGPAGE_SIZE then phys + KERNEL_HEAP_SIZE else phys)" "hp_virt_addr h = KERNEL_HEAP_VA"
    using assms(1) n(4) unfolding mm_init_kheap_def Let_def n(1-3,5) by auto
  then show ?thesis using assms(2-4) by (auto simp: kheap_ptr_to_phys_def)
qed

theorem kheap_ptr_to_phys_off_witness:
  "\<exists>maps h kl. mm_init_kheap 0x400000 0x10 0x20 = (maps, h, kl) \<and>
     kheap_ptr_to_phys (\<lambda>_. None) (h\<lparr>hp_hdrs := [KERNEL_HEAP_VA \<mapsto> \<lparr>ck_prev_offset = Some 0, ck_size = 64, ck_free = False\<rparr>]\<rparr>)
       (KERNEL_HEAP_VA + SIZEOF_CHUNK) = Some 0xA00018"
proof -
  obtain maps h kl where i: "mm_init_kheap 0x400000 0x10 0x20 = (maps, h, kl)" by (cases "mm_init_kheap 0x400000 0x10 0x20")
  let ?h = "h\<lparr>hp_hdrs := [KERNEL_HEAP_VA \<mapsto> \<lparr>ck_prev_offset = Some 0, ck_size = 64, ck_free = False\<rparr>]\<rparr>"
  have "hp_virt_addr h = KERNEL_HEAP_VA" "hp_size h = KERNEL_HEAP_SIZE" using i by (auto simp: mm_init_kheap_def Let_def)
  then have "kheap_is_valid_ptr (\<lambda>_. None) ?h (KERNEL_HEAP_VA + SIZEOF_CHUNK) = Some True"
    by (simp add: kheap_is_valid_ptr_def chunk_magic_def END_ADDR_def KERNEL_HEAP_VA_def KERNEL_HEAP_SIZE_def)
  from kheap_ptr_to_phys_off [OF i, of ?h "\<lambda>_. None", OF _ _ this] i show ?thesis
    by (auto simp: is_aligned_def BIGPAGE_SIZE_def KERNEL_HEAP_SIZE_def SIZEOF_CHUNK_def)
qed

end
