(* ===== verification/Kio.thy ===== *)
theory Kio
  imports Strings
begin

text \<open>
  Kernel I/O transfers, \<^verbatim>\<open>kernel/kio.c\<close> and \<^verbatim>\<open>include/kernel/kio.h\<close>: a transfer reads from or writes
  to one buffer or to an array of buffers and keeps its position. Buffers are addresses in the
  byte memory of the string routines, copied with their \<open>memcpy\<close> and \<open>memset\<close>; sizes and offsets are
  64-bit words. Indexing past the array of buffers and copying outside memory are undefined.
\<close>

section \<open>Definitions\<close>

record iovec =
  iov_base :: int
  iov_len :: u64

datatype kio_dir = KIO_WRITE | KIO_READ

text \<open>The position in an array of buffers.\<close>

record iov_pos =
  iv_idx :: u32
  iv_off :: u64
  iv_t_off :: u64

text \<open>The union of the two kinds, with the tag.\<close>

datatype kio_data =
  KIO_BUF (buf_base: int) (buf_off: u64)
| KIO_IOV (iov_arr: "iovec list") (iov_cnt: u32) (iov_at: iov_pos)

record kio =
  kio_dir :: kio_dir
  kio_size :: u64
  kio_data :: kio_data

definition kio_new_writable :: "int \<Rightarrow> u64 \<Rightarrow> kio" where
  "kio_new_writable base len = \<lparr>kio_dir = KIO_WRITE, kio_size = len, kio_data = KIO_BUF base 0\<rparr>"

definition kio_new_readable :: "int \<Rightarrow> u64 \<Rightarrow> kio" where
  "kio_new_readable base len = \<lparr>kio_dir = KIO_READ, kio_size = len, kio_data = KIO_BUF base 0\<rparr>"

text \<open>The loop that adds the lengths of the first \<open>n\<close> buffers.\<close>

primrec iov_total :: "iovec list \<Rightarrow> nat \<Rightarrow> u64 option" where
  "iov_total iov 0 = Some 0"
| "iov_total iov (Suc n) = do { sz \<leftarrow> iov_total iov n; v \<leftarrow> load iov (int n); Some (sz + iov_len v) }"

definition kio_new_writablev :: "iovec list \<Rightarrow> u32 \<Rightarrow> kio option" where
  "kio_new_writablev iov iovcnt = do {
     sz \<leftarrow> iov_total iov (unat iovcnt);
     Some \<lparr>kio_dir = KIO_WRITE, kio_size = sz,
       kio_data = KIO_IOV iov iovcnt \<lparr>iv_idx = 0, iv_off = 0, iv_t_off = 0\<rparr>\<rparr> }"

definition kio_new_readablev :: "iovec list \<Rightarrow> u32 \<Rightarrow> kio option" where
  "kio_new_readablev iov iovcnt = do {
     sz \<leftarrow> iov_total iov (unat iovcnt);
     Some \<lparr>kio_dir = KIO_READ, kio_size = sz,
       kio_data = KIO_IOV iov iovcnt \<lparr>iv_idx = 0, iv_off = 0, iv_t_off = 0\<rparr>\<rparr> }"

definition kio_transfered :: "kio \<Rightarrow> u64" where
  "kio_transfered k = (case kio_data k of KIO_BUF base off \<Rightarrow> off | KIO_IOV arr cnt p \<Rightarrow> iv_t_off p)"

definition kio_remaining :: "kio \<Rightarrow> u64" where
  "kio_remaining k = (case kio_data k of KIO_BUF base off \<Rightarrow> kio_size k - off | KIO_IOV arr cnt p \<Rightarrow> kio_size k - iv_t_off p)"

section \<open>The walk over an array of buffers\<close>

text \<open>
  The loop that \<open>kio_nread_out\<close>, \<open>kio_nwrite_in\<close>, \<open>kio_fill\<close> and \<open>kio_drain\<close> share: \<open>act a off n\<close> is what is
  done with \<open>n\<close> bytes at address \<open>a\<close> of a buffer, \<open>off\<close> being the offset in the caller's data. The
  result has the local variable that counts down, the position and the memory.
\<close>

definition iov_finish :: "u64 \<Rightarrow> u64 \<Rightarrow> iov_pos \<Rightarrow> iov_pos" where
  "iov_finish to_copy iov_remain p =
     (let p' = p\<lparr>iv_off := iv_off p + to_copy, iv_t_off := iv_t_off p + to_copy\<rparr> in
      if to_copy = iov_remain then p'\<lparr>iv_idx := iv_idx p + 1, iv_off := 0\<rparr> else p')"

definition iov_skip :: "u64 \<Rightarrow> iov_pos \<Rightarrow> iov_pos" where
  "iov_skip iov_remain p = p\<lparr>iv_off := iv_off p + iov_remain, iv_t_off := iv_t_off p + iov_remain, iv_idx := iv_idx p + 1\<rparr>"

partial_function (option) iov_walk ::
  "(int \<Rightarrow> u64 \<Rightarrow> u64 \<Rightarrow> memory \<Rightarrow> memory option) \<Rightarrow> iovec list \<Rightarrow> u64 \<Rightarrow> u64 \<Rightarrow> iov_pos \<Rightarrow> memory \<Rightarrow>
    (u64 \<times> iov_pos \<times> memory) option" where
  "iov_walk act iov to_copy off p mem = (if to_copy = 0 then Some (to_copy, p, mem)
     else do {
       v \<leftarrow> load iov (uint (iv_idx p));
       if to_copy \<le> iov_len v - iv_off p then do {
         mem' \<leftarrow> act (iov_base v + uint (iv_off p)) off to_copy mem;
         Some (to_copy, iov_finish to_copy (iov_len v - iv_off p) p, mem') }
       else do {
         mem' \<leftarrow> act (iov_base v + uint (iv_off p)) off (iov_len v - iv_off p) mem;
         iov_walk act iov (to_copy - (iov_len v - iv_off p)) (off + (iov_len v - iv_off p))
           (iov_skip (iov_len v - iv_off p) p) mem' } })"

section \<open>Transfers\<close>

text \<open>How many bytes a call copies: what the caller offers, the rest of the transfer and the limit.\<close>

definition copy_count :: "u64 \<Rightarrow> u64 \<Rightarrow> u64 \<Rightarrow> u64 \<Rightarrow> u64" where
  "copy_count len off n remain =
     (let to_copy = len - off; to_copy' = (if to_copy > remain then remain else to_copy) in
      if n > 0 \<and> to_copy' > n then n else to_copy')"

definition mem_copy :: "int \<Rightarrow> int \<Rightarrow> u64 \<Rightarrow> memory \<Rightarrow> memory option" where
  "mem_copy dst src n mem = map_option snd (memcpy mem dst src (unat n))"

definition mem_fill :: "int \<Rightarrow> u8 \<Rightarrow> u64 \<Rightarrow> memory \<Rightarrow> memory option" where
  "mem_fill dst byte n mem = map_option snd (memset mem dst (uint byte) (unat n))"

definition kio_nread_out :: "memory \<Rightarrow> int \<Rightarrow> u64 \<Rightarrow> u64 \<Rightarrow> u64 \<Rightarrow> kio \<Rightarrow> (u64 \<times> kio \<times> memory) option" where
  "kio_nread_out mem buf len off n k = do {
     kassert (kio_dir k = KIO_READ);
     if off \<ge> len then Some (0, k, mem)
     else let to_copy = copy_count len off n (kio_remaining k) in
       if to_copy = 0 then Some (0, k, mem)
       else case kio_data k of
         KIO_BUF base o' \<Rightarrow> do {
           mem' \<leftarrow> mem_copy (buf + uint off) (base + uint o') to_copy mem;
           Some (to_copy, k\<lparr>kio_data := KIO_BUF base (o' + to_copy)\<rparr>, mem') }
       | KIO_IOV arr cnt p \<Rightarrow> do {
           (r, p', mem') \<leftarrow> iov_walk (\<lambda>a o'. mem_copy (buf + uint o') a) arr to_copy off p mem;
           Some (r, k\<lparr>kio_data := KIO_IOV arr cnt p'\<rparr>, mem') } }"

definition kio_nwrite_in :: "memory \<Rightarrow> kio \<Rightarrow> int \<Rightarrow> u64 \<Rightarrow> u64 \<Rightarrow> u64 \<Rightarrow> (u64 \<times> kio \<times> memory) option" where
  "kio_nwrite_in mem k buf len off n = do {
     kassert (kio_dir k = KIO_WRITE);
     if off \<ge> len then Some (0, k, mem)
     else let to_copy = copy_count len off n (kio_remaining k) in
       if to_copy = 0 then Some (0, k, mem)
       else case kio_data k of
         KIO_BUF base o' \<Rightarrow> do {
           mem' \<leftarrow> mem_copy (base + uint o') (buf + uint off) to_copy mem;
           Some (to_copy, k\<lparr>kio_data := KIO_BUF base (o' + to_copy)\<rparr>, mem') }
       | KIO_IOV arr cnt p \<Rightarrow> do {
           (r, p', mem') \<leftarrow> iov_walk (\<lambda>a o'. mem_copy a (buf + uint o')) arr to_copy off p mem;
           Some (r, k\<lparr>kio_data := KIO_IOV arr cnt p'\<rparr>, mem') } }"

definition kio_fill :: "memory \<Rightarrow> kio \<Rightarrow> u8 \<Rightarrow> u64 \<Rightarrow> (u64 \<times> kio \<times> memory) option" where
  "kio_fill mem k byte len0 = do {
     kassert (kio_dir k = KIO_WRITE);
     let len = (if len0 > kio_remaining k then kio_remaining k else len0);
     if len = 0 then Some (0, k, mem)
     else case kio_data k of
       KIO_BUF base o' \<Rightarrow> do {
         mem' \<leftarrow> mem_fill (base + uint o') byte len mem;
         Some (len, k\<lparr>kio_data := KIO_BUF base (o' + len)\<rparr>, mem') }
     | KIO_IOV arr cnt p \<Rightarrow> do {
         (r, p', mem') \<leftarrow> iov_walk (\<lambda>a o'. mem_fill a byte) arr len 0 p mem;
         Some (r, k\<lparr>kio_data := KIO_IOV arr cnt p'\<rparr>, mem') } }"

definition kio_drain :: "memory \<Rightarrow> kio \<Rightarrow> u64 \<Rightarrow> (u64 \<times> kio) option" where
  "kio_drain mem k len0 = do {
     kassert (kio_dir k = KIO_READ);
     let len = (if len0 > kio_remaining k then kio_remaining k else len0);
     if len = 0 then Some (0, k)
     else case kio_data k of
       KIO_BUF base o' \<Rightarrow> Some (len, k\<lparr>kio_data := KIO_BUF base (o' + len)\<rparr>)
     | KIO_IOV arr cnt p \<Rightarrow> do {
         (r, p', mem') \<leftarrow> iov_walk (\<lambda>a o' n. Some) arr len 0 p mem;
         Some (r, k\<lparr>kio_data := KIO_IOV arr cnt p'\<rparr>) } }"

text \<open>
  The loop of \<open>kio_transfer\<close> over the source's buffers. It writes with \<open>kio_nwrite_in\<close> and advances
  the position without the transfer offset.
\<close>

definition transfer_write :: "memory \<Rightarrow> kio \<Rightarrow> iovec \<Rightarrow> u64 \<Rightarrow> u64 \<Rightarrow> (kio \<times> memory) option" where
  "transfer_write mem dst v off n = map_option snd (kio_nwrite_in mem dst (iov_base v) (iov_len v) off n)"

partial_function (option) transfer_loop ::
  "iovec list \<Rightarrow> u64 \<Rightarrow> iov_pos \<Rightarrow> kio \<times> memory \<Rightarrow> (u64 \<times> iov_pos \<times> kio \<times> memory) option" where
  "transfer_loop iov to_copy p s = (if to_copy = 0 then Some (to_copy, p, s)
     else do {
       v \<leftarrow> load iov (uint (iv_idx p));
       if to_copy \<le> iov_len v - iv_off p then do {
         s' \<leftarrow> transfer_write (snd s) (fst s) v (iv_off p) to_copy;
         Some (to_copy, if to_copy = iov_len v - iv_off p then p\<lparr>iv_idx := iv_idx p + 1, iv_off := 0\<rparr>
           else p\<lparr>iv_off := iv_off p + to_copy\<rparr>, s') }
       else do {
         s' \<leftarrow> transfer_write (snd s) (fst s) v (iv_off p) (iov_len v - iv_off p);
         transfer_loop iov (to_copy - (iov_len v - iv_off p))
           (p\<lparr>iv_off := iv_off p + (iov_len v - iv_off p), iv_idx := iv_idx p + 1\<rparr>) s' } })"

definition kio_transfer :: "memory \<Rightarrow> kio \<Rightarrow> kio \<Rightarrow> (u64 \<times> kio \<times> kio \<times> memory) option" where
  "kio_transfer mem dst src = do {
     kassert (kio_dir dst = KIO_WRITE);
     kassert (kio_dir src = KIO_READ);
     let to_copy = (if kio_remaining src > kio_remaining dst then kio_remaining dst else kio_remaining src);
     case kio_data src of
       KIO_BUF base o' \<Rightarrow> do {
         (r, dst', mem') \<leftarrow> kio_nwrite_in mem dst base (kio_size src) o' to_copy;
         Some (to_copy, dst', src\<lparr>kio_data := KIO_BUF base (o' + to_copy)\<rparr>, mem') }
     | KIO_IOV arr cnt p \<Rightarrow> do {
         (r, p', dst', mem') \<leftarrow> transfer_loop arr to_copy p (dst, mem);
         Some (r, dst', src\<lparr>kio_data := KIO_IOV arr cnt p'\<rparr>, mem') } }"

definition kio_read_out :: "memory \<Rightarrow> int \<Rightarrow> u64 \<Rightarrow> u64 \<Rightarrow> kio \<Rightarrow> (u64 \<times> kio \<times> memory) option" where
  "kio_read_out mem buf len off k = kio_nread_out mem buf len off 0 k"

definition kio_write_in :: "memory \<Rightarrow> kio \<Rightarrow> int \<Rightarrow> u64 \<Rightarrow> u64 \<Rightarrow> (u64 \<times> kio \<times> memory) option" where
  "kio_write_in mem k buf len off = kio_nwrite_in mem k buf len off 0"

definition kio_remfill :: "memory \<Rightarrow> kio \<Rightarrow> u8 \<Rightarrow> (u64 \<times> kio \<times> memory) option" where
  "kio_remfill mem k byte = kio_fill mem k byte (kio_remaining k)"

section \<open>Copies\<close>

lemma mem_copy_moved:
  assumes "s + unat n \<le> length mem" "d + unat n \<le> length mem" "d \<le> s \<or> s + unat n \<le> d"
  shows "mem_copy (int d) (int s) n mem = Some (moved mem d s (unat n))"
proof (cases "n = 0")
  case True
  then show ?thesis by (simp add: mem_copy_def memcpy_def moved_def)
next
  case False
  then show ?thesis using copy_forward_moved [OF assms] by (simp add: mem_copy_def memcpy_def unat_eq_zero)
qed

lemma int_plus_uint: "int d + uint (x :: u64) = int (d + unat x)"
  by simp

lemma load_uint_none: "length xs \<le> unat w \<Longrightarrow> load xs (uint w) = None"
  by (simp add: load_def)

text \<open>A transfer over one buffer, of which \<open>off\<close> bytes are done.\<close>

definition buf_kio :: "kio_dir \<Rightarrow> nat \<Rightarrow> u64 \<Rightarrow> u64 \<Rightarrow> kio" where
  "buf_kio dir base len off = \<lparr>kio_dir = dir, kio_size = len, kio_data = KIO_BUF (int base) off\<rparr>"

lemma buf_kio_simps [simp]:
  "kio_dir (buf_kio dir base len off) = dir" "kio_remaining (buf_kio dir base len off) = len - off"
  "kio_data (buf_kio dir base len off) = KIO_BUF (int base) off" "kio_size (buf_kio dir base len off) = len"
  "(buf_kio dir base len off)\<lparr>kio_data := KIO_BUF (int base) off'\<rparr> = buf_kio dir base len off'"
  by (simp_all add: buf_kio_def kio_remaining_def)

lemma copy_count_unat:
  assumes "off < len"
  shows "unat (copy_count len off n remain) =
    (if n = 0 then min (unat len - unat off) (unat remain) else min (min (unat len - unat off) (unat remain)) (unat n))"
proof -
  have "unat (len - off) = unat len - unat off" using assms by (simp add: unat_sub)
  then show ?thesis
    by (auto simp: copy_count_def Let_def word_less_nat_alt min_def unat_gt_0)
qed

lemma nwrite_buf:
  fixes n off len dlen doff :: u64
  defines "c \<equiv> (if off < len then copy_count len off n (dlen - doff) else 0)"
  assumes "doff \<le> dlen" "d + unat dlen \<le> length mem" "s + unat len \<le> length mem"
    "d + unat doff \<le> s + unat off \<or> s + unat off + unat c \<le> d + unat doff"
  shows "kio_nwrite_in mem (buf_kio KIO_WRITE d dlen doff) (int s) len off n =
    Some (c, buf_kio KIO_WRITE d dlen (doff + c), moved mem (d + unat doff) (s + unat off) (unat c))"
proof (cases "off < len \<and> c \<noteq> 0")
  case True
  have r: "unat (dlen - doff) = unat dlen - unat doff" using assms(2) by (simp add: unat_sub)
  have "unat c \<le> unat len - unat off" "unat c \<le> unat dlen - unat doff"
    using True copy_count_unat [of off len n "dlen - doff"] by (auto simp: c_def r min_def split: if_splits)
  moreover have "unat doff \<le> unat dlen" "unat off < unat len" using True assms(2) by (simp_all add: word_le_nat_alt word_less_nat_alt)
  ultimately have e: "mem_copy (int d + uint doff) (int s + uint off) c mem = Some (moved mem (d + unat doff) (s + unat off) (unat c))"
    using assms(3-5) unfolding int_plus_uint by (intro mem_copy_moved) auto
  have cc: "copy_count len off n (dlen - doff) = c" using True by (simp add: c_def)
  have "\<not> len \<le> off" using True by (simp add: not_le)
  then show ?thesis using True e unfolding kio_nwrite_in_def buf_kio_simps cc Let_def by simp
next
  case False
  have "moved mem (d + unat doff) (s + unat off) 0 = mem" by (simp add: moved_def)
  moreover have "len \<le> off \<or> copy_count len off n (dlen - doff) = 0" "c = 0" using False by (auto simp: c_def)
  ultimately show ?thesis unfolding kio_nwrite_in_def buf_kio_simps Let_def by auto
qed

section \<open>Properties\<close>

text \<open>
  C18: A transfer between two buffers copies: \<open>kio_transfer\<close> moves as many bytes as both sides have
  left, in order, from the source's position to the destination's, changes no other byte and advances
  both positions by that number, which it returns; afterwards one of the two has nothing left.
\<close>

theorem kio_transfer_copies:
  assumes "doff \<le> dlen" "soff \<le> slen" "d + unat dlen \<le> length mem" "s + unat slen \<le> length mem"
    "d + unat dlen \<le> s \<or> s + unat slen \<le> d"
  shows "\<exists>n. unat n = min (unat dlen - unat doff) (unat slen - unat soff) \<and>
    kio_transfer mem (buf_kio KIO_WRITE d dlen doff) (buf_kio KIO_READ s slen soff) =
      Some (n, buf_kio KIO_WRITE d dlen (doff + n), buf_kio KIO_READ s slen (soff + n),
        moved mem (d + unat doff) (s + unat soff) (unat n)) \<and>
    (kio_remaining (buf_kio KIO_WRITE d dlen (doff + n)) = 0 \<or> kio_remaining (buf_kio KIO_READ s slen (soff + n)) = 0)"
proof -
  define n where "n = (if slen - soff > dlen - doff then dlen - doff else slen - soff)"
  have u: "unat (dlen - doff) = unat dlen - unat doff" "unat (slen - soff) = unat slen - unat soff"
    "unat doff \<le> unat dlen" "unat soff \<le> unat slen"
    using assms(1,2) by (simp_all add: unat_sub word_le_nat_alt)
  have un: "unat n = min (unat dlen - unat doff) (unat slen - unat soff)"
    using u by (auto simp: n_def word_less_nat_alt)
  have le: "unat n \<le> unat slen - unat soff" using un by simp
  define c where "c = (if soff < slen then copy_count slen soff n (dlen - doff) else 0)"
  have "unat c = unat n"
    using copy_count_unat [of soff slen n "dlen - doff"] u un
    by (auto simp: c_def word_less_nat_alt min_def unat_eq_zero not_less)
  then have c: "c = n" by simp
  have "d + unat doff \<le> s + unat soff \<or> s + unat soff + unat c \<le> d + unat doff"
    using assms(5) u(3,4) le unfolding c by linarith
  from nwrite_buf [OF assms(1,3,4), where off = soff and n = n, folded c_def, OF this]
  have "kio_transfer mem (buf_kio KIO_WRITE d dlen doff) (buf_kio KIO_READ s slen soff) =
      Some (n, buf_kio KIO_WRITE d dlen (doff + n), buf_kio KIO_READ s slen (soff + n),
        moved mem (d + unat doff) (s + unat soff) (unat n))"
    unfolding kio_transfer_def buf_kio_simps Let_def n_def [symmetric] c by simp
  moreover have "dlen - (doff + n) = 0 \<or> slen - (soff + n) = 0" by (auto simp: n_def)
  ultimately show ?thesis using un by auto
qed

theorem kio_transfer_copies_witness:
  "\<exists>n. unat n = 3 \<and> kio_transfer [1, 2, 3, 4, 0, 0, 0] (buf_kio KIO_WRITE 4 3 0) (buf_kio KIO_READ 0 4 1) =
     Some (n, buf_kio KIO_WRITE 4 3 3, buf_kio KIO_READ 0 4 4, [1, 2, 3, 4, 2, 3, 4])"
proof -
  from kio_transfer_copies [of 0 3 1 4 4 "[1, 2, 3, 4, 0, 0, 0]" 0]
  obtain n :: u64 where "unat n = 3" and k: "kio_transfer [1, 2, 3, 4, 0, 0, 0] (buf_kio KIO_WRITE 4 3 0) (buf_kio KIO_READ 0 4 1) =
      Some (n, buf_kio KIO_WRITE 4 3 (0 + n), buf_kio KIO_READ 0 4 (1 + n), moved [1, 2, 3, 4, 0, 0, 0] 4 1 (unat n))"
    by auto
  then have n: "n = 3" by (simp add: word_unat_eq_iff)
  show ?thesis using k by (intro exI [of _ 3]) (simp add: n moved_def)
qed

text \<open>The first part of a write that crosses to the next buffer: the first buffer is filled.\<close>

lemma nwrite_cross:
  assumes k: "kio_dir k = KIO_WRITE" "kio_data k = KIO_IOV arr cnt p" "n \<le> kio_remaining k"
    and arr: "unat (iv_idx p) < length arr" "arr ! unat (iv_idx p) = \<lparr>iov_base = int b1, iov_len = len1\<rparr>"
    and cross: "iv_off p \<le> len1" "unat n = (unat len1 - unat (iv_off p)) + rest" "0 < rest"
    and mem: "b1 + unat len1 \<le> length mem" "s + unat n \<le> length mem" "b1 + unat len1 \<le> s \<or> s + unat n \<le> b1"
  defines "r \<equiv> len1 - iv_off p"
  shows "unat r = unat len1 - unat (iv_off p)" "unat (n - r) = rest" "n - r \<noteq> 0"
    "kio_nwrite_in mem k (int s) n 0 0 = do {
      (r', p', mem') \<leftarrow> iov_walk (\<lambda>a o'. mem_copy a (int s + uint o')) arr (n - r) r (iov_skip r p)
        (moved mem (b1 + unat (iv_off p)) s (unat r));
      Some (r', k\<lparr>kio_data := KIO_IOV arr cnt p'\<rparr>, mem') }"
proof -
  let ?act = "\<lambda>a o'. mem_copy a (int s + uint o')"
  let ?m1 = "moved mem (b1 + unat (iv_off p)) s (unat r)"
  have off: "unat (iv_off p) \<le> unat len1" using cross(1) by (simp add: word_le_nat_alt)
  show ur: "unat r = unat len1 - unat (iv_off p)" using cross(1) by (simp add: r_def unat_sub)
  have le: "\<not> n \<le> r" using ur cross(2,3) by (simp add: word_le_nat_alt)
  then show nr: "unat (n - r) = rest" using ur cross(2) by (simp add: unat_sub)
  show "n - r \<noteq> 0" using nr cross(3) by auto
  have nz: "n \<noteq> 0" using le by auto
  have "mem_copy (int (b1 + unat (iv_off p))) (int s) r mem = Some ?m1"
    using mem off ur cross(2) by (intro mem_copy_moved) auto
  then have "?act (int b1 + uint (iv_off p)) 0 r mem = Some ?m1" unfolding int_plus_uint by simp
  then have "iov_walk ?act arr n 0 p mem = iov_walk ?act arr (n - r) r (iov_skip r p) ?m1"
    using le nz arr by (subst iov_walk.simps) (simp add: r_def)
  moreover have "copy_count n 0 0 (kio_remaining k) = n" using k(3) by (auto simp: copy_count_def Let_def not_less)
  ultimately show "kio_nwrite_in mem k (int s) n 0 0 = do {
      (r', p', mem') \<leftarrow> iov_walk ?act arr (n - r) r (iov_skip r p) ?m1;
      Some (r', k\<lparr>kio_data := KIO_IOV arr cnt p'\<rparr>, mem') }"
    using k(1,2) nz by (simp add: kio_nwrite_in_def Let_def word_gt_0)
qed

text \<open>The second buffer is entered at the length of the first one.\<close>

lemma walk_second:
  assumes v: "load arr (uint (iv_idx p)) = Some \<lparr>iov_base = int b2, iov_len = len2\<rparr>" "iv_off p = len1"
    and fit: "unat len2 < unat len1 \<or> unat len1 + unat m \<le> unat len2" "m \<noteq> 0" "length mem < 2 ^ 64"
    and b: "b2 + unat len1 + unat m \<le> length mem" "s + unat r + unat m \<le> length mem"
      "b2 + unat len1 + unat m \<le> s + unat r \<or> s + unat r + unat m \<le> b2 + unat len1"
  shows "\<exists>p'. iov_walk (\<lambda>a o'. mem_copy a (int s + uint o')) arr m r p mem =
    Some (m, p', moved mem (b2 + unat len1) (s + unat r) (unat m))"
proof -
  have le: "m \<le> len2 - len1"
  proof (cases "len1 \<le> len2")
    case True
    then show ?thesis using fit(1) by (simp add: word_le_nat_alt unat_sub)
  next
    case False
    then have "unat (len2 - len1) = 2 ^ 64 + unat len2 - unat len1" by (simp add: unat_sub_if_size word_size word_le_nat_alt)
    then show ?thesis using b(1) fit(3) by (simp add: word_le_nat_alt)
  qed
  have "mem_copy (int (b2 + unat len1)) (int (s + unat r)) m mem = Some (moved mem (b2 + unat len1) (s + unat r) (unat m))"
    using b by (intro mem_copy_moved) auto
  then have "mem_copy (int b2 + uint len1) (int s + uint r) m mem = Some (moved mem (b2 + unat len1) (s + unat r) (unat m))"
    unfolding int_plus_uint .
  then show ?thesis using le fit(2) v by (subst iov_walk.simps) simp
qed

lemma walk_off_array:
  assumes v: "load arr (uint (iv_idx p)) = Some \<lparr>iov_base = int b2, iov_len = len2\<rparr>" "iv_off p = len1"
    and full: "\<not> unat len2 < unat len1" "\<not> unat len1 + unat m \<le> unat len2" "m \<noteq> 0"
    and last: "Suc (unat (iv_idx p)) = length arr" "length arr < 2 ^ 32"
  shows "iov_walk act arr m r p mem = None"
proof -
  have lt: "\<not> m \<le> len2 - len1" using full by (simp add: word_le_nat_alt unat_sub)
  have "unat (iv_idx p + 1) = length arr" using last by (subst unat_word_ariths(1)) simp
  then have "load arr (uint (iv_idx (iov_skip (len2 - len1) p))) = None" by (simp add: load_uint_none iov_skip_def)
  moreover have "m - (len2 - len1) \<noteq> 0" using lt by auto
  ultimately have "iov_walk act arr (m - (len2 - len1)) q (iov_skip (len2 - len1) p) mem' = None" for q mem'
    by (subst iov_walk.simps) simp
  then show ?thesis using lt full(3) v by (subst iov_walk.simps) (simp add: Option.bind_eq_None_conv)
qed

text \<open>
  C34: A write of as many bytes as are left of the transfer, or fewer, over an array of buffers goes
  wrong whenever it crosses from a nonempty buffer to the next, from any position of the transfer: the offset reached in the first buffer, its whole length, is
  kept for the second. If the second buffer is shorter than the first, the rest of the data lands
  behind its end; if the rest still fits behind that many bytes, it lands there; in both cases only
  the length of the rest is returned. If it does not fit and there is no third buffer, the loop runs
  off the array. The first buffer, the caller's data and the place where the rest lands are taken to be
  inside the memory, and the caller's data not to overlap the other two.
\<close>

theorem kio_iov_crossing:
  assumes k: "kio_dir k = KIO_WRITE" "kio_data k = KIO_IOV arr cnt p" "n \<le> kio_remaining k"
    and arr: "Suc (unat (iv_idx p)) < length arr" "length arr < 2 ^ 32"
      "arr ! unat (iv_idx p) = \<lparr>iov_base = int b1, iov_len = len1\<rparr>" "arr ! Suc (unat (iv_idx p)) = \<lparr>iov_base = int b2, iov_len = len2\<rparr>"
    and cross: "iv_off p \<le> len1" "unat n = (unat len1 - unat (iv_off p)) + rest" "0 < rest"
    and mem: "length mem < 2 ^ 64" "b1 + unat len1 \<le> length mem" "s + unat n \<le> length mem" "b1 + unat len1 \<le> s \<or> s + unat n \<le> b1"
  shows "if unat len2 < unat len1 \<or> unat len1 + rest \<le> unat len2
    then b2 + unat len1 + rest \<le> length mem \<and> (b2 + unat len1 + rest \<le> s \<or> s + unat n \<le> b2 + unat len1) \<longrightarrow>
      (\<exists>k'. kio_nwrite_in mem k (int s) n 0 0 = Some (of_nat rest, k',
        moved (moved mem (b1 + unat (iv_off p)) s (unat n - rest)) (b2 + unat len1) (s + (unat n - rest)) rest))
    else Suc (Suc (unat (iv_idx p))) = length arr \<longrightarrow> kio_nwrite_in mem k (int s) n 0 0 = None"
proof -
  let ?i = "unat (iv_idx p)"
  define r where "r = len1 - iv_off p"
  note fst = nwrite_cross [OF k _ arr(3) cross mem(2,3,4), folded r_def]
  let ?m1 = "moved mem (b1 + unat (iv_off p)) s (unat r)" and ?p1 = "iov_skip r p"
  have i: "?i < length arr" using arr(1) by simp
  have ur: "unat n - rest = unat r" "unat (n - r) = rest" "n - r \<noteq> 0" "n - r = of_nat rest"
    using fst(1,2,3) [OF i] cross(2) by simp_all (metis word_unat_eq_iff of_nat_unat ucast_id)
  have l: "length ?m1 = length mem"
    using mem fst(1) [OF i] cross by (simp add: length_moved word_le_nat_alt)
  have p1: "unat (iv_idx ?p1) = Suc ?i" "iv_off ?p1 = len1"
    using arr(1,2) by (simp_all add: iov_skip_def r_def) (subst unat_word_ariths(1), simp)
  then have ld: "load arr (uint (iv_idx ?p1)) = Some \<lparr>iov_base = int b2, iov_len = len2\<rparr>" using arr(1,4) by simp
  have "\<exists>k'. kio_nwrite_in mem k (int s) n 0 0 = Some (of_nat rest, k', moved ?m1 (b2 + unat len1) (s + unat r) rest)"
    if "unat len2 < unat len1 \<or> unat len1 + rest \<le> unat len2"
      "b2 + unat len1 + rest \<le> length mem" "b2 + unat len1 + rest \<le> s \<or> s + unat n \<le> b2 + unat len1"
    using walk_second [OF ld p1(2), of "n - r" ?m1 s r] that l mem(1,3) cross(2) fst(1) [OF i] ur fst(4) [OF i] by auto
  moreover have "kio_nwrite_in mem k (int s) n 0 0 = None"
    if "\<not> (unat len2 < unat len1 \<or> unat len1 + rest \<le> unat len2)" "Suc (Suc ?i) = length arr"
    using walk_off_array [OF ld p1(2), of "n - r"] that ur p1(1) arr(2) fst(4) [OF i] by simp
  ultimately show ?thesis unfolding ur(1) by simp
qed

text \<open>
  Two buffers of 1 and 3 bytes: a write of three bytes is misplaced, one that fills both does not return.
\<close>

theorem kio_iov_crossing_witness:
  "\<exists>k k'. kio_new_writablev [\<lparr>iov_base = 4, iov_len = 1\<rparr>, \<lparr>iov_base = 5, iov_len = 3\<rparr>] 2 = Some k \<and>
     kio_nwrite_in [1, 2, 3, 9, 0, 0, 0, 0] k 0 3 0 0 = Some (2, k', [1, 2, 3, 9, 1, 0, 2, 3]) \<and>
     kio_nwrite_in [1, 2, 3, 9, 0, 0, 0, 0] k 0 4 0 0 = None"
proof -
  let ?arr = "[\<lparr>iov_base = 4, iov_len = 1\<rparr>, \<lparr>iov_base = 5, iov_len = 3\<rparr>] :: iovec list"
  let ?p = "\<lparr>iv_idx = 0, iv_off = 0, iv_t_off = 0\<rparr>"
  let ?k = "\<lparr>kio_dir = KIO_WRITE, kio_size = 4, kio_data = KIO_IOV ?arr 2 ?p\<rparr>"
  have "unat (2 :: u32) = Suc (Suc 0)" by simp
  then have k: "kio_new_writablev ?arr 2 = Some ?k" unfolding kio_new_writablev_def by (simp only:) (simp add: load_def)
  have a: "kio_dir ?k = KIO_WRITE" "kio_data ?k = KIO_IOV ?arr 2 ?p" "3 \<le> kio_remaining ?k" "4 \<le> kio_remaining ?k"
    by (simp_all add: kio_remaining_def)
  have "\<exists>k'. kio_nwrite_in [1, 2, 3, 9, 0, 0, 0, 0] ?k 0 3 0 0 = Some (2, k', [1, 2, 3, 9, 1, 0, 2, 3])"
    using kio_iov_crossing [OF a(1,2,3), of 4 1 5 3 2 "[1, 2, 3, 9, 0, 0, 0, 0]" 0] by (simp add: moved_def)
  moreover have "kio_nwrite_in [1, 2, 3, 9, 0, 0, 0, 0] ?k 0 4 0 0 = None"
    using kio_iov_crossing [OF a(1,2,4), of 4 1 5 3 3 "[1, 2, 3, 9, 0, 0, 0, 0]" 0] by simp
  ultimately show ?thesis using k by blast
qed

end
