(* ===== verification/Murmur3.thy ===== *)
theory Murmur3
  imports Kernel_Prelude
begin

text \<open>
  The hash functions of \<^verbatim>\<open>lib/murmur3.c\<close>. The key is an array of bytes, read bytewise at the end and
  in little endian blocks before; a read outside it is undefined. Lengths are C's \<open>int\<close>, and the
  shifts of bytes that are promoted to \<open>int\<close> are taken at 32 bits, as the compiler does.
\<close>

section \<open>Definitions\<close>

definition rotl32 :: "u32 \<Rightarrow> nat \<Rightarrow> u32" where
  "rotl32 x r = push_bit r x OR drop_bit (32 - r) x"

definition rotl64 :: "u64 \<Rightarrow> nat \<Rightarrow> u64" where
  "rotl64 x r = push_bit r x OR drop_bit (64 - r) x"

text \<open>Bytes in memory as a little endian number.\<close>

primrec le_word :: "u8 list \<Rightarrow> 'a::len word" where
  "le_word [] = 0"
| "le_word (b # bs) = ucast b + 256 * le_word bs"

text \<open>The \<open>n\<close> bytes from an address on.\<close>

primrec load_bytes :: "u8 list \<Rightarrow> int \<Rightarrow> nat \<Rightarrow> u8 list option" where
  "load_bytes data p 0 = Some []"
| "load_bytes data p (Suc n) = do { b \<leftarrow> load data p; bs \<leftarrow> load_bytes data (p + 1) n; Some (b # bs) }"

definition getblock32 :: "u8 list \<Rightarrow> int \<Rightarrow> int \<Rightarrow> u32 option" where
  "getblock32 data p i = map_option le_word (load_bytes data (p + 4 * i) 4)"

definition getblock64 :: "u8 list \<Rightarrow> int \<Rightarrow> int \<Rightarrow> u64 option" where
  "getblock64 data p i = map_option le_word (load_bytes data (p + 8 * i) 8)"

definition fmix32 :: "u32 \<Rightarrow> u32" where
  "fmix32 h0 = (let h1 = h0 XOR drop_bit 16 h0; h2 = h1 * 0x85EBCA6B; h3 = h2 XOR drop_bit 13 h2;
     h4 = h3 * 0xC2B2AE35 in h4 XOR drop_bit 16 h4)"

definition fmix64 :: "u64 \<Rightarrow> u64" where
  "fmix64 k0 = (let k1 = k0 XOR drop_bit 33 k0; k2 = k1 * 0xFF51AFD7ED558CCD; k3 = k2 XOR drop_bit 33 k2;
     k4 = k3 * 0xC4CEB9fE1A85EC53 in k4 XOR drop_bit 33 k4)"

text \<open>
  The cases of a \<open>switch\<close> that fall through: bytes \<open>lo + n - 1\<close> down to \<open>lo\<close> of the tail are shifted
  to their places and combined with exclusive or.
\<close>

primrec tail_bytes :: "u8 list \<Rightarrow> int \<Rightarrow> nat \<Rightarrow> 'a::len word option" where
  "tail_bytes data tail 0 = Some 0"
| "tail_bytes data tail (Suc n) = do {
     b \<leftarrow> load data (tail + int n);
     k \<leftarrow> tail_bytes data tail n;
     Some (push_bit (8 * n) (ucast b) XOR k) }"

subsection \<open>The 32-bit hash\<close>

definition x86_32_k :: "u32 \<Rightarrow> u32" where
  "x86_32_k k = rotl32 (k * 0xCC9E2D51) 15 * 0x1B873593"

definition x86_32_round :: "u32 \<Rightarrow> u32 \<Rightarrow> u32" where
  "x86_32_round h1 k1 = rotl32 (h1 XOR x86_32_k k1) 13 * 5 + 0xE6546B64"

partial_function (option) x86_32_body :: "u8 list \<Rightarrow> int \<Rightarrow> int \<Rightarrow> u32 \<Rightarrow> u32 option" where
  "x86_32_body data blocks i h1 = (if i = 0 then Some h1
     else do { k1 \<leftarrow> getblock32 data blocks i; x86_32_body data blocks (i + 1) (x86_32_round h1 k1) })"

definition murmur_hash_x86_32 :: "u8 list \<Rightarrow> int \<Rightarrow> u32 \<Rightarrow> u32 option" where
  "murmur_hash_x86_32 key len seed = do {
     let nblocks = len sdiv 4;
     h1 \<leftarrow> x86_32_body key (nblocks * 4) (- nblocks) seed;
     let m = nat (len mod 4);
     k1 \<leftarrow> tail_bytes key (nblocks * 4) m;
     let h1' = (if m \<ge> 1 then h1 XOR x86_32_k k1 else h1);
     Some (fmix32 (h1' XOR word_of_int len)) }"

subsection \<open>The 128-bit hash on 32-bit words\<close>

type_synonym quad = "u32 \<times> u32 \<times> u32 \<times> u32"

definition x86_128_k1 :: "u32 \<Rightarrow> u32" where "x86_128_k1 k = rotl32 (k * 0x239B961B) 15 * 0xAB0E9789"
definition x86_128_k2 :: "u32 \<Rightarrow> u32" where "x86_128_k2 k = rotl32 (k * 0xAB0E9789) 16 * 0x38B34AE5"
definition x86_128_k3 :: "u32 \<Rightarrow> u32" where "x86_128_k3 k = rotl32 (k * 0x38B34AE5) 17 * 0xA1E38B93"
definition x86_128_k4 :: "u32 \<Rightarrow> u32" where "x86_128_k4 k = rotl32 (k * 0xA1E38B93) 18 * 0x239B961B"

definition x86_128_round :: "quad \<Rightarrow> quad \<Rightarrow> quad" where
  "x86_128_round = (\<lambda>(h1, h2, h3, h4) (k1, k2, k3, k4).
     let h1' = (rotl32 (h1 XOR x86_128_k1 k1) 19 + h2) * 5 + 0x561CCD1B;
         h2' = (rotl32 (h2 XOR x86_128_k2 k2) 17 + h3) * 5 + 0x0BCAA747;
         h3' = (rotl32 (h3 XOR x86_128_k3 k3) 15 + h4) * 5 + 0x96CD1C35;
         h4' = (rotl32 (h4 XOR x86_128_k4 k4) 13 + h1') * 5 + 0x32AC3B17 in
     (h1', h2', h3', h4'))"

definition getquad :: "u8 list \<Rightarrow> int \<Rightarrow> int \<Rightarrow> quad option" where
  "getquad data blocks i = do {
     k1 \<leftarrow> getblock32 data blocks (i * 4 + 0);
     k2 \<leftarrow> getblock32 data blocks (i * 4 + 1);
     k3 \<leftarrow> getblock32 data blocks (i * 4 + 2);
     k4 \<leftarrow> getblock32 data blocks (i * 4 + 3);
     Some (k1, k2, k3, k4) }"

partial_function (option) x86_128_body :: "u8 list \<Rightarrow> int \<Rightarrow> int \<Rightarrow> quad \<Rightarrow> quad option" where
  "x86_128_body data blocks i h = (if i = 0 then Some h
     else do { k \<leftarrow> getquad data blocks i; x86_128_body data blocks (i + 1) (x86_128_round h k) })"

definition x86_128_tail :: "u8 list \<Rightarrow> int \<Rightarrow> nat \<Rightarrow> quad \<Rightarrow> quad option" where
  "x86_128_tail data tail m = (\<lambda>(h1, h2, h3, h4). do {
     k4 \<leftarrow> tail_bytes data (tail + 12) (m - 12);
     let h4' = (if m \<ge> 13 then h4 XOR x86_128_k4 k4 else h4);
     k3 \<leftarrow> tail_bytes data (tail + 8) (min 4 (m - 8));
     let h3' = (if m \<ge> 9 then h3 XOR x86_128_k3 k3 else h3);
     k2 \<leftarrow> tail_bytes data (tail + 4) (min 4 (m - 4));
     let h2' = (if m \<ge> 5 then h2 XOR x86_128_k2 k2 else h2);
     k1 \<leftarrow> tail_bytes data tail (min 4 m);
     let h1' = (if m \<ge> 1 then h1 XOR x86_128_k1 k1 else h1);
     Some (h1', h2', h3', h4') })"

definition x86_128_mix :: "quad \<Rightarrow> quad" where
  "x86_128_mix = (\<lambda>(h1, h2, h3, h4). let s = h1 + h2 + h3 + h4 in (s, h2 + s, h3 + s, h4 + s))"

definition x86_128_final :: "int \<Rightarrow> quad \<Rightarrow> quad" where
  "x86_128_final len = (\<lambda>(h1, h2, h3, h4).
     let (g1, g2, g3, g4) = x86_128_mix (h1 XOR word_of_int len, h2 XOR word_of_int len, h3 XOR word_of_int len, h4 XOR word_of_int len) in
     x86_128_mix (fmix32 g1, fmix32 g2, fmix32 g3, fmix32 g4))"

definition murmur_hash_x86_128 :: "u8 list \<Rightarrow> int \<Rightarrow> u32 \<Rightarrow> quad option" where
  "murmur_hash_x86_128 key len seed = do {
     let nblocks = len sdiv 16;
     h \<leftarrow> x86_128_body key (nblocks * 16) (- nblocks) (seed, seed, seed, seed);
     h' \<leftarrow> x86_128_tail key (nblocks * 16) (nat (len mod 16)) h;
     Some (x86_128_final len h') }"

subsection \<open>The 128-bit hash on 64-bit words\<close>

definition x64_128_k1 :: "u64 \<Rightarrow> u64" where "x64_128_k1 k = rotl64 (k * 0x87C37B91114253D5) 31 * 0x4CF5AD432745937F"
definition x64_128_k2 :: "u64 \<Rightarrow> u64" where "x64_128_k2 k = rotl64 (k * 0x4CF5AD432745937F) 33 * 0x87C37B91114253D5"

definition x64_128_round :: "u64 \<times> u64 \<Rightarrow> u64 \<times> u64 \<Rightarrow> u64 \<times> u64" where
  "x64_128_round = (\<lambda>(h1, h2) (k1, k2).
     let h1' = (rotl64 (h1 XOR x64_128_k1 k1) 27 + h2) * 5 + 0x52DCE729;
         h2' = (rotl64 (h2 XOR x64_128_k2 k2) 31 + h1') * 5 + 0x38495AB5 in
     (h1', h2'))"

definition getpair :: "u8 list \<Rightarrow> int \<Rightarrow> int \<Rightarrow> (u64 \<times> u64) option" where
  "getpair data blocks i = do {
     k1 \<leftarrow> getblock64 data blocks (i * 2 + 0);
     k2 \<leftarrow> getblock64 data blocks (i * 2 + 1);
     Some (k1, k2) }"

partial_function (option) x64_128_body :: "u8 list \<Rightarrow> int \<Rightarrow> int \<Rightarrow> u64 \<times> u64 \<Rightarrow> (u64 \<times> u64) option" where
  "x64_128_body data nblocks i h = (if i < nblocks
     then do { k \<leftarrow> getpair data 0 i; x64_128_body data nblocks (i + 1) (x64_128_round h k) } else Some h)"

definition x64_128_tail :: "u8 list \<Rightarrow> int \<Rightarrow> nat \<Rightarrow> u64 \<times> u64 \<Rightarrow> (u64 \<times> u64) option" where
  "x64_128_tail data tail m = (\<lambda>(h1, h2). do {
     k2 \<leftarrow> tail_bytes data (tail + 8) (m - 8);
     let h2' = (if m \<ge> 9 then h2 XOR x64_128_k2 k2 else h2);
     k1 \<leftarrow> tail_bytes data tail (min 8 m);
     let h1' = (if m \<ge> 1 then h1 XOR x64_128_k1 k1 else h1);
     Some (h1', h2') })"

definition x64_128_mix :: "u64 \<times> u64 \<Rightarrow> u64 \<times> u64" where
  "x64_128_mix = (\<lambda>(h1, h2). let s = h1 + h2 in (s, h2 + s))"

definition x64_128_final :: "int \<Rightarrow> u64 \<times> u64 \<Rightarrow> u64 \<times> u64" where
  "x64_128_final len = (\<lambda>(h1, h2).
     let (g1, g2) = x64_128_mix (h1 XOR word_of_int len, h2 XOR word_of_int len) in
     x64_128_mix (fmix64 g1, fmix64 g2))"

definition murmur_hash_x64_128 :: "u8 list \<Rightarrow> int \<Rightarrow> u32 \<Rightarrow> (u64 \<times> u64) option" where
  "murmur_hash_x64_128 key len seed = do {
     let nblocks = len sdiv 16;
     h \<leftarrow> x64_128_body key nblocks 0 (ucast seed, ucast seed);
     h' \<leftarrow> x64_128_tail key (nblocks * 16) (nat (len mod 16)) h;
     Some (x64_128_final len h') }"

section \<open>Reference definitions\<close>

text \<open>
  MurmurHash3 over the blocks of a byte string: the rounds of the full blocks, then the incomplete
  block, padded with zeros, without the rotation and the addition, then the finalization.
\<close>

definition full_blocks :: "nat \<Rightarrow> u8 list \<Rightarrow> u8 list list" where
  "full_blocks n bs = map (\<lambda>i. take n (drop (n * i) bs)) [0..<length bs div n]"

definition last_block :: "nat \<Rightarrow> u8 list \<Rightarrow> u8 list" where
  "last_block n bs = drop (n * (length bs div n)) bs"

definition part :: "nat \<Rightarrow> nat \<Rightarrow> u8 list \<Rightarrow> 'a::len word" where
  "part n i bs = le_word (take n (drop (n * i) bs))"

definition ref_x86_32 :: "u32 \<Rightarrow> u8 list \<Rightarrow> u32" where
  "ref_x86_32 seed bs = fmix32 ((foldl (\<lambda>h b. x86_32_round h (le_word b)) seed (full_blocks 4 bs)
     XOR x86_32_k (le_word (last_block 4 bs))) XOR of_nat (length bs))"

definition quad_of :: "u8 list \<Rightarrow> quad" where
  "quad_of bs = (part 4 0 bs, part 4 1 bs, part 4 2 bs, part 4 3 bs)"

definition ref_x86_128 :: "u32 \<Rightarrow> u8 list \<Rightarrow> quad" where
  "ref_x86_128 seed bs =
     (let (h1, h2, h3, h4) = foldl (\<lambda>h b. x86_128_round h (quad_of b)) (seed, seed, seed, seed) (full_blocks 16 bs);
          (k1, k2, k3, k4) = quad_of (last_block 16 bs) in
      x86_128_final (int (length bs))
        (h1 XOR x86_128_k1 k1, h2 XOR x86_128_k2 k2, h3 XOR x86_128_k3 k3, h4 XOR x86_128_k4 k4))"

definition pair_of :: "u8 list \<Rightarrow> u64 \<times> u64" where
  "pair_of bs = (part 8 0 bs, part 8 1 bs)"

definition ref_x64_128 :: "u32 \<Rightarrow> u8 list \<Rightarrow> u64 \<times> u64" where
  "ref_x64_128 seed bs =
     (let (h1, h2) = foldl (\<lambda>h b. x64_128_round h (pair_of b)) (ucast seed, ucast seed) (full_blocks 16 bs);
          (k1, k2) = pair_of (last_block 16 bs) in
      x64_128_final (int (length bs)) (h1 XOR x64_128_k1 k1, h2 XOR x64_128_k2 k2))"

section \<open>Reading bytes\<close>

lemma load_bytes_take: "p + n \<le> length data \<Longrightarrow> load_bytes data (int p) n = Some (take n (drop p data))"
proof (induction n arbitrary: p)
  case (Suc n)
  then have "load_bytes data (int p + 1) n = Some (take n (drop (Suc p) data))" using Suc.IH [of "Suc p"] by (simp add: add.commute)
  moreover have "drop p data = data ! p # drop (Suc p) data" using Suc.prems by (intro Cons_nth_drop_Suc [symmetric]) simp
  ultimately show ?case using Suc.prems by simp
qed simp

lemma bit_byte: "bit (b :: u8) n \<Longrightarrow> n < 8"
  using bit_imp_le_length [of b n] by simp

lemma le_word_or: "(ucast (b :: u8) + 256 * w :: 'a::len word) = ucast b OR push_bit 8 w"
proof -
  have "(256 * w :: 'a word) = push_bit 8 w" by (simp add: push_bit_eq_mult)
  moreover have "(ucast b :: 'a word) + push_bit 8 w = ucast b OR push_bit 8 w"
  proof (rule disjunctive_add_eq_or, rule bit_word_eqI)
    show "bit ((ucast b :: 'a word) AND push_bit 8 w) n = bit (0 :: 'a word) n" for n
      using bit_byte [of b n] by (auto simp: bit_and_iff bit_push_bit_iff bit_ucast_iff)
  qed
  ultimately show ?thesis by simp
qed

lemma bit_le_word:
  "bit (le_word bs :: 'a::len word) i \<longleftrightarrow> i < LENGTH('a) \<and> i div 8 < length bs \<and> bit (bs ! (i div 8)) (i mod 8)"
proof (induction bs arbitrary: i)
  case (Cons b bs)
  show ?case
  proof (cases "i < 8")
    case True
    then have "i div 8 = 0" "i mod 8 = i" by simp_all
    then show ?thesis using True unfolding le_word.simps le_word_or bit_or_iff bit_push_bit_iff bit_ucast_iff by simp
  next
    case False
    then obtain j where j: "i = j + 8" by (metis add.commute le_Suc_ex not_less)
    have d: "(j + 8) div 8 = Suc (j div 8)" "(j + 8) mod 8 = j mod 8" by simp_all
    have "\<not> bit b i" using False bit_byte [of b i] by auto
    then show ?thesis using Cons.IH [of j]
      unfolding j d le_word.simps le_word_or bit_or_iff bit_push_bit_iff bit_ucast_iff by auto
  qed
qed simp

lemma le_word_snoc:
  "push_bit (8 * length bs) (ucast b) XOR le_word bs = (le_word (bs @ [b]) :: 'a::len word)"
proof (rule bit_word_eqI)
  fix i assume i: "i < LENGTH('a)"
  show "bit (push_bit (8 * length bs) (ucast b) XOR le_word bs :: 'a word) i = bit (le_word (bs @ [b]) :: 'a word) i"
  proof (cases "i div 8 = length bs")
    case True
    then have "i - 8 * length bs = i mod 8" "8 * length bs \<le> i" using div_mult_mod_eq [of i 8] by auto
    moreover have "i mod 8 < LENGTH('a)" using i by (meson le_less_trans mod_less_eq_dividend)
    ultimately show ?thesis using True i by (simp add: bit_xor_iff bit_push_bit_iff bit_ucast_iff bit_le_word nth_append)
  next
    case False
    have "\<not> bit b (i - 8 * length bs)" if "8 * length bs \<le> i"
    proof
      assume "bit b (i - 8 * length bs)"
      then have "i - 8 * length bs < 8" by (rule bit_byte)
      then have "i div 8 = length bs" using that by linarith
      then show False using False by simp
    qed
    then show ?thesis using False i
      by (auto simp: bit_xor_iff bit_push_bit_iff bit_ucast_iff bit_le_word nth_append less_Suc_eq)
  qed
qed

lemma tail_bytes_le:
  "p + n \<le> length data \<Longrightarrow> tail_bytes data (int p) n = Some (le_word (take n (drop p data)) :: 'a::len word)"
proof (induction n)
  case (Suc n)
  have t: "take (Suc n) (drop p data) = take n (drop p data) @ [data ! (p + n)]"
    using Suc.prems by (simp add: take_Suc_conv_app_nth)
  have l: "length (take n (drop p data)) = n" using Suc.prems by simp
  have "load data (int p + int n) = Some (data ! (p + n))" using Suc.prems by (simp add: load_def nat_add_distrib)
  then show ?case using Suc le_word_snoc [of "take n (drop p data)" "data ! (p + n)", where 'a = 'a] unfolding t l by simp
qed simp

lemma getblock32_at: "p + 4 * i = int a \<Longrightarrow> a + 4 \<le> length data \<Longrightarrow> getblock32 data p i = Some (le_word (take 4 (drop a data)))"
  using load_bytes_take [of a 4 data] by (simp add: getblock32_def)

lemma getblock64_at: "p + 8 * i = int a \<Longrightarrow> a + 8 \<le> length data \<Longrightarrow> getblock64 data p i = Some (le_word (take 8 (drop a data)))"
  using load_bytes_take [of a 8 data] by (simp add: getblock64_def)

lemma part_at: "part n i (take m (drop p data)) = le_word (take (min n (m - n * i)) (drop (p + n * i) data))"
  by (simp add: part_def drop_take min.commute add.commute)

lemma getquad_at:
  assumes "blocks + 16 * i = int a" "a + 16 \<le> length data"
  shows "getquad data blocks i = Some (quad_of (take 16 (drop a data)))"
proof -
  have "getblock32 data blocks (i * 4 + int t) = Some (part 4 t (take 16 (drop a data)))" if "t < 4" for t
    using that assms getblock32_at [of blocks "i * 4 + int t" "a + 4 * t" data] by (simp add: part_at min_def)
  from this [of 0] this [of 1] this [of 2] this [of 3] show ?thesis by (simp add: getquad_def quad_of_def)
qed

lemma getpair_at:
  assumes "blocks + 16 * i = int a" "a + 16 \<le> length data"
  shows "getpair data blocks i = Some (pair_of (take 16 (drop a data)))"
proof -
  have "getblock64 data blocks (i * 2 + int t) = Some (part 8 t (take 16 (drop a data)))" if "t < 2" for t
    using that assms getblock64_at [of blocks "i * 2 + int t" "a + 8 * t" data] by (simp add: part_at min_def)
  from this [of 0] this [of 1] show ?thesis by (simp add: getpair_def pair_of_def)
qed

section \<open>The loops over the blocks\<close>

lemma upt_back: "Suc j \<le> n \<Longrightarrow> [n - Suc j..<n] = (n - Suc j) # [n - j..<n]"
  by (simp add: upt_conv_Cons Suc_diff_Suc)

lemma x86_32_body_fold:
  assumes "j \<le> n" "4 * n \<le> length data"
  shows "x86_32_body data (int n * 4) (- int j) h =
    Some (foldl (\<lambda>h b. x86_32_round h (le_word b)) h (map (\<lambda>i. take 4 (drop (4 * i) data)) [n - j..<n]))"
  using assms(1)
proof (induction j arbitrary: h)
  case (Suc j)
  have "getblock32 data (int n * 4) (- int (Suc j)) = Some (le_word (take 4 (drop (4 * (n - Suc j)) data)))"
    using Suc.prems assms(2) by (intro getblock32_at) (auto simp: of_nat_diff)
  then show ?case using Suc by (subst x86_32_body.simps) (simp add: upt_back)
qed (subst x86_32_body.simps, simp)

lemma x86_128_body_fold:
  assumes "j \<le> n" "16 * n \<le> length data"
  shows "x86_128_body data (int n * 16) (- int j) h =
    Some (foldl (\<lambda>h b. x86_128_round h (quad_of b)) h (map (\<lambda>i. take 16 (drop (16 * i) data)) [n - j..<n]))"
  using assms(1)
proof (induction j arbitrary: h)
  case (Suc j)
  have "getquad data (int n * 16) (- int (Suc j)) = Some (quad_of (take 16 (drop (16 * (n - Suc j)) data)))"
    using Suc.prems assms(2) by (intro getquad_at) (auto simp: of_nat_diff)
  then show ?case using Suc by (subst x86_128_body.simps) (simp add: upt_back)
qed (subst x86_128_body.simps, simp)

lemma x64_128_body_fold:
  assumes "j \<le> n" "16 * n \<le> length data"
  shows "x64_128_body data (int n) (int n - int j) h =
    Some (foldl (\<lambda>h b. x64_128_round h (pair_of b)) h (map (\<lambda>i. take 16 (drop (16 * i) data)) [n - j..<n]))"
  using assms(1)
proof (induction j arbitrary: h)
  case (Suc j)
  have "getpair data 0 (int n - int (Suc j)) = Some (pair_of (take 16 (drop (16 * (n - Suc j)) data)))"
    using Suc.prems assms(2) by (intro getpair_at) (auto simp: of_nat_diff)
  moreover have "int n - int (Suc j) + 1 = int n - int j" by simp
  ultimately show ?case using Suc by (subst x64_128_body.simps) (simp add: upt_back)
qed (subst x64_128_body.simps, simp)

lemma full_blocks_take:
  assumes "len \<le> length data" "0 < n"
  shows "full_blocks n (take len data) = map (\<lambda>i. take n (drop (n * i) data)) [0..<len div n]"
proof -
  have "take n (drop (n * i) (take len data)) = take n (drop (n * i) data)" if "i < len div n" for i
  proof -
    have "n * Suc i \<le> n * (len div n)" using that by (intro mult_le_mono2) simp
    from order_trans [OF this times_div_less_eq_dividend] have "n + n * i \<le> len" by simp
    then show ?thesis by (simp add: drop_take min_def)
  qed
  then show ?thesis using assms(1) by (simp add: full_blocks_def min_def)
qed

lemma last_block_take:
  assumes "len \<le> length data"
  shows "last_block n (take len data) = take (len mod n) (drop (n * (len div n)) data)"
  using assms by (simp add: last_block_def min_def drop_take minus_mult_div_eq_mod)

lemma rotl_0 [simp]: "rotl32 0 r = 0" "rotl64 0 r = 0"
  by (simp_all add: rotl32_def rotl64_def)

lemma k_0 [simp]:
  "x86_32_k 0 = 0" "x86_128_k1 0 = 0" "x86_128_k2 0 = 0" "x86_128_k3 0 = 0" "x86_128_k4 0 = 0"
  "x64_128_k1 0 = 0" "x64_128_k2 0 = 0"
  by (simp_all add: x86_32_k_def x86_128_k1_def x86_128_k2_def x86_128_k3_def x86_128_k4_def x64_128_k1_def x64_128_k2_def)

lemma x86_128_tail_at:
  assumes "p + m \<le> length data" "m < 16"
  shows "x86_128_tail data (int p) m (h1, h2, h3, h4) =
    Some (case quad_of (take m (drop p data)) of (k1, k2, k3, k4) \<Rightarrow>
      (h1 XOR x86_128_k1 k1, h2 XOR x86_128_k2 k2, h3 XOR x86_128_k3 k3, h4 XOR x86_128_k4 k4))"
proof -
  have t: "tail_bytes data (int p + int (4 * t)) (min 4 (m - 4 * t)) = Some (part 4 t (take m (drop p data)) :: u32)" for t
  proof (cases "4 * t \<le> m")
    case True
    then have "p + 4 * t + min 4 (m - 4 * t) \<le> length data" using assms(1) by linarith
    from tail_bytes_le [OF this] show ?thesis by (simp add: part_at)
  next
    case False
    then show ?thesis by (simp add: part_def)
  qed
  have z: "part 4 t (take m (drop p data)) = (0 :: u32)" if "m \<le> 4 * t" for t using that by (simp add: part_def)
  have "min 4 (m - 12) = m - 12" using assms(2) by simp
  then show ?thesis using t [of 0] t [of 1] t [of 2] t [of 3] z [of 0] z [of 1] z [of 2] z [of 3]
    by (cases "m = 0") (auto simp: x86_128_tail_def quad_of_def)
qed

lemma x64_128_tail_at:
  assumes "p + m \<le> length data" "m < 16"
  shows "x64_128_tail data (int p) m (h1, h2) =
    Some (case pair_of (take m (drop p data)) of (k1, k2) \<Rightarrow> (h1 XOR x64_128_k1 k1, h2 XOR x64_128_k2 k2))"
proof -
  have t: "tail_bytes data (int p + int (8 * t)) (min 8 (m - 8 * t)) = Some (part 8 t (take m (drop p data)) :: u64)" for t
  proof (cases "8 * t \<le> m")
    case True
    then have "p + 8 * t + min 8 (m - 8 * t) \<le> length data" using assms(1) by linarith
    from tail_bytes_le [OF this] show ?thesis by (simp add: part_at)
  next
    case False
    then show ?thesis by (simp add: part_def)
  qed
  have z: "part 8 t (take m (drop p data)) = (0 :: u64)" if "m \<le> 8 * t" for t using that by (simp add: part_def)
  have "min 8 (m - 8) = m - 8" using assms(2) by simp
  then show ?thesis using t [of 0] t [of 1] z [of 0] z [of 1]
    by (cases "m = 0") (auto simp: x64_128_tail_def pair_of_def)
qed

section \<open>Properties\<close>

text \<open>
  C19: The three hash functions compute MurmurHash3: for every key and every length that does not
  exceed the key, they return, reading only the first \<open>len\<close> bytes, and the result is the reference
  hash of these bytes, which folds the rounds over the full blocks and mixes in the last, incomplete
  block padded with zeros. The loops that run from a negative index and the falling through of the
  cases for the tail are covered.
\<close>

theorem murmur_hash_reference:
  assumes "len \<le> length key"
  shows "murmur_hash_x86_32 key (int len) seed = Some (ref_x86_32 seed (take len key)) \<and>
    murmur_hash_x86_128 key (int len) seed = Some (ref_x86_128 seed (take len key)) \<and>
    murmur_hash_x64_128 key (int len) seed = Some (ref_x64_128 seed (take len key))"
proof (intro conjI)
  have b: "n * (len div n) + len mod n \<le> length key" for n using assms by simp
  have m: "nat (int len mod int n) = len mod n" for n by (metis nat_int zmod_int)
  have l: "min (length key) len = len" using assms by simp
  have "tail_bytes key (int (4 * (len div 4))) (len mod 4) = Some (le_word (take (len mod 4) (drop (4 * (len div 4)) key)) :: u32)"
    by (rule tail_bytes_le [OF b])
  moreover have "4 * (len div 4) \<le> length key" using b [of 4] by simp
  note x86_32_body_fold [OF order_refl this, of seed]
  moreover have "len mod 4 = 0 \<Longrightarrow> le_word (take (len mod 4) (drop (4 * (len div 4)) key)) = (0 :: u32)" by simp
  ultimately show "murmur_hash_x86_32 key (int len) seed = Some (ref_x86_32 seed (take len key))"
    using m [of 4] by (cases "len mod 4 = 0") (auto simp: Let_def murmur_hash_x86_32_def ref_x86_32_def full_blocks_take [OF assms] last_block_take [OF assms] l zdiv_int mult.commute)
  have "16 * (len div 16) \<le> length key" using b [of 16] by simp
  note body = x86_128_body_fold [OF order_refl this] x64_128_body_fold [OF order_refl this]
  obtain h1 h2 h3 h4 where h: "foldl (\<lambda>h b. x86_128_round h (quad_of b)) (seed, seed, seed, seed)
      (map (\<lambda>i. take 16 (drop (16 * i) key)) [0..<len div 16]) = (h1, h2, h3, h4)" by (metis surj_pair)
  show "murmur_hash_x86_128 key (int len) seed = Some (ref_x86_128 seed (take len key))"
    using body(1) [of "(seed, seed, seed, seed)"] m [of 16] h x86_128_tail_at [OF b [of 16], of h1 h2 h3 h4]
    by (simp add: murmur_hash_x86_128_def ref_x86_128_def full_blocks_take [OF assms] last_block_take [OF assms] l zdiv_int mult.commute split: prod.splits)
  obtain g1 g2 where g: "foldl (\<lambda>h b. x64_128_round h (pair_of b)) (ucast seed, ucast seed)
      (map (\<lambda>i. take 16 (drop (16 * i) key)) [0..<len div 16]) = (g1, g2)" by (metis surj_pair)
  show "murmur_hash_x64_128 key (int len) seed = Some (ref_x64_128 seed (take len key))"
    using body(2) [of "(ucast seed, ucast seed)"] m [of 16] g x64_128_tail_at [OF b [of 16], of g1 g2]
    by (simp add: murmur_hash_x64_128_def ref_x64_128_def full_blocks_take [OF assms] last_block_take [OF assms] l zdiv_int mult.commute split: prod.splits)
qed

theorem murmur_hash_reference_witness:
  "murmur_hash_x86_32 [97, 98, 99, 0, 0] 3 0 = Some 0xB3DD93FA"
proof -
  have "ref_x86_32 0 [97, 98, 99] = 0xB3DD93FA" by code_simp
  then show ?thesis using murmur_hash_reference [of 3 "[97, 98, 99, 0, 0]" 0] by simp
qed

end
