(* ===== verification/Frame_Alloc.thy ===== *)
theory Frame_Alloc
  imports Bitmap Heap_Alloc
begin

text \<open>
  Physical frames, the first half of \<^verbatim>\<open>kernel/mm/pmalloc.c\<close> with the early page allocator of
  \<^verbatim>\<open>kernel/mm/init.c\<close>: memory zones, each with a list of frame allocators over bitmaps. A frame
  allocator is known by its place in the list of all of them, in the order of their creation, and the
  list of a zone is the sequence of these numbers. \<open>bitmap_allocator\<close> is the only implementation of
  the interface, so its functions are called directly. Every operation takes the allocator's spin lock.
\<close>

section \<open>Early memory\<close>

record memory_map_entry =
  me_type :: u32
  me_base :: u64
  me_size :: u64

definition MEMORY_USABLE :: u32 where "MEMORY_USABLE = 2"
definition MEMORY_EFI_RUNTIME_DATA :: u32 where "MEMORY_EFI_RUNTIME_DATA = 8"
definition VM_WRITE :: u32 where "VM_WRITE = 0x2"
definition VM_NOCACHE :: u32 where "VM_NOCACHE = 0x80"
definition VM_HUGE_1GB :: u32 where "VM_HUGE_1GB = 0x400"
definition KERNEL_RESERVED_VA :: u64 where "KERNEL_RESERVED_VA = 0xFFFFFF8000C00000"

text \<open>The memory map, the index of the entry the reserved memory comes from, and the counters.\<close>

record early_mem =
  em_map :: "memory_map_entry list"
  em_reserved :: nat
  em_ptr :: u64
  em_end :: u64
  em_va_ptr :: u64
  em_reserved_pages :: u64

definition mm_early_reserve_pages :: "u64 \<Rightarrow> early_mem \<Rightarrow> early_mem option" where
  "mm_early_reserve_pages count e = do {
     entry \<leftarrow> load (em_map e) (int (em_reserved e));
     let entry' = entry\<lparr>me_base := me_base entry + PAGES_TO_SIZE count, me_size := me_size entry - PAGES_TO_SIZE count\<rparr>;
     kassert (\<not> me_base entry' > em_end e);
     Some (e\<lparr>em_map := (em_map e)[em_reserved e := entry']\<rparr>) }"

definition mm_early_alloc_pages :: "u64 \<Rightarrow> early_mem \<Rightarrow> (u64 \<times> early_mem) option" where
  "mm_early_alloc_pages count e = do {
     let addr = em_ptr e;
     let sz = count * PAGE_SIZE;
     let ptr = em_ptr e + sz;
     kassert (\<not> ptr > em_end e);
     entry \<leftarrow> load (em_map e) (int (em_reserved e));
     let entry' = entry\<lparr>me_base := ptr, me_size := me_size entry - sz\<rparr>;
     Some (addr, e\<lparr>em_ptr := ptr, em_map := (em_map e)[em_reserved e := entry']\<rparr>) }"

text \<open>The virtual address and the call of \<open>early_map_entries\<close>, which belongs to the page tables.\<close>

definition mm_early_map_pages_reserved :: "u64 \<Rightarrow> u64 \<Rightarrow> u32 \<Rightarrow> early_mem \<Rightarrow> (u64 \<times> u64 \<times> u64 \<times> u32) \<times> early_mem" where
  "mm_early_map_pages_reserved phys_addr count vm_flags e =
     (let va_ptr = em_va_ptr e;
          sz = (if vm_flags AND VM_HUGE_2MB \<noteq> 0 then BIGPAGE_SIZE
                else if vm_flags AND VM_HUGE_1GB \<noteq> 0 then HUGEPAGE_SIZE else PAGE_SIZE) in
      ((va_ptr, phys_addr, count, vm_flags), e\<lparr>em_va_ptr := em_va_ptr e + sz\<rparr>))"

section \<open>Early initialisation\<close>

record boot_info =
  bi_kernel_phys_addr :: u32
  bi_kernel_size :: u32
  bi_mem_map :: "memory_map_entry list"
  bi_initrd_addr :: u64
  bi_initrd_size :: u64

text \<open>
  The variables of the loop over the memory map: the entries found for the kernel image and for the
  reserved memory by their index, and the bounds of the reserved memory.
\<close>

record early_scan =
  es_kernel :: "nat option"
  es_reserved :: "nat option"
  es_start :: u64
  es_end :: u64
  es_ptr :: u64
  es_va_ptr :: u64
  es_initrd :: bool

text \<open>A usable entry that becomes the reserved memory, without an initrd at its start.\<close>

definition pick_reserved :: "u64 \<Rightarrow> u64 \<Rightarrow> nat \<Rightarrow> memory_map_entry \<Rightarrow> early_scan \<Rightarrow> early_scan" where
  "pick_reserved initrd_phys initrd_size i entry st =
     (if me_type entry = MEMORY_USABLE \<and> es_reserved st = None \<and> me_base entry \<ge> 0x1000000 \<and> me_size entry \<ge> 0x800000 then
        let at_start = (initrd_phys \<noteq> 0 \<and> me_base entry = initrd_phys) in
        st\<lparr>es_reserved := Some i,
           es_start := (if at_start then me_base entry + initrd_size else me_base entry),
           es_end := me_base entry + me_size entry,
           es_ptr := (if at_start then me_base entry + initrd_size else me_base entry),
           es_va_ptr := KERNEL_RESERVED_VA,
           es_initrd := es_initrd st \<or> at_start\<rparr>
      else st)"

definition pick_kernel :: "u64 \<Rightarrow> u64 \<Rightarrow> nat \<Rightarrow> memory_map_entry \<Rightarrow> early_scan \<Rightarrow> early_scan option" where
  "pick_kernel kernel_start kernel_end i entry st =
     (if kernel_start \<ge> me_base entry \<and> kernel_end \<le> me_base entry + me_size entry then do {
        kassert (es_kernel st = None);
        kassert (kernel_start = me_base entry);
        Some (st\<lparr>es_kernel := Some i\<rparr>) }
      else Some st)"

primrec early_scan_loop :: "boot_info \<Rightarrow> nat \<Rightarrow> memory_map_entry list \<Rightarrow> early_scan \<Rightarrow> early_scan option" where
  "early_scan_loop b i [] st = Some st"
| "early_scan_loop b i (entry # entries) st = do {
     kassert (me_type entry \<le> MEMORY_EFI_RUNTIME_DATA);
     st' \<leftarrow> pick_kernel (ucast (bi_kernel_phys_addr b)) (ucast (bi_kernel_phys_addr b) + ucast (bi_kernel_size b)) i entry
       (pick_reserved (bi_initrd_addr b) (bi_initrd_size b) i entry st);
     early_scan_loop b (Suc i) entries st' }"

text \<open>
  \<open>mm_early_init\<close> with the allocation that \<open>mm_init_kheap\<close> begins with; \<open>lock_addr\<close> and
  \<open>kheap_lock_addr\<close> are the addresses of the heap's locks.
\<close>

definition mm_early_init :: "u64 \<Rightarrow> u64 \<Rightarrow> boot_info \<Rightarrow> (early_mem \<times> (u64 \<times> u64 \<times> u64 \<times> u32) list \<times> mm_heap \<times> mtx) option" where
  "mm_early_init lock_addr kheap_lock_addr b = do {
     st \<leftarrow> early_scan_loop b 0 (bi_mem_map b)
       \<lparr>es_kernel = None, es_reserved = None, es_start = 0, es_end = 0, es_ptr = 0, es_va_ptr = 0, es_initrd = False\<rparr>;
     k \<leftarrow> es_kernel st;
     r \<leftarrow> es_reserved st;
     entry \<leftarrow> load (bi_mem_map b) (int k);
     let entry' = entry\<lparr>me_base := ucast (bi_kernel_phys_addr b) + ucast (bi_kernel_size b),
                        me_size := me_size entry - ucast (bi_kernel_size b)\<rparr>;
     kassert (es_initrd st);
     let initrd_end = bi_initrd_addr b + bi_initrd_size b;
     kassert (bi_initrd_addr b \<noteq> 0 \<longrightarrow>
       (bi_initrd_addr b < es_start st \<and> initrd_end \<le> es_start st) \<or> bi_initrd_addr b \<ge> es_end st);
     (phys_addr, e) \<leftarrow> mm_early_alloc_pages (SIZE_TO_PAGES KERNEL_HEAP_SIZE)
       \<lparr>em_map = (bi_mem_map b)[k := entry'], em_reserved = r, em_ptr = es_ptr st, em_end = es_end st,
        em_va_ptr = es_va_ptr st, em_reserved_pages = 128\<rparr>;
     Some (e, mm_init_kheap phys_addr lock_addr kheap_lock_addr) }"

section \<open>The bitmap frame allocator\<close>

record frame_allocator =
  fa_base :: u64
  fa_size :: u64
  fa_free :: u64
  fa_lock :: mtx
  fa_data :: bitmap

text \<open>
  A bitmap of two pages or more lies in reserved memory, of which the words that its size covers are
  kept.
\<close>

definition bitmap_fa_init :: "u64 \<Rightarrow> early_mem \<Rightarrow> (bitmap \<times> early_mem) option" where
  "bitmap_fa_init sz e = do {
     let num_frames = align_up sz PAGE_SIZE div PAGE_SIZE;
     let nbytes = align_up num_frames 8 div 8;
     if nbytes \<ge> PAGES_TO_SIZE 2 then do {
       let num_bmp_pages = SIZE_TO_PAGES nbytes;
       kassert (\<not> num_bmp_pages > em_reserved_pages e);
       (buffer_phys, e1) \<leftarrow> mm_early_alloc_pages num_bmp_pages e;
       let e2 = snd (mm_early_map_pages_reserved buffer_phys num_bmp_pages (VM_WRITE OR VM_NOCACHE) e1);
       Some (\<lparr>bm_map = replicate (unat nbytes div 8) 0, bm_size = nbytes, bm_free = num_frames, bm_used = 0\<rparr>,
             e2\<lparr>em_reserved_pages := em_reserved_pages e2 - num_bmp_pages\<rparr>) }
     else do { frames \<leftarrow> create_bitmap num_frames; Some (frames, e) } }"

text \<open>The part of an operation between locking and unlocking works on the bitmap and the free count.\<close>

definition fa_locked ::
  "(bitmap \<Rightarrow> u64 \<Rightarrow> ('r \<times> bitmap \<times> u64) option) \<Rightarrow> frame_allocator \<Rightarrow> cpu_ctx \<Rightarrow> ('r \<times> frame_allocator \<times> cpu_ctx) option" where
  "fa_locked body fa c = do {
     (ok, m, c1) \<leftarrow> mtx_spin_lock (fa_lock fa) c;
     kassert ok;
     (r, frames, free) \<leftarrow> body (fa_data fa) (fa_free fa);
     (m', c2) \<leftarrow> mtx_spin_unlock m c1;
     Some (r, fa\<lparr>fa_data := frames, fa_free := free, fa_lock := m'\<rparr>, c2) }"

text \<open>The result is the frame's address, all ones for the -1 of a failure.\<close>

definition bitmap_fa_alloc :: "frame_allocator \<Rightarrow> cpu_ctx \<Rightarrow> u64 \<Rightarrow> u64 \<Rightarrow> (u64 \<times> frame_allocator \<times> cpu_ctx) option" where
  "bitmap_fa_alloc fa c count pagesize = (if bm_free (fa_data fa) = 0 then Some (- 1, fa, c)
     else do {
       let num_4k_pages = count * pagesize div PAGE_SIZE;
       (frame_index, fa', c') \<leftarrow> fa_locked (\<lambda>frames free. do {
         (i, frames') \<leftarrow> (if num_4k_pages = 1 then bitmap_get_set_free frames
           else bitmap_get_set_nfree frames (unat num_4k_pages) (if pagesize = PAGE_SIZE then 0 else SIZE_TO_PAGES pagesize));
         Some (i, frames', if i \<ge> 0 then free - count * pagesize else free) }) fa c;
       Some (if frame_index < 0 then - 1 else fa_base fa + PAGES_TO_SIZE (word_of_int frame_index), fa', c') })"

definition bitmap_fa_reserve :: "frame_allocator \<Rightarrow> cpu_ctx \<Rightarrow> u64 \<Rightarrow> u64 \<Rightarrow> u64 \<Rightarrow> (int \<times> frame_allocator \<times> cpu_ctx) option" where
  "bitmap_fa_reserve fa c frame count pagesize = (if bm_free (fa_data fa) = 0 then Some (- 1, fa, c)
     else do {
       let num_4k_pages = count * pagesize div PAGE_SIZE;
       let frame_index = sint (SIZE_TO_PAGES (frame - fa_base fa));
       (before_count, fa', c') \<leftarrow> fa_locked (\<lambda>frames free. do {
         (before, frames') \<leftarrow> (if num_4k_pages = 1
           then do { (was, b) \<leftarrow> bitmap_set frames frame_index; Some (if was then 1 else 0, b) }
           else do {
             n \<leftarrow> bitmap_get_n frames frame_index (unat num_4k_pages);
             if n = 0 then do { (m, b) \<leftarrow> bitmap_set_n frames frame_index (unat num_4k_pages); Some (n, b) }
             else Some (n, frames) });
         Some (before, frames', if before = 0 then free - count * pagesize else free) }) fa c;
       Some (if before_count \<noteq> 0 then - 1 else 0, fa', c') })"

definition bitmap_fa_free :: "frame_allocator \<Rightarrow> cpu_ctx \<Rightarrow> u64 \<Rightarrow> u64 \<Rightarrow> u64 \<Rightarrow> (frame_allocator \<times> cpu_ctx) option" where
  "bitmap_fa_free fa c frame count pagesize = do {
     let num_4k_pages = count * pagesize div PAGE_SIZE;
     let frame_index = sint (SIZE_TO_PAGES (frame - fa_base fa));
     (u, fa', c') \<leftarrow> fa_locked (\<lambda>frames free. do {
       frames' \<leftarrow> (if num_4k_pages = 1 then map_option snd (bitmap_clear frames frame_index)
         else map_option snd (bitmap_clear_n frames frame_index (unat num_4k_pages)));
       Some ((), frames', free + count * pagesize) }) fa c;
     Some (fa', c') }"

text \<open>The address of the lock stands for the memory the allocator got for itself.\<close>

definition new_frame_allocator :: "u64 \<Rightarrow> u64 \<Rightarrow> u64 \<Rightarrow> early_mem \<Rightarrow> (frame_allocator \<times> early_mem) option" where
  "new_frame_allocator lock_addr base sz e = do {
     (frames, e') \<leftarrow> bitmap_fa_init sz e;
     Some (\<lparr>fa_base = base, fa_size = sz, fa_free = sz, fa_lock = mtx_init lock_addr MTX_SPIN, fa_data = frames\<rparr>, e') }"

definition valid_pg_size :: "u64 \<Rightarrow> bool" where
  "valid_pg_size pg_size \<longleftrightarrow> pg_size = PAGE_SIZE \<or> pg_size = PAGE_SIZE_2MB \<or> pg_size = PAGE_SIZE_1GB"

definition fa_reserve_pages :: "frame_allocator \<Rightarrow> cpu_ctx \<Rightarrow> u64 \<Rightarrow> u64 \<Rightarrow> u64 \<Rightarrow> (int \<times> frame_allocator \<times> cpu_ctx) option" where
  "fa_reserve_pages fa c frame count pg_size = do {
     kassert (valid_pg_size pg_size);
     kassert (is_aligned frame pg_size);
     kassert (frame \<ge> fa_base fa \<and> frame < fa_base fa + fa_size fa);
     if fa_free fa = 0 \<or> count = 0 then Some (- 1, fa, c)
     else bitmap_fa_reserve fa c frame count pg_size }"

section \<open>Memory zones\<close>

datatype zone_type = ZONE_TYPE_LOW | ZONE_TYPE_DMA | ZONE_TYPE_NORMAL | ZONE_TYPE_HIGH | MAX_ZONE_TYPE

fun zone_index :: "zone_type \<Rightarrow> nat" where
  "zone_index ZONE_TYPE_LOW = 0" | "zone_index ZONE_TYPE_DMA = 1" | "zone_index ZONE_TYPE_NORMAL = 2"
| "zone_index ZONE_TYPE_HIGH = 3" | "zone_index MAX_ZONE_TYPE = 4"

definition ZONE_LOW_MAX :: u64 where "ZONE_LOW_MAX = 0x100000"
definition ZONE_DMA_MAX :: u64 where "ZONE_DMA_MAX = 0x1000000"
definition ZONE_NORMAL_MAX :: u64 where "ZONE_NORMAL_MAX = 0x100000000"
definition ZONE_HIGH_MAX :: u64 where "ZONE_HIGH_MAX = 0xFFFFFFFFFFFFFFFF"

text \<open>The arrays over the four zones; the bound itself is no index.\<close>

fun zone_limits :: "zone_type \<Rightarrow> u64 option" where
  "zone_limits ZONE_TYPE_LOW = Some ZONE_LOW_MAX" | "zone_limits ZONE_TYPE_DMA = Some ZONE_DMA_MAX"
| "zone_limits ZONE_TYPE_NORMAL = Some ZONE_NORMAL_MAX" | "zone_limits ZONE_TYPE_HIGH = Some ZONE_HIGH_MAX"
| "zone_limits MAX_ZONE_TYPE = None"

fun zone_alloc_order :: "zone_type \<Rightarrow> zone_type" where
  "zone_alloc_order ZONE_TYPE_LOW = MAX_ZONE_TYPE" | "zone_alloc_order ZONE_TYPE_DMA = ZONE_TYPE_LOW"
| "zone_alloc_order ZONE_TYPE_NORMAL = ZONE_TYPE_DMA" | "zone_alloc_order ZONE_TYPE_HIGH = ZONE_TYPE_NORMAL"
| "zone_alloc_order MAX_ZONE_TYPE = MAX_ZONE_TYPE"

definition get_mem_zone_type :: "u64 \<Rightarrow> zone_type" where
  "get_mem_zone_type addr =
     (if addr < ZONE_LOW_MAX then ZONE_TYPE_LOW
      else if addr < ZONE_DMA_MAX then ZONE_TYPE_DMA
      else if addr < ZONE_NORMAL_MAX then ZONE_TYPE_NORMAL
      else ZONE_TYPE_HIGH)"

text \<open>All frame allocators, the lists of the zones and their page counts.\<close>

record mem_zones =
  mz_fas :: "frame_allocator list"
  mz_zones :: "zone_type \<Rightarrow> nat list"
  mz_page_count :: "zone_type \<Rightarrow> u64"

definition no_zones :: mem_zones where
  "no_zones = \<lparr>mz_fas = [], mz_zones = (\<lambda>_. []), mz_page_count = (\<lambda>_. 0)\<rparr>"

definition fa_owns :: "mem_zones \<Rightarrow> u64 \<Rightarrow> nat \<Rightarrow> bool" where
  "fa_owns z addr i \<longleftrightarrow> (let fa = mz_fas z ! i in addr \<ge> fa_base fa \<and> addr < fa_base fa + fa_size fa)"

definition locate_owning_allocator :: "mem_zones \<Rightarrow> u64 \<Rightarrow> nat option" where
  "locate_owning_allocator z addr = find (fa_owns z addr) (mz_zones z (get_mem_zone_type addr))"

datatype pg_rsrv_kind = PG_RSRV_ANY | PG_RSRV_MANAGED | PG_RSRV_PHYS

definition reserve_pages :: "pg_rsrv_kind \<Rightarrow> u64 \<Rightarrow> u64 \<Rightarrow> u64 \<Rightarrow> mem_zones \<times> cpu_ctx \<Rightarrow> (int \<times> mem_zones \<times> cpu_ctx) option" where
  "reserve_pages kind address count pagesize = (\<lambda>(z, c). do {
     kassert (valid_pg_size pagesize);
     kassert (is_aligned address pagesize);
     if count = 0 then Some (- 1, z, c)
     else do {
       let total_size = count * pagesize;
       kassert (get_mem_zone_type address = get_mem_zone_type (address + total_size - 1));
       let fa = locate_owning_allocator z address;
       let fa_end = locate_owning_allocator z (address + total_size - 1);
       kassert (fa = fa_end);
       case fa of
         None \<Rightarrow> Some (if kind \<noteq> PG_RSRV_MANAGED then 0 else - 1, z, c)
       | Some i \<Rightarrow> if kind = PG_RSRV_PHYS then Some (- 1, z, c)
           else do {
             (r, fa', c') \<leftarrow> fa_reserve_pages (mz_fas z ! i) c address count pagesize;
             Some (r, z\<lparr>mz_fas := (mz_fas z)[i := fa']\<rparr>, c') } } })"

section \<open>Initialisation of the zones\<close>

definition zone_add :: "zone_type \<Rightarrow> frame_allocator \<Rightarrow> mem_zones \<Rightarrow> mem_zones" where
  "zone_add t fa z = z\<lparr>mz_fas := mz_fas z @ [fa], mz_zones := (mz_zones z)(t := mz_zones z t @ [length (mz_fas z)])\<rparr>"

definition zone_count :: "zone_type \<Rightarrow> u64 \<Rightarrow> mem_zones \<Rightarrow> mem_zones" where
  "zone_count t n z = z\<lparr>mz_page_count := (mz_page_count z)(t := mz_page_count z t + n)\<rparr>"

text \<open>One entry of the memory map; \<open>addrs\<close> are the addresses of the allocators' structures.\<close>

definition init_zone_entry :: "(nat \<Rightarrow> u64) \<Rightarrow> memory_map_entry \<Rightarrow> mem_zones \<times> early_mem \<Rightarrow> (mem_zones \<times> early_mem) option" where
  "init_zone_entry addrs entry = (\<lambda>(z, e). if me_type entry \<noteq> MEMORY_USABLE then Some (z, e)
     else do {
       let base = me_base entry;
       let t = get_mem_zone_type base;
       let end_type = get_mem_zone_type (base + me_size entry - 1);
       (sz, z1, e1) \<leftarrow> (if t \<noteq> end_type then do {
           kassert (int (zone_index end_type) - int (zone_index t) = 1);
           end_base \<leftarrow> zone_limits t;
           let end_size = base + me_size entry - end_base;
           (fa, e') \<leftarrow> new_frame_allocator (addrs (length (mz_fas z))) end_base end_size e;
           Some (fa_base fa - base, zone_count end_type (SIZE_TO_PAGES end_size) (zone_add end_type fa z), e') }
         else Some (me_size entry, z, e));
       (fa, e2) \<leftarrow> new_frame_allocator (addrs (length (mz_fas z1))) base sz e1;
       Some (zone_count end_type (SIZE_TO_PAGES sz) (zone_add t fa z1), e2) })"

text \<open>The loop reads each entry when it comes to it, since allocations change the reserved one.\<close>

primrec init_zone_loop :: "(nat \<Rightarrow> u64) \<Rightarrow> nat \<Rightarrow> mem_zones \<times> early_mem \<Rightarrow> (mem_zones \<times> early_mem) option" where
  "init_zone_loop addrs 0 s = Some s"
| "init_zone_loop addrs (Suc n) s = do {
     (z, e) \<leftarrow> init_zone_loop addrs n s;
     entry \<leftarrow> load (em_map e) (int n);
     init_zone_entry addrs entry (z, e) }"

definition init_mem_zones :: "(nat \<Rightarrow> u64) \<Rightarrow> u64 \<Rightarrow> u64 \<Rightarrow> early_mem \<Rightarrow> cpu_ctx \<Rightarrow> (mem_zones \<times> early_mem \<times> cpu_ctx) option" where
  "init_mem_zones addrs initrd_addr initrd_size e c = do {
     e1 \<leftarrow> mm_early_reserve_pages (em_reserved_pages e) e;
     (z, e2) \<leftarrow> init_zone_loop addrs (length (em_map e1)) (no_zones, e1);
     if initrd_addr \<noteq> 0 then do {
       (r, z', c') \<leftarrow> reserve_pages PG_RSRV_PHYS initrd_addr (SIZE_TO_PAGES initrd_size) PAGE_SIZE (z, c);
       kassert (\<not> r < 0);
       Some (z', e2, c') }
     else Some (z, e2, c) }"

section \<open>Well-formed frame allocators\<close>

text \<open>
  One bit for each frame, none set beyond them, and a free count that agrees with the bits. The
  memory is aligned, does not begin at 0 and does not reach the end of the address space.
\<close>

definition fa_frames :: "frame_allocator \<Rightarrow> nat" where
  "fa_frames fa = unat (fa_size fa) div 4096"

definition fa_used :: "frame_allocator \<Rightarrow> nat set" where
  "fa_used fa = bits_of (fa_data fa)"

definition fa_wf :: "frame_allocator \<Rightarrow> bool" where
  "fa_wf fa \<longleftrightarrow> spin_idle (fa_lock fa) \<and> bitmap_ok (fa_data fa) \<and> bm_cap (fa_data fa) = fa_frames fa \<and>
     fa_used fa \<subseteq> {..<fa_frames fa} \<and> unat (fa_free fa) = 4096 * (fa_frames fa - card (fa_used fa)) \<and>
     4096 dvd unat (fa_base fa) \<and> 0 < unat (fa_base fa) \<and> unat (fa_base fa) + 4096 * fa_frames fa < 2 ^ 64"

definition frame_addr :: "frame_allocator \<Rightarrow> nat \<Rightarrow> u64" where
  "frame_addr fa f = fa_base fa + of_nat (4096 * f)"

lemma fa_locked_idle:
  assumes "spin_idle (fa_lock fa)" "spin_ctx c"
  shows "\<exists>c'. spin_ctx c' \<and> (\<forall>body. fa_locked body fa c = map_option
     (\<lambda>(r, frames, free). (r, fa\<lparr>fa_data := frames, fa_free := free\<rparr>, c')) (body (fa_data fa) (fa_free fa)))"
proof -
  obtain m1 c1 c2 where "mtx_spin_lock (fa_lock fa) c = Some (True, m1, c1)"
    "mtx_spin_unlock m1 c1 = Some (fa_lock fa, c2)" "spin_ctx c2"
    using spin_pair [OF assms] by blast
  then show ?thesis
    by (intro exI [of _ c2]) (auto simp: fa_locked_def split: option.splits bind_split)
qed

lemma SIZE_TO_PAGES_mult: "k < 2 ^ 52 \<Longrightarrow> SIZE_TO_PAGES (of_nat (4096 * k)) = of_nat k"
proof -
  assume k: "k < 2 ^ 52"
  have u: "unat (of_nat (4096 * k) :: u64) = 4096 * k" using k by (subst unat_of_nat) simp
  have "unat ((of_nat (4096 * k) :: u64) AND mask 12) = 0" by (simp only: unat_and_mask u) simp
  then have "(of_nat (4096 * k) :: u64) AND 0xFFF = 0" by (simp add: mask_eq_decr_exp unat_eq_zero)
  moreover have "drop_bit 12 (of_nat (4096 * k) :: u64) = of_nat k"
  proof (rule unat_inject [THEN iffD1])
    show "unat (drop_bit 12 (of_nat (4096 * k) :: u64)) = unat (of_nat k :: u64)"
      using k by (simp only: unat_drop_bit_eq u) (simp add: drop_bit_eq_div unat_of_nat)
  qed
  ultimately show ?thesis by (simp only: SIZE_TO_PAGES_def) simp
qed

lemma PAGES_TO_SIZE_of_nat: "PAGES_TO_SIZE (of_nat k) = of_nat (4096 * k)"
  by (simp add: PAGES_TO_SIZE_def push_bit_eq_mult mult.commute)

lemma fa_frames_less: "fa_frames fa < 2 ^ 52"
proof -
  have "unat (fa_size fa) < 2 ^ 64" using unsigned_less [of "fa_size fa"] by simp
  then show ?thesis by (simp add: fa_frames_def)
qed

lemma wf_frame_fits: "fa_wf fa \<Longrightarrow> f < fa_frames fa \<Longrightarrow> unat (fa_base fa) + 4096 * f < 2 ^ 64"
  by (simp add: fa_wf_def)

lemma frame_addr_aligned:
  assumes "fa_wf fa" "unat (fa_base fa) + 4096 * f < 2 ^ 64"
  shows "frame_addr fa f \<noteq> 0 \<and> is_aligned (frame_addr fa f) PAGE_SIZE"
proof -
  have "unat (of_nat (4096 * f) :: u64) = 4096 * f" using assms(2) by (subst unat_of_nat) simp
  then have u: "unat (frame_addr fa f) = unat (fa_base fa) + 4096 * f"
    using assms(2) by (simp only: frame_addr_def unat_word_ariths) simp
  have "(unat (fa_base fa) + 4096 * f) mod 2 ^ 12 = 0" using assms(1) by (auto simp: fa_wf_def mod_eq_0_iff_dvd)
  then have "is_aligned (frame_addr fa f) (2 ^ 12)" by (simp only: is_aligned_pow2 u)
  then have "is_aligned (frame_addr fa f) PAGE_SIZE" by (simp add: PAGE_SIZE_def)
  moreover have "unat (frame_addr fa f) \<noteq> 0" using assms(1) by (simp only: u) (simp add: fa_wf_def)
  ultimately show ?thesis by auto
qed

lemma bitmap_fa_alloc_one:
  assumes "fa_wf fa" "bm_free (fa_data fa) \<noteq> 0" "fa_free fa \<noteq> 0" "spin_ctx c"
  shows "\<exists>f fa' c'. bitmap_fa_alloc fa c 1 PAGE_SIZE = Some (frame_addr fa f, fa', c') \<and> f < fa_frames fa \<and>
    f \<notin> fa_used fa \<and> (\<forall>j<f. j \<in> fa_used fa) \<and> fa_used fa' = insert f (fa_used fa) \<and> fa_wf fa' \<and>
    fa_base fa' = fa_base fa \<and> fa_size fa' = fa_size fa \<and> bm_free (fa_data fa') = bm_free (fa_data fa) \<and> spin_ctx c'"
proof -
  have wf: "spin_idle (fa_lock fa)" "bitmap_ok (fa_data fa)" "bm_cap (fa_data fa) = fa_frames fa"
    "fa_used fa \<subseteq> {..<fa_frames fa}" "unat (fa_free fa) = 4096 * (fa_frames fa - card (fa_used fa))"
    using assms(1) by (simp_all add: fa_wf_def)
  have room: "card (fa_used fa) < fa_frames fa" using assms(3) wf(5) unat_eq_zero [of "fa_free fa"] by auto
  have fin: "finite (fa_used fa)" using wf(4) finite_subset by blast
  have "\<not> {..<fa_frames fa} \<subseteq> fa_used fa" using room card_mono [OF fin, of "{..<fa_frames fa}"] by auto
  then obtain g where g: "g < fa_frames fa" "g \<notin> fa_used fa" by blast
  have "g < 64 * length (bm_map (fa_data fa))" using g(1) wf(2,3) by (simp add: bitmap_ok_def)
  then obtain f where f: "first_free (fa_data fa) = Some f"
    using first_free_None [of "fa_data fa"] assms(2) g(2) by (cases "first_free (fa_data fa)") (auto simp: fa_used_def)
  obtain b where b: "bitmap_get_set_free (fa_data fa) = Some (int f, b)"
    using bitmap_get_set_free_first [OF wf(2)] f by simp
  then have "bm_alloc (fa_data fa) = Some (f, b)" by (simp add: bm_alloc_def)
  note b_spec = bm_alloc_Some [OF wf(2) this] and f_spec = first_free_Some [OF f]
  have "\<not> g < f" using f_spec g(2) by (auto simp: fa_used_def)
  then have f_less: "f < fa_frames fa" using g(1) by simp
  obtain c' where c': "spin_ctx c'" "\<And>body :: bitmap \<Rightarrow> u64 \<Rightarrow> (int \<times> bitmap \<times> u64) option. fa_locked body fa c = map_option
     (\<lambda>(r, frames, free). (r, fa\<lparr>fa_data := frames, fa_free := free\<rparr>, c')) (body (fa_data fa) (fa_free fa))"
    using fa_locked_idle [OF wf(1) assms(4)] by blast
  let ?fa = "fa\<lparr>fa_data := b, fa_free := fa_free fa - PAGE_SIZE\<rparr>"
  have call: "bitmap_fa_alloc fa c 1 PAGE_SIZE = Some (frame_addr fa f, ?fa, c')"
    using assms(2) b by (simp add: bitmap_fa_alloc_def c'(2) PAGE_SIZE_def frame_addr_def PAGES_TO_SIZE_of_nat)
  have used: "fa_used ?fa = insert f (fa_used fa)" using b_spec by (simp add: fa_used_def)
  have ge: "PAGE_SIZE \<le> fa_free fa" using room wf(5) by (simp add: PAGE_SIZE_def word_le_nat_alt)
  have new: "f \<notin> fa_used fa" using f_spec by (simp add: fa_used_def)
  have "unat (fa_free fa - PAGE_SIZE) = unat (fa_free fa) - 4096"
    using unat_sub [OF ge] by (simp add: PAGE_SIZE_def)
  then have "unat (fa_free ?fa) = 4096 * (fa_frames ?fa - card (fa_used ?fa))"
    using wf(5) room new fin by (simp add: used fa_frames_def diff_mult_distrib2)
  then have "fa_wf ?fa" using assms(1) b_spec used f_less by (auto simp: fa_wf_def fa_frames_def)
  then show ?thesis using call used f_less f_spec b_spec c'(1)
    by (intro exI [of _ f] exI [of _ ?fa] exI [of _ c']) (auto simp: fa_used_def)
qed

lemma bitmap_fa_free_one:
  assumes "fa_wf fa" "f \<in> fa_used fa" "spin_ctx c"
  shows "\<exists>fa' c'. bitmap_fa_free fa c (frame_addr fa f) 1 PAGE_SIZE = Some (fa', c') \<and>
    fa_used fa' = fa_used fa - {f} \<and> fa_wf fa' \<and> fa_base fa' = fa_base fa \<and> fa_size fa' = fa_size fa \<and> spin_ctx c'"
proof -
  have wf: "spin_idle (fa_lock fa)" "bitmap_ok (fa_data fa)" "bm_cap (fa_data fa) = fa_frames fa"
    "fa_used fa \<subseteq> {..<fa_frames fa}" "unat (fa_free fa) = 4096 * (fa_frames fa - card (fa_used fa))"
    using assms(1) by (simp_all add: fa_wf_def)
  have fin: "finite (fa_used fa)" using wf(4) finite_subset by blast
  have f: "f < bm_cap (fa_data fa)" "f < 2 ^ 52" using assms(2) wf(3,4) fa_frames_less [of fa] by auto
  obtain b where b: "bitmap_clear (fa_data fa) (int f) = Some (f \<in> bits_of (fa_data fa), b)"
    "bits_of b = bits_of (fa_data fa) - {f}" "bitmap_ok b" "bm_cap b = bm_cap (fa_data fa)"
    using bitmap_clear_bits [OF wf(2) f(1)] by blast
  obtain c' where c': "spin_ctx c'" "\<And>body :: bitmap \<Rightarrow> u64 \<Rightarrow> (unit \<times> bitmap \<times> u64) option. fa_locked body fa c = map_option
     (\<lambda>(r, frames, free). (r, fa\<lparr>fa_data := frames, fa_free := free\<rparr>, c')) (body (fa_data fa) (fa_free fa))"
    using fa_locked_idle [OF wf(1) assms(3)] by blast
  let ?fa = "fa\<lparr>fa_data := b, fa_free := fa_free fa + PAGE_SIZE\<rparr>"
  have idx: "sint (SIZE_TO_PAGES (frame_addr fa f - fa_base fa)) = int f"
  proof -
    have "frame_addr fa f - fa_base fa = of_nat (4096 * f)" by (simp add: frame_addr_def)
    then show ?thesis using SIZE_TO_PAGES_mult [OF f(2)] f(2)
      by (simp only:) (simp add: signed_of_nat signed_take_bit_int_eq_self)
  qed
  have call: "bitmap_fa_free fa c (frame_addr fa f) 1 PAGE_SIZE = Some (?fa, c')"
    by (simp add: bitmap_fa_free_def idx) (simp add: c'(2) b(1) PAGE_SIZE_def)
  have used: "fa_used ?fa = fa_used fa - {f}" using b(2) by (simp add: fa_used_def)
  have card: "0 < card (fa_used fa)" "card (fa_used fa) \<le> fa_frames fa"
    using assms(2) fin wf(4) card_gt_0_iff card_mono [of "{..<fa_frames fa}" "fa_used fa"] by auto
  have "unat (fa_free fa) + 4096 < 2 ^ 64" using wf(5) card assms(1) by (auto simp: fa_wf_def)
  then have "unat (fa_free fa + PAGE_SIZE) = unat (fa_free fa) + 4096"
    by (simp add: PAGE_SIZE_def unat_word_ariths)
  then have "unat (fa_free ?fa) = 4096 * (fa_frames ?fa - card (fa_used ?fa))"
    using wf(5) card assms(2) fin by (simp add: used fa_frames_def)
  then have "fa_wf ?fa" using assms(1) b used by (auto simp: fa_wf_def fa_frames_def)
  then show ?thesis using call used c'(1) by (intro exI [of _ ?fa] exI [of _ c']) auto
qed

section \<open>Zones of the initialised memory\<close>

text \<open>An allocator that begins and ends in a zone, and memory in which all allocators do.\<close>

definition fa_in_zone :: "zone_type \<Rightarrow> frame_allocator \<Rightarrow> bool" where
  "fa_in_zone t fa \<longleftrightarrow> get_mem_zone_type (fa_base fa) = t \<and> get_mem_zone_type (fa_base fa + fa_size fa - 1) = t"

definition zones_typed :: "mem_zones \<Rightarrow> bool" where
  "zones_typed z \<longleftrightarrow> (\<forall>t. \<forall>i\<in>set (mz_zones z t). i < length (mz_fas z) \<and> fa_in_zone t (mz_fas z ! i)) \<and>
     (\<forall>i<length (mz_fas z). \<exists>t. i \<in> set (mz_zones z t))"

lemma zones_typed_add:
  assumes "zones_typed z" "fa_in_zone t fa"
  shows "zones_typed (zone_count t' n (zone_add t fa z))"
proof -
  have "i < length (mz_fas z @ [fa]) \<and> fa_in_zone u ((mz_fas z @ [fa]) ! i)"
    if "i \<in> set (mz_zones (zone_add t fa z) u)" for i u
    using that assms by (auto simp: zones_typed_def zone_add_def nth_append split: if_splits)
  moreover have "\<exists>u. i \<in> set (mz_zones (zone_add t fa z) u)" if i: "i < length (mz_fas z @ [fa])" for i
  proof (cases "i < length (mz_fas z)")
    case True
    then obtain u where "i \<in> set (mz_zones z u)" using assms(1) by (auto simp: zones_typed_def)
    then show ?thesis by (intro exI [of _ u]) (auto simp: zone_add_def)
  next
    case False
    then show ?thesis using i by (intro exI [of _ t]) (simp add: zone_add_def)
  qed
  ultimately show ?thesis by (simp add: zones_typed_def zone_count_def) (simp add: zone_add_def)
qed

lemmas ZONE_MAX_defs = ZONE_LOW_MAX_def ZONE_DMA_MAX_def ZONE_NORMAL_MAX_def ZONE_HIGH_MAX_def

lemma zone_limit_types:
  assumes "zone_limits (get_mem_zone_type a) = Some l" "zone_index (get_mem_zone_type b) = Suc (zone_index (get_mem_zone_type a))"
  shows "get_mem_zone_type l = get_mem_zone_type b" "get_mem_zone_type (l - 1) = get_mem_zone_type a"
  using assms by (auto simp: get_mem_zone_type_def ZONE_MAX_defs split: if_splits)

lemma new_frame_allocator_fields:
  "new_frame_allocator a base sz e = Some (fa, e') \<Longrightarrow> fa_base fa = base \<and> fa_size fa = sz"
  by (auto simp: new_frame_allocator_def bind_eq_Some_conv split: prod.splits)

lemma init_zone_entry_typed:
  assumes "init_zone_entry addrs entry (z, e) = Some (z', e')" "zones_typed z"
  shows "zones_typed z'"
proof (cases "me_type entry = MEMORY_USABLE")
  case False
  then show ?thesis using assms by (simp add: init_zone_entry_def)
next
  case True
  let ?b = "me_base entry" and ?s = "me_size entry"
  let ?t = "get_mem_zone_type ?b" and ?u = "get_mem_zone_type (?b + ?s - 1)"
  show ?thesis
  proof (cases "?t = ?u")
    case same: True
    then obtain fa n where "z' = zone_count ?u n (zone_add ?t fa z)" "fa_base fa = ?b" "fa_size fa = ?s"
      using assms(1) True by (auto simp: init_zone_entry_def bind_eq_Some_conv Let_def dest!: new_frame_allocator_fields split: prod.splits)
    moreover from this have "fa_in_zone ?t fa" using same by (simp add: fa_in_zone_def)
    ultimately show ?thesis using assms(2) by (simp only:) (intro zones_typed_add)
  next
    case False
    then obtain l fa fa' n n' where l: "zone_limits ?t = Some l" "int (zone_index ?u) - int (zone_index ?t) = 1"
      and z': "z' = zone_count ?u n (zone_add ?t fa (zone_count ?u n' (zone_add ?u fa' z)))"
      and fa: "fa_base fa' = l" "fa_size fa' = ?b + ?s - l" "fa_base fa = ?b" "fa_size fa = l - ?b"
      using assms(1) True by (auto simp: init_zone_entry_def bind_eq_Some_conv Let_def dest!: new_frame_allocator_fields split: prod.splits if_splits)
    have "zone_index ?u = Suc (zone_index ?t)" using l(2) by linarith
    note types = zone_limit_types [OF l(1) this]
    have "fa_in_zone ?u fa'" "fa_in_zone ?t fa" using types fa by (simp_all add: fa_in_zone_def)
    then show ?thesis unfolding z' using assms(2) by (intro zones_typed_add)
  qed
qed

lemma init_zone_loop_typed:
  "init_zone_loop addrs n s = Some (z, e) \<Longrightarrow> zones_typed (fst s) \<Longrightarrow> zones_typed z"
proof (induction n arbitrary: z e)
  case (Suc n)
  then obtain z1 e1 entry where "init_zone_loop addrs n s = Some (z1, e1)" "init_zone_entry addrs entry (z1, e1) = Some (z, e)"
    by (auto simp: bind_eq_Some_conv)
  then show ?case using Suc.IH Suc.prems(2) init_zone_entry_typed by blast
qed auto

lemma reserve_phys_same: "reserve_pages PG_RSRV_PHYS a n sz (z, c) = Some (r, z', c') \<Longrightarrow> z' = z"
  by (auto simp: reserve_pages_def bind_eq_Some_conv Let_def split: option.splits if_splits)

lemma find_SomeD: "find P xs = Some x \<Longrightarrow> x \<in> set xs \<and> P x"
  by (induction xs) (auto split: if_splits)

lemma word_less_le_minus_1: "a < b \<Longrightarrow> a \<le> b - (1 :: u64)"
  using unat_minus_one [of b] by (cases "b = 0") (simp_all add: word_le_nat_alt word_less_nat_alt)

lemma zone_type_between:
  "a \<le> x \<Longrightarrow> x \<le> b \<Longrightarrow> get_mem_zone_type a = t \<Longrightarrow> get_mem_zone_type b = t \<Longrightarrow> get_mem_zone_type x = t"
  unfolding get_mem_zone_type_def by (auto split: if_splits)

text \<open>
  C25: In initialised memory every frame allocator is in exactly the lists of the zone it lies in:
  an entry of the memory map that crosses a zone boundary has been divided there. Looking up the
  owner of an address, which searches one zone only, therefore finds an allocator that contains the
  address whenever there is one.
\<close>

theorem init_mem_zones_typed:
  assumes "init_mem_zones addrs initrd_addr initrd_size e c = Some (z, e', c')"
  shows "zones_typed z \<and> ((\<exists>i<length (mz_fas z). fa_owns z a i) \<longleftrightarrow> (\<exists>j. locate_owning_allocator z a = Some j \<and> fa_owns z a j))"
proof -
  obtain e1 z1 e2 where "init_zone_loop addrs (length (em_map e1)) (no_zones, e1) = Some (z1, e2)" "z = z1"
    using assms by (auto simp: init_mem_zones_def bind_eq_Some_conv dest!: reserve_phys_same split: if_splits)
  then have typed: "zones_typed z" using init_zone_loop_typed by (force simp: zones_typed_def no_zones_def)
  have "\<exists>j. locate_owning_allocator z a = Some j" if i: "i < length (mz_fas z)" "fa_owns z a i" for i
  proof -
    obtain t where t: "i \<in> set (mz_zones z t)" "fa_in_zone t (mz_fas z ! i)" using typed i(1) by (auto simp: zones_typed_def)
    have "fa_base (mz_fas z ! i) \<le> a" "a \<le> fa_base (mz_fas z ! i) + fa_size (mz_fas z ! i) - 1"
      using i(2) by (simp_all add: fa_owns_def Let_def word_less_le_minus_1)
    then have "get_mem_zone_type a = t" using t(2) zone_type_between unfolding fa_in_zone_def by blast
    then have "find (fa_owns z a) (mz_zones z (get_mem_zone_type a)) \<noteq> None" using t(1) i(2) by (auto simp: find_None_iff)
    then show ?thesis by (simp add: locate_owning_allocator_def)
  qed
  moreover have "fa_owns z a j \<and> j < length (mz_fas z)" if "locate_owning_allocator z a = Some j" for j
    using that typed by (auto simp: locate_owning_allocator_def zones_typed_def dest!: find_SomeD)
  ultimately show ?thesis using typed by blast
qed

theorem init_mem_zones_typed_witness:
  "\<exists>z e c. init_mem_zones (\<lambda>i. of_nat i) 0 0 \<lparr>em_map = [\<lparr>me_type = 2, me_base = 0x2000000, me_size = 0x3000\<rparr>, \<lparr>me_type = 2, me_base = 0xFFF000, me_size = 0x2000\<rparr>],
       em_reserved = 0, em_ptr = 0x2000000, em_end = 0x2003000, em_va_ptr = 0, em_reserved_pages = 1\<rparr>
       \<lparr>c_thread = 0, c_intr = True, c_saved = False, c_claims = None, c_lock_count = 0, c_spin_count = 0, c_crit = 0\<rparr> = Some (z, e, c) \<and>
     zones_typed z \<and> length (mz_fas z) = 3 \<and> (\<exists>j. locate_owning_allocator z 0x1000800 = Some j \<and> fa_owns z 0x1000800 j)"
proof -
  let ?e = "\<lparr>em_map = [\<lparr>me_type = 2, me_base = 0x2000000, me_size = 0x3000\<rparr>, \<lparr>me_type = 2, me_base = 0xFFF000, me_size = 0x2000\<rparr>],
       em_reserved = 0, em_ptr = 0x2000000, em_end = 0x2003000, em_va_ptr = 0, em_reserved_pages = 1\<rparr> :: early_mem"
  let ?c = "\<lparr>c_thread = 0, c_intr = True, c_saved = False, c_claims = None, c_lock_count = 0, c_spin_count = 0, c_crit = 0\<rparr> :: cpu_ctx"
  have "map_option (\<lambda>(z, e, c). map (\<lambda>fa. (fa_base fa, fa_size fa)) (mz_fas z)) (init_mem_zones (\<lambda>i. of_nat i) 0 0 ?e ?c) =
      Some [(0x2001000, 0x2000), (0x1000000, 0x1000), (0xFFF000, 0x1000)]" by code_simp
  then obtain z e c where z: "init_mem_zones (\<lambda>i. of_nat i) 0 0 ?e ?c = Some (z, e, c)"
    "map (\<lambda>fa. (fa_base fa, fa_size fa)) (mz_fas z) = [(0x2001000, 0x2000), (0x1000000, 0x1000), (0xFFF000, 0x1000)]" by auto
  have len: "length (mz_fas z) = 3" using arg_cong [OF z(2), of length] by simp
  have "(fa_base (mz_fas z ! 1), fa_size (mz_fas z ! 1)) = (0x1000000, 0x1000)"
    using arg_cong [OF z(2), of "\<lambda>xs. xs ! 1"] len by (simp only: nth_map) simp
  then have "fa_owns z 0x1000800 1" by (simp add: fa_owns_def)
  then show ?thesis using init_mem_zones_typed [OF z(1), of "0x1000800"] z(1) len by (metis one_less_numeral_iff semiring_norm(77))
qed

section \<open>The scan of the memory map\<close>

text \<open>What the loop over the memory map has established about the entries it found.\<close>

definition scan_ok :: "boot_info \<Rightarrow> early_scan \<Rightarrow> bool" where
  "scan_ok b st \<longleftrightarrow>
     (case es_reserved st of None \<Rightarrow> \<not> es_initrd st
      | Some r \<Rightarrow> r < length (bi_mem_map b) \<and> es_end st = me_base (bi_mem_map b ! r) + me_size (bi_mem_map b ! r) \<and>
          (es_initrd st \<longrightarrow> me_base (bi_mem_map b ! r) = bi_initrd_addr b \<and> es_ptr st = bi_initrd_addr b + bi_initrd_size b)) \<and>
     (case es_kernel st of None \<Rightarrow> True
      | Some k \<Rightarrow> k < length (bi_mem_map b) \<and> me_base (bi_mem_map b ! k) = ucast (bi_kernel_phys_addr b))"

lemma pick_kernel_ok:
  assumes "pick_kernel (ucast (bi_kernel_phys_addr b)) ke i (bi_mem_map b ! i) st = Some st'" "scan_ok b st" "i < length (bi_mem_map b)"
  shows "scan_ok b st'"
proof (cases "st' = st")
  case False
  then have "st' = st\<lparr>es_kernel := Some i\<rparr>" "me_base (bi_mem_map b ! i) = ucast (bi_kernel_phys_addr b)"
    using assms(1) by (auto simp: pick_kernel_def split: if_splits)
  then show ?thesis using assms(2,3) by (auto simp: scan_ok_def split: option.splits)
qed (use assms(2) in simp)

lemma early_scan_loop_ok:
  "early_scan_loop b i entries st = Some st' \<Longrightarrow> entries = drop i (bi_mem_map b) \<Longrightarrow> scan_ok b st \<Longrightarrow> scan_ok b st'"
proof (induction entries arbitrary: i st)
  case (Cons entry entries)
  have i: "i < length (bi_mem_map b)" "bi_mem_map b ! i = entry" "entries = drop (Suc i) (bi_mem_map b)"
    using Cons.prems(2) by (metis drop_eq_Nil leI list.distinct(1), metis nth_via_drop, metis drop_Suc list.sel(3) tl_drop)
  let ?st = "pick_reserved (bi_initrd_addr b) (bi_initrd_size b) i entry st"
  have "scan_ok b ?st" using Cons.prems(3) i by (auto simp: scan_ok_def pick_reserved_def Let_def)
  moreover obtain st2 where st2: "pick_kernel (ucast (bi_kernel_phys_addr b)) (ucast (bi_kernel_phys_addr b) + ucast (bi_kernel_size b)) i entry ?st = Some st2"
    "early_scan_loop b (Suc i) entries st2 = Some st'"
    using Cons.prems(1) by (auto simp: bind_eq_Some_conv split: if_splits)
  ultimately have "scan_ok b st2" using pick_kernel_ok i by blast
  then show ?case using Cons.IH [OF st2(2) i(3)] by blast
qed simp

lemma mm_early_init_reserved:
  assumes "mm_early_init la kla b = Some (e, heap)" "ucast (bi_kernel_phys_addr b) \<noteq> bi_initrd_addr b"
  shows "\<exists>r old. em_reserved e = r \<and> r < length (bi_mem_map b) \<and> bi_mem_map b ! r = old \<and> me_base old = bi_initrd_addr b \<and>
    em_end e = me_base old + me_size old \<and>
    em_map e ! r = old\<lparr>me_base := bi_initrd_addr b + bi_initrd_size b + KERNEL_HEAP_SIZE, me_size := me_size old - KERNEL_HEAP_SIZE\<rparr> \<and>
    heap = mm_init_kheap (bi_initrd_addr b + bi_initrd_size b) la kla"
proof -
  obtain st k r where st: "early_scan_loop b 0 (bi_mem_map b)
       \<lparr>es_kernel = None, es_reserved = None, es_start = 0, es_end = 0, es_ptr = 0, es_va_ptr = 0, es_initrd = False\<rparr> = Some st"
     "es_kernel st = Some k" "es_reserved st = Some r" "es_initrd st"
    using assms(1) by (auto simp: mm_early_init_def bind_eq_Some_conv Let_def split: if_splits)
  have "scan_ok b st" using early_scan_loop_ok [OF st(1)] by (simp add: scan_ok_def)
  then have r: "r < length (bi_mem_map b)" "es_end st = me_base (bi_mem_map b ! r) + me_size (bi_mem_map b ! r)"
    "me_base (bi_mem_map b ! r) = bi_initrd_addr b" "es_ptr st = bi_initrd_addr b + bi_initrd_size b"
    "k < length (bi_mem_map b)" "me_base (bi_mem_map b ! k) = ucast (bi_kernel_phys_addr b)"
    using st by (simp_all add: scan_ok_def)
  then have "k \<noteq> r" using assms(2) by auto
  moreover have "SIZE_TO_PAGES KERNEL_HEAP_SIZE * PAGE_SIZE = KERNEL_HEAP_SIZE"
    by (simp add: SIZE_TO_PAGES_def KERNEL_HEAP_SIZE_def PAGE_SIZE_def)
  ultimately show ?thesis using assms(1) st r
    by (simp add: mm_early_init_def mm_early_alloc_pages_def Let_def split: if_splits) auto
qed

end
