(* ===== verification/Page_Alloc.thy ===== *)
theory Page_Alloc
  imports Frame_Alloc
begin

text \<open>
  Page structures, the second half of \<^verbatim>\<open>kernel/mm/pmalloc.c\<close>: lists of reference counted pages over
  the frames, their allocation from the zones, sharing and copy-on-write, release, joining and
  splitting, and the entries that map a page. A page or entry is known by a number; the heap hands out
  the next one, which also stands for its address. NULL is \<open>None\<close>, and following it is undefined.
\<close>

section \<open>Pages\<close>

definition PG_BIGPAGE :: u32 where "PG_BIGPAGE = 1"
definition PG_HUGEPAGE :: u32 where "PG_HUGEPAGE = 2"
definition PG_OWNING :: u32 where "PG_OWNING = 4"
definition PG_HEAD :: u32 where "PG_HEAD = 8"
definition PG_COW :: u32 where "PG_COW = 16"
definition PG_SIZE_MASK :: u32 where "PG_SIZE_MASK = PG_BIGPAGE OR PG_HUGEPAGE"

definition pg_flags_to_size :: "u32 \<Rightarrow> u64" where
  "pg_flags_to_size pg_flags =
     (if pg_flags AND PG_BIGPAGE \<noteq> 0 then PAGE_SIZE_2MB
      else if pg_flags AND PG_HUGEPAGE \<noteq> 0 then PAGE_SIZE_1GB
      else PAGE_SIZE)"

text \<open>The union of the owning allocator and the source of a copy-on-write page.\<close>

datatype page_owner = OwnerNull | OwnerFa nat | OwnerPage nat

record page =
  pg_address :: u64
  pg_flags :: u32
  pg_lock :: mtx
  pg_count :: "63 word"
  pg_contiguous :: bool
  pg_owner :: page_owner
  pg_entries :: "nat list"
  pg_next :: "nat option"
  pg_refs :: u32

record pte =
  pte_page :: "nat option"
  pte_entry :: u64
  pte_address :: u64

record pmem =
  pm_zones :: mem_zones
  pm_ctx :: cpu_ctx
  pm_pages :: "nat \<rightharpoonup> page"
  pm_ptes :: "nat \<rightharpoonup> pte"
  pm_fresh :: nat

definition set_page :: "nat \<Rightarrow> (page \<Rightarrow> page) \<Rightarrow> pmem \<Rightarrow> pmem" where
  "set_page i f s = s\<lparr>pm_pages := (pm_pages s)(i := map_option f (pm_pages s i))\<rparr>"

text \<open>A new page from \<open>kmallocz\<close> with one reference.\<close>

definition new_page :: "u64 \<Rightarrow> u32 \<Rightarrow> page_owner \<Rightarrow> pmem \<Rightarrow> pmem" where
  "new_page address flags owner s = s\<lparr>pm_pages := (pm_pages s)(pm_fresh s \<mapsto>
       \<lparr>pg_address = address, pg_flags = flags, pg_lock = mtx_init (of_nat (pm_fresh s)) MTX_SPIN, pg_count = 0,
        pg_contiguous = False, pg_owner = owner, pg_entries = [], pg_next = None, pg_refs = 1\<rparr>),
     pm_fresh := Suc (pm_fresh s)\<rparr>"

definition link_after :: "nat option \<Rightarrow> nat \<Rightarrow> pmem \<Rightarrow> pmem" where
  "link_after prev i s = (case prev of None \<Rightarrow> s | Some l \<Rightarrow> set_page l (\<lambda>p. p\<lparr>pg_next := Some i\<rparr>) s)"

definition mark_head :: "nat \<Rightarrow> 63 word \<Rightarrow> bool \<Rightarrow> pmem \<Rightarrow> pmem" where
  "mark_head i count contiguous = set_page i (\<lambda>p. p\<lparr>pg_flags := pg_flags p OR PG_HEAD, pg_count := count, pg_contiguous := contiguous\<rparr>)"

primrec alloc_loop :: "u64 \<Rightarrow> u32 \<Rightarrow> page_owner \<Rightarrow> nat \<Rightarrow> u64 \<Rightarrow> nat option \<Rightarrow> pmem \<Rightarrow> pmem" where
  "alloc_loop pg_size flags owner 0 address prev s = s"
| "alloc_loop pg_size flags owner (Suc remaining) address prev s =
     alloc_loop pg_size flags owner remaining (address + pg_size) (Some (pm_fresh s))
       (link_after prev (pm_fresh s) (new_page address flags owner s))"

definition size_flags :: "u64 \<Rightarrow> u32" where
  "size_flags pg_size = (if pg_size = BIGPAGE_SIZE then PG_BIGPAGE else if pg_size = HUGEPAGE_SIZE then PG_HUGEPAGE else 0)"

definition alloc_page_structs :: "nat option \<Rightarrow> u64 \<Rightarrow> u64 \<Rightarrow> u64 \<Rightarrow> pmem \<Rightarrow> (nat \<times> pmem) option" where
  "alloc_page_structs fa frame count pg_size s = do {
     kassert (count > 0);
     let owner = (case fa of None \<Rightarrow> OwnerNull | Some i \<Rightarrow> OwnerFa i);
     let s' = alloc_loop pg_size (PG_OWNING OR size_flags pg_size) owner (unat count) frame None s;
     Some (pm_fresh s, mark_head (pm_fresh s) (ucast count) True s') }"

definition alloc_nonowned_structs :: "u64 \<Rightarrow> u64 \<Rightarrow> u64 \<Rightarrow> pmem \<Rightarrow> (nat \<times> pmem) option" where
  "alloc_nonowned_structs frame count pg_size s = do {
     kassert (count > 0);
     kassert (pg_size \<noteq> 0 \<and> frame mod pg_size = 0);
     let s' = alloc_loop pg_size (size_flags pg_size) OwnerNull (unat count) frame None s;
     Some (pm_fresh s, mark_head (pm_fresh s) (ucast count) True s') }"

definition get_page_ref :: "nat \<Rightarrow> pmem \<Rightarrow> pmem" where
  "get_page_ref i = set_page i (\<lambda>p. p\<lparr>pg_refs := pg_refs p + 1\<rparr>)"

partial_function (option) cow_loop :: "nat option \<Rightarrow> nat option \<Rightarrow> pmem \<Rightarrow> pmem option" where
  "cow_loop cur prev s = (if cur = None then Some s
     else do {
       p \<leftarrow> pm_pages s (the cur);
       cow_loop (pg_next p) (Some (pm_fresh s))
         (link_after prev (pm_fresh s) (new_page (pg_address p) ((pg_flags p AND PG_SIZE_MASK) OR PG_COW)
           (OwnerPage (the cur)) (get_page_ref (the cur) s))) })"

definition alloc_cow_structs :: "nat \<Rightarrow> pmem \<Rightarrow> (nat \<times> pmem) option" where
  "alloc_cow_structs pages s = do {
     p \<leftarrow> pm_pages s pages;
     kassert (pg_flags p AND PG_HEAD \<noteq> 0);
     s' \<leftarrow> cow_loop (Some pages) None s;
     Some (pm_fresh s, mark_head (pm_fresh s) (pg_count p) (pg_contiguous p) s') }"

partial_function (option) shared_loop :: "nat option \<Rightarrow> nat option \<Rightarrow> pmem \<Rightarrow> pmem option" where
  "shared_loop cur prev s = (if cur = None then Some s
     else do {
       p \<leftarrow> pm_pages s (the cur);
       shared_loop (pg_next p) cur (link_after prev (the cur) (get_page_ref (the cur) s)) })"

definition alloc_shared_structs :: "nat \<Rightarrow> pmem \<Rightarrow> (nat \<times> pmem) option" where
  "alloc_shared_structs pages s = do {
     p \<leftarrow> pm_pages s pages;
     kassert (pg_flags p AND PG_HEAD \<noteq> 0);
     s' \<leftarrow> shared_loop (Some pages) None s;
     Some (pages, s') }"

section \<open>Release\<close>

text \<open>Giving a page's frame back to the allocator that owns it.\<close>

definition release_frame :: "page \<Rightarrow> pmem \<Rightarrow> pmem option" where
  "release_frame p s = (case pg_owner p of
     OwnerFa i \<Rightarrow> do {
       fa \<leftarrow> load (mz_fas (pm_zones s)) (int i);
       (fa', c') \<leftarrow> bitmap_fa_free fa (pm_ctx s) (pg_address p) 1 (pg_flags_to_size (pg_flags p));
       Some (s\<lparr>pm_zones := (pm_zones s)\<lparr>mz_fas := (mz_fas (pm_zones s))[i := fa']\<rparr>, pm_ctx := c'\<rparr>) }
   | _ \<Rightarrow> None)"

definition source_page :: "page \<Rightarrow> (nat option) option" where
  "source_page p = (case pg_owner p of OwnerPage i \<Rightarrow> Some (Some i) | OwnerNull \<Rightarrow> Some None | OwnerFa i \<Rightarrow> None)"

text \<open>\<open>putref\<close> on a page, with \<open>fa_free_page\<close> run on it when it was the last reference.\<close>

partial_function (option) putref_page :: "nat option \<Rightarrow> pmem \<Rightarrow> pmem option" where
  "putref_page ref s = (if ref = None then Some s
     else do {
       p \<leftarrow> pm_pages s (the ref);
       if pg_refs p = 1 then do {
         s1 \<leftarrow> (if pg_flags p AND PG_COW \<noteq> 0
               then do { src \<leftarrow> source_page p; putref_page src (set_page (the ref) (\<lambda>p. p\<lparr>pg_refs := pg_refs p - 1\<rparr>) s) }
               else if pg_flags p AND PG_OWNING \<noteq> 0
               then release_frame p (set_page (the ref) (\<lambda>p. p\<lparr>pg_refs := pg_refs p - 1\<rparr>) s)
               else Some (set_page (the ref) (\<lambda>p. p\<lparr>pg_refs := pg_refs p - 1\<rparr>) s));
         s2 \<leftarrow> putref_page (pg_next p) s1;
         Some (s2\<lparr>pm_pages := (pm_pages s2)(the ref := None)\<rparr>) }
       else Some (set_page (the ref) (\<lambda>p. p\<lparr>pg_refs := pg_refs p - 1\<rparr>) s) })"

definition drop_pages :: "nat option \<Rightarrow> pmem \<Rightarrow> pmem option" where
  "drop_pages ref s = putref_page ref s"

section \<open>Allocation\<close>

definition fa_alloc_pages :: "nat \<Rightarrow> u64 \<Rightarrow> u64 \<Rightarrow> pmem \<Rightarrow> (nat option \<times> pmem) option" where
  "fa_alloc_pages i count pg_size s = do {
     kassert (valid_pg_size pg_size);
     fa \<leftarrow> load (mz_fas (pm_zones s)) (int i);
     if fa_free fa = 0 \<or> count = 0 then Some (None, s)
     else do {
       (frame, fa', c') \<leftarrow> bitmap_fa_alloc fa (pm_ctx s) count pg_size;
       let s1 = s\<lparr>pm_zones := (pm_zones s)\<lparr>mz_fas := (mz_fas (pm_zones s))[i := fa']\<rparr>, pm_ctx := c'\<rparr>;
       if frame = 0 then Some (None, s1)
       else do {
         kassert (is_aligned frame pg_size);
         (page, s2) \<leftarrow> alloc_page_structs (Some i) frame count pg_size s1;
         Some (Some page, s2) } } }"

text \<open>The walk over the allocators of a zone.\<close>

primrec zone_loop :: "nat list \<Rightarrow> u64 \<Rightarrow> u64 \<Rightarrow> pmem \<Rightarrow> (nat option \<times> pmem) option" where
  "zone_loop [] count pagesize s = Some (None, s)"
| "zone_loop (i # is) count pagesize s = do {
     fa \<leftarrow> load (mz_fas (pm_zones s)) (int i);
     if fa_free fa \<ge> count * pagesize then do {
       (pages, s') \<leftarrow> fa_alloc_pages i count pagesize s;
       if pages \<noteq> None then Some (pages, s') else zone_loop is count pagesize s' }
     else zone_loop is count pagesize s }"

definition alloc_pages_zone :: "zone_type \<Rightarrow> u64 \<Rightarrow> u64 \<Rightarrow> pmem \<Rightarrow> (nat option \<times> pmem) option" where
  "alloc_pages_zone t count pagesize s = do {
     kassert (t \<noteq> MAX_ZONE_TYPE);
     if count = 0 then Some (None, s)
     else zone_loop (mz_zones (pm_zones s) t) count pagesize s }"

function alloc_zones_loop :: "zone_type \<Rightarrow> u64 \<Rightarrow> u64 \<Rightarrow> pmem \<Rightarrow> (nat \<times> pmem) option" where
  "alloc_zones_loop t count pagesize s = (if t = MAX_ZONE_TYPE then None
     else do {
       (pages, s') \<leftarrow> alloc_pages_zone t count pagesize s;
       case pages of Some p \<Rightarrow> Some (p, s') | None \<Rightarrow> alloc_zones_loop (zone_alloc_order t) count pagesize s' })"
  by pat_completeness auto
termination
proof (relation "measure (\<lambda>(t, _). if t = MAX_ZONE_TYPE then 0 else Suc (zone_index t))")
  show "((zone_alloc_order t, count, pagesize, s'), t, count, pagesize, s)
      \<in> measure (\<lambda>(t, _). if t = MAX_ZONE_TYPE then 0 else Suc (zone_index t))"
    if "t \<noteq> MAX_ZONE_TYPE" for t :: zone_type and count pagesize :: u64 and s s' :: pmem
    using that by (cases t) auto
qed auto

declare alloc_zones_loop.simps [simp del]

definition alloc_pages_size :: "u64 \<Rightarrow> u64 \<Rightarrow> pmem \<Rightarrow> (nat \<times> pmem) option" where
  "alloc_pages_size count pagesize s = do {
     kassert (valid_pg_size pagesize);
     alloc_zones_loop ZONE_TYPE_HIGH count pagesize s }"

definition alloc_pages :: "u64 \<Rightarrow> pmem \<Rightarrow> (nat \<times> pmem) option" where
  "alloc_pages count s = alloc_pages_size count PAGE_SIZE s"

definition alloc_pages_at :: "u64 \<Rightarrow> u64 \<Rightarrow> u64 \<Rightarrow> pmem \<Rightarrow> (nat option \<times> pmem) option" where
  "alloc_pages_at address count pagesize s = do {
     kassert (pagesize \<noteq> 0 \<and> address mod pagesize = 0);
     (r, z, c) \<leftarrow> reserve_pages PG_RSRV_ANY address count pagesize (pm_zones s, pm_ctx s);
     let s1 = s\<lparr>pm_zones := z, pm_ctx := c\<rparr>;
     if r < 0 then Some (None, s1)
     else do {
       (page, s2) \<leftarrow> alloc_page_structs (locate_owning_allocator z address) address count pagesize s1;
       Some (Some page, s2) } }"

definition alloc_nonowned_pages_at :: "u64 \<Rightarrow> u64 \<Rightarrow> u64 \<Rightarrow> pmem \<Rightarrow> (nat option \<times> pmem) option" where
  "alloc_nonowned_pages_at address count pagesize s = do {
     kassert (pagesize \<noteq> 0 \<and> address mod pagesize = 0);
     if count = 0 then Some (None, s)
     else do {
       (r, z, c) \<leftarrow> reserve_pages PG_RSRV_PHYS address count pagesize (pm_zones s, pm_ctx s);
       kassert (\<not> r < 0);
       (page, s2) \<leftarrow> alloc_nonowned_structs address count pagesize (s\<lparr>pm_zones := z, pm_ctx := c\<rparr>);
       Some (Some page, s2) } }"

definition alloc_cow_pages :: "nat \<Rightarrow> pmem \<Rightarrow> (nat \<times> pmem) option" where
  "alloc_cow_pages pages s = alloc_cow_structs pages s"

definition alloc_shared_pages :: "nat \<Rightarrow> pmem \<Rightarrow> (nat \<times> pmem) option" where
  "alloc_shared_pages pages s = alloc_shared_structs pages s"

section \<open>Lists of pages\<close>

partial_function (option) page_last :: "nat \<Rightarrow> pmem \<Rightarrow> nat option" where
  "page_last i s = do { p \<leftarrow> pm_pages s i; if pg_next p = None then Some i else page_last (the (pg_next p)) s }"

definition page_list_join :: "nat option \<Rightarrow> nat option \<Rightarrow> pmem \<Rightarrow> (nat option \<times> pmem) option" where
  "page_list_join headref tailref s = (case (headref, tailref) of
     (None, _) \<Rightarrow> Some (tailref, s)
   | (_, None) \<Rightarrow> Some (headref, s)
   | (Some head, Some tail) \<Rightarrow> do {
       h \<leftarrow> pm_pages s head;
       t \<leftarrow> pm_pages s tail;
       kassert (pg_flags h AND PG_HEAD \<noteq> 0);
       kassert (pg_flags t AND PG_HEAD \<noteq> 0);
       head_last \<leftarrow> page_last head s;
       l \<leftarrow> pm_pages s head_last;
       let s1 = set_page head (\<lambda>p. p\<lparr>pg_count := pg_count h + pg_count t,
         pg_contiguous := pg_address l + pg_flags_to_size (pg_flags h) = pg_address t \<and> pg_contiguous t\<rparr>) s;
       let s2 = set_page tail (\<lambda>p. p\<lparr>pg_flags := pg_flags p XOR PG_HEAD, pg_count := 0, pg_contiguous := False\<rparr>) s1;
       Some (headref, set_page head_last (\<lambda>p. p\<lparr>pg_next := Some tail\<rparr>) s2) })"

text \<open>The walk over the first pages: the last of them and what follows it.\<close>

primrec split_walk :: "nat \<Rightarrow> nat option \<Rightarrow> nat option \<Rightarrow> pmem \<Rightarrow> (nat option \<times> nat option) option" where
  "split_walk 0 pptr ptr s = Some (pptr, ptr)"
| "split_walk (Suc ccount) pptr ptr s = (case ptr of None \<Rightarrow> None
     | Some i \<Rightarrow> do { p \<leftarrow> pm_pages s i; split_walk ccount ptr (pg_next p) s })"

text \<open>The second result is what is stored through \<open>tailref\<close>, if anything is.\<close>

definition page_list_split :: "nat option \<Rightarrow> u64 \<Rightarrow> pmem \<Rightarrow> (nat option \<times> nat option option \<times> pmem) option" where
  "page_list_split headref count s = (case headref of None \<Rightarrow> Some (headref, None, s)
     | Some head \<Rightarrow> if count = 0 then Some (headref, None, s)
       else do {
         h \<leftarrow> pm_pages s head;
         kassert (pg_flags h AND PG_HEAD \<noteq> 0);
         kassert (ucast (pg_count h) \<ge> count);
         if ucast (pg_count h) = count then Some (headref, Some None, s)
         else do {
           (pptr, ptr) \<leftarrow> split_walk (unat count) None headref s;
           newhead \<leftarrow> ptr;
           n \<leftarrow> pm_pages s newhead;
           let s1 = mark_head newhead (ucast (ucast (pg_count h) - count)) (pg_contiguous h) (get_page_ref newhead s);
           let s2 = set_page head (\<lambda>p. p\<lparr>pg_count := ucast count\<rparr>) s1;
           s3 \<leftarrow> (case pptr of None \<Rightarrow> Some s2 | Some q \<Rightarrow> do {
             s' \<leftarrow> putref_page (Some newhead) s2;
             Some (set_page q (\<lambda>p. p\<lparr>pg_next := None\<rparr>) s') });
           Some (headref, Some (Some newhead), s3) } })"

section \<open>Mappings of a page\<close>

text \<open>The part of an operation between taking and releasing the page's lock.\<close>

definition page_locked :: "nat \<Rightarrow> (pmem \<Rightarrow> ('r \<times> pmem) option) \<Rightarrow> pmem \<Rightarrow> ('r \<times> pmem) option" where
  "page_locked i body s = do {
     p \<leftarrow> pm_pages s i;
     (ok, m, c1) \<leftarrow> mtx_spin_lock (pg_lock p) (pm_ctx s);
     kassert ok;
     (r, s1) \<leftarrow> body (set_page i (\<lambda>p. p\<lparr>pg_lock := m\<rparr>) (s\<lparr>pm_ctx := c1\<rparr>));
     p1 \<leftarrow> pm_pages s1 i;
     (m', c2) \<leftarrow> mtx_spin_unlock (pg_lock p1) (pm_ctx s1);
     Some (r, set_page i (\<lambda>p. p\<lparr>pg_lock := m'\<rparr>) (s1\<lparr>pm_ctx := c2\<rparr>)) }"

definition pte_struct_alloc :: "nat option \<Rightarrow> u64 \<Rightarrow> u64 \<Rightarrow> pmem \<Rightarrow> nat \<times> pmem" where
  "pte_struct_alloc page entry vm_address s =
     (let s' = (case page of None \<Rightarrow> s | Some i \<Rightarrow> get_page_ref i s) in
      (pm_fresh s', s'\<lparr>pm_ptes := (pm_ptes s')(pm_fresh s' \<mapsto> \<lparr>pte_page = page, pte_entry = entry, pte_address = vm_address\<rparr>),
        pm_fresh := Suc (pm_fresh s')\<rparr>))"

definition pte_struct_free :: "nat \<Rightarrow> pmem \<Rightarrow> pmem option" where
  "pte_struct_free i s = do {
     pte \<leftarrow> pm_ptes s i;
     s' \<leftarrow> drop_pages (pte_page pte) s;
     Some (s'\<lparr>pm_ptes := (pm_ptes s')(i := None)\<rparr>) }"

text \<open>The chain of a page's entries is the list of them, the most recent first.\<close>

definition page_add_mapping :: "nat \<Rightarrow> nat \<Rightarrow> pmem \<Rightarrow> pmem option" where
  "page_add_mapping page pte s = map_option snd (page_locked page
     (\<lambda>s. Some ((), set_page page (\<lambda>p. p\<lparr>pg_entries := pte # pg_entries p\<rparr>) s)) s)"

primrec unlink_entry :: "(nat \<rightharpoonup> pte) \<Rightarrow> u64 \<Rightarrow> nat list \<Rightarrow> (nat option \<times> nat list) option" where
  "unlink_entry ptes address [] = Some (None, [])"
| "unlink_entry ptes address (cur # rest) = do {
     pte \<leftarrow> ptes cur;
     if pte_address pte = address then Some (Some cur, rest)
     else do { (r, rest') \<leftarrow> unlink_entry ptes address rest; Some (r, cur # rest') } }"

definition page_remove_mapping :: "nat \<Rightarrow> u64 \<Rightarrow> pmem \<Rightarrow> (nat option \<times> pmem) option" where
  "page_remove_mapping page vm_address = page_locked page (\<lambda>s. do {
     p \<leftarrow> pm_pages s page;
     (cur, entries) \<leftarrow> unlink_entry (pm_ptes s) vm_address (pg_entries p);
     Some (cur, set_page page (\<lambda>p. p\<lparr>pg_entries := entries\<rparr>) s) })"

primrec find_entry :: "(nat \<rightharpoonup> pte) \<Rightarrow> u64 \<Rightarrow> nat list \<Rightarrow> nat option option" where
  "find_entry ptes address [] = Some None"
| "find_entry ptes address (cur # rest) = do {
     pte \<leftarrow> ptes cur;
     if pte_address pte = address then Some (Some cur) else find_entry ptes address rest }"

definition page_get_mapping :: "nat \<Rightarrow> u64 \<Rightarrow> pmem \<Rightarrow> (nat option \<times> pmem) option" where
  "page_get_mapping page vm_address = page_locked page (\<lambda>s. do {
     p \<leftarrow> pm_pages s page;
     r \<leftarrow> find_entry (pm_ptes s) vm_address (pg_entries p);
     Some (r, s) })"

definition set_size_flags :: "u32 \<Rightarrow> nat \<Rightarrow> pmem \<Rightarrow> pmem" where
  "set_size_flags flags i = set_page i (\<lambda>p. p\<lparr>pg_flags := (pg_flags p AND NOT PG_SIZE_MASK) OR (flags AND PG_SIZE_MASK)\<rparr>)"

partial_function (option) update_flags_loop :: "u32 \<Rightarrow> nat option \<Rightarrow> pmem \<Rightarrow> pmem option" where
  "update_flags_loop flags cur s = (if cur = None then Some s
     else do {
       p \<leftarrow> pm_pages s (the cur);
       update_flags_loop flags (pg_next p) (set_size_flags flags (the cur) s) })"

definition page_update_flags :: "nat \<Rightarrow> u32 \<Rightarrow> pmem \<Rightarrow> pmem option" where
  "page_update_flags page flags s = map_option snd (page_locked page (\<lambda>s. do {
     p \<leftarrow> pm_pages s page;
     s' \<leftarrow> (if pg_flags p AND PG_HEAD \<noteq> 0 then update_flags_loop flags (Some page) s
           else Some (set_size_flags flags page s));
     Some ((), s') }) s)"

section \<open>Well-formed physical memory\<close>

abbreviation pm_fas :: "pmem \<Rightarrow> frame_allocator list" where
  "pm_fas s \<equiv> mz_fas (pm_zones s)"

definition pm_ok :: "pmem \<Rightarrow> bool" where
  "pm_ok s \<longleftrightarrow> spin_ctx (pm_ctx s) \<and> (\<forall>fa\<in>set (pm_fas s). fa_wf fa) \<and>
     (\<forall>t. \<forall>i\<in>set (mz_zones (pm_zones s) t). i < length (pm_fas s))"

text \<open>The bitmaps' own counts, which single-frame allocations never lower, are not exhausted.\<close>

definition pm_live :: "pmem \<Rightarrow> bool" where
  "pm_live s \<longleftrightarrow> (\<forall>fa\<in>set (pm_fas s). bm_free (fa_data fa) \<noteq> 0)"

definition set_fa :: "nat \<Rightarrow> frame_allocator \<Rightarrow> cpu_ctx \<Rightarrow> pmem \<Rightarrow> pmem" where
  "set_fa i fa c s = s\<lparr>pm_zones := (pm_zones s)\<lparr>mz_fas := (pm_fas s)[i := fa]\<rparr>, pm_ctx := c\<rparr>"

lemma set_fa_simps [simp]:
  "pm_pages (set_fa i fa c s) = pm_pages s" "pm_fresh (set_fa i fa c s) = pm_fresh s" "pm_ptes (set_fa i fa c s) = pm_ptes s"
  "pm_fas (set_fa i fa c s) = (pm_fas s)[i := fa]" "pm_ctx (set_fa i fa c s) = c"
  "mz_zones (pm_zones (set_fa i fa c s)) = mz_zones (pm_zones s)"
  by (simp_all add: set_fa_def)

lemma set_page_simps [simp]:
  "pm_zones (set_page i f s) = pm_zones s" "pm_ctx (set_page i f s) = pm_ctx s" "pm_fresh (set_page i f s) = pm_fresh s"
  "pm_ptes (set_page i f s) = pm_ptes s"
  "pm_pages (set_page i f s) = (pm_pages s)(i := map_option f (pm_pages s i))"
  by (simp_all add: set_page_def)

lemma pm_ok_set_fa: "pm_ok s \<Longrightarrow> fa_wf fa \<Longrightarrow> spin_ctx c \<Longrightarrow> pm_ok (set_fa i fa c s)"
  by (auto simp: pm_ok_def dest!: set_update_subset_insert [THEN subsetD])

lemma pm_live_set_fa: "pm_live s \<Longrightarrow> bm_free (fa_data fa) \<noteq> 0 \<Longrightarrow> pm_live (set_fa i fa c s)"
  by (auto simp: pm_live_def dest!: set_update_subset_insert [THEN subsetD])

lemma pm_ok_cong: "pm_zones s' = pm_zones s \<Longrightarrow> pm_ctx s' = pm_ctx s \<Longrightarrow> pm_ok s' = pm_ok s"
  by (simp add: pm_ok_def)

lemma pm_live_cong: "pm_zones s' = pm_zones s \<Longrightarrow> pm_live s' = pm_live s"
  by (simp add: pm_live_def)

section \<open>Allocation of a page\<close>

definition one_page :: "u64 \<Rightarrow> nat \<Rightarrow> nat \<Rightarrow> page" where
  "one_page address i n = \<lparr>pg_address = address, pg_flags = PG_OWNING OR PG_HEAD, pg_lock = mtx_init (of_nat n) MTX_SPIN,
     pg_count = 1, pg_contiguous = True, pg_owner = OwnerFa i, pg_entries = [], pg_next = None, pg_refs = 1\<rparr>"

lemma alloc_page_structs_one:
  "alloc_page_structs (Some i) frame 1 PAGE_SIZE s =
     Some (pm_fresh s, s\<lparr>pm_pages := (pm_pages s)(pm_fresh s \<mapsto> one_page frame i (pm_fresh s)), pm_fresh := Suc (pm_fresh s)\<rparr>)"
  by (simp add: alloc_page_structs_def link_after_def new_page_def mark_head_def set_page_def one_page_def
      size_flags_def PAGE_SIZE_def BIGPAGE_SIZE_def HUGEPAGE_SIZE_def)

definition has_free :: "pmem \<Rightarrow> nat \<Rightarrow> bool" where
  "has_free s i \<longleftrightarrow> fa_free (pm_fas s ! i) \<noteq> 0"

text \<open>The state after a page on frame \<open>f\<close> of allocator \<open>i\<close> was allocated.\<close>

definition took_frame :: "pmem \<Rightarrow> nat \<Rightarrow> nat \<Rightarrow> pmem \<Rightarrow> bool" where
  "took_frame s i f s' \<longleftrightarrow>
     f < fa_frames (pm_fas s ! i) \<and> f \<notin> fa_used (pm_fas s ! i) \<and> (\<forall>j<f. j \<in> fa_used (pm_fas s ! i)) \<and>
     fa_used (pm_fas s' ! i) = insert f (fa_used (pm_fas s ! i)) \<and> (\<forall>j. j \<noteq> i \<longrightarrow> pm_fas s' ! j = pm_fas s ! j) \<and>
     pm_pages s' = (pm_pages s)(pm_fresh s \<mapsto> one_page (frame_addr (pm_fas s ! i) f) i (pm_fresh s)) \<and>
     pm_fresh s' = Suc (pm_fresh s) \<and> pm_ok s' \<and> pm_live s'"

lemma fa_alloc_pages_one:
  assumes "pm_ok s" "pm_live s" "i < length (pm_fas s)" "has_free s i"
  shows "\<exists>f s'. fa_alloc_pages i 1 PAGE_SIZE s = Some (Some (pm_fresh s), s') \<and> took_frame s i f s'"
proof -
  let ?fa = "pm_fas s ! i"
  have wf: "fa_wf ?fa" "bm_free (fa_data ?fa) \<noteq> 0" "spin_ctx (pm_ctx s)" "fa_free ?fa \<noteq> 0"
    using assms nth_mem [OF assms(3)] by (auto simp: pm_ok_def pm_live_def has_free_def)
  obtain f fa' c' where f: "bitmap_fa_alloc ?fa (pm_ctx s) 1 PAGE_SIZE = Some (frame_addr ?fa f, fa', c')"
    "f < fa_frames ?fa" "f \<notin> fa_used ?fa" "\<forall>j<f. j \<in> fa_used ?fa" "fa_used fa' = insert f (fa_used ?fa)" "fa_wf fa'"
    "bm_free (fa_data fa') = bm_free (fa_data ?fa)" "spin_ctx c'"
    using bitmap_fa_alloc_one [OF wf(1,2,4,3)] by blast
  define s1 where "s1 = set_fa i fa' c' s"
  define s2 where "s2 = s1\<lparr>pm_pages := (pm_pages s1)(pm_fresh s1 \<mapsto> one_page (frame_addr ?fa f) i (pm_fresh s1)), pm_fresh := Suc (pm_fresh s1)\<rparr>"
  have call: "fa_alloc_pages i 1 PAGE_SIZE s = Some (Some (pm_fresh s), s2)"
    using f(1) wf(4) assms(3) frame_addr_aligned [OF wf(1) wf_frame_fits [OF wf(1) f(2)]]
    by (simp add: fa_alloc_pages_def valid_pg_size_def set_fa_def [symmetric] alloc_page_structs_one s2_def s1_def)
  have "pm_ok s1" "pm_live s1" using pm_ok_set_fa pm_live_set_fa assms(1,2) f wf(2) by (simp_all add: s1_def)
  then have "pm_ok s2" "pm_live s2" using pm_ok_cong [of s2 s1] pm_live_cong [of s2 s1] by (simp_all add: s2_def)
  then have "took_frame s i f s2" using f assms(3) by (simp add: took_frame_def s2_def s1_def)
  then show ?thesis using call by blast
qed

lemma has_free_iff: "fa_wf fa \<Longrightarrow> PAGE_SIZE \<le> fa_free fa \<longleftrightarrow> fa_free fa \<noteq> 0"
  using unat_eq_zero [of "fa_free fa"] by (auto simp: PAGE_SIZE_def word_le_nat_alt fa_wf_def)

lemma zone_loop_one:
  assumes "pm_ok s" "pm_live s" "\<forall>i\<in>set is. i < length (pm_fas s)"
  shows "zone_loop is 1 PAGE_SIZE s = (case find (has_free s) is of
    None \<Rightarrow> Some (None, s) | Some i \<Rightarrow> fa_alloc_pages i 1 PAGE_SIZE s)"
  using assms(3)
proof (induction "is")
  case (Cons i "is")
  then have i: "i < length (pm_fas s)" by simp
  then have "fa_wf (pm_fas s ! i)" using assms(1) by (simp add: pm_ok_def)
  note free = has_free_iff [OF this]
  show ?case
  proof (cases "has_free s i")
    case True
    then obtain f s' where "fa_alloc_pages i 1 PAGE_SIZE s = Some (Some (pm_fresh s), s')"
      using fa_alloc_pages_one [OF assms(1,2) i] by blast
    then show ?thesis using True i free by (simp add: has_free_def)
  next
    case False
    then show ?thesis using Cons i free by (simp add: has_free_def)
  qed
qed simp

definition zone_preference :: "pmem \<Rightarrow> nat list" where
  "zone_preference s = concat (map (mz_zones (pm_zones s)) [ZONE_TYPE_HIGH, ZONE_TYPE_NORMAL, ZONE_TYPE_DMA, ZONE_TYPE_LOW])"

lemma find_append: "find P (xs @ ys) = (case find P xs of None \<Rightarrow> find P ys | Some x \<Rightarrow> Some x)"
  by (induction xs) auto

lemma alloc_zones_one:
  assumes "pm_ok s" "pm_live s" "t \<noteq> MAX_ZONE_TYPE"
  shows "alloc_zones_loop t 1 PAGE_SIZE s = (case find (has_free s) (mz_zones (pm_zones s) t) of
    None \<Rightarrow> alloc_zones_loop (zone_alloc_order t) 1 PAGE_SIZE s
  | Some i \<Rightarrow> (case fa_alloc_pages i 1 PAGE_SIZE s of Some (Some p, s') \<Rightarrow> Some (p, s') | _ \<Rightarrow> None))"
proof (cases "find (has_free s) (mz_zones (pm_zones s) t)")
  case None
  then show ?thesis using assms zone_loop_one [OF assms(1,2), of "mz_zones (pm_zones s) t"]
    by (subst alloc_zones_loop.simps) (simp add: alloc_pages_zone_def pm_ok_def)
next
  case (Some i)
  then have "i < length (pm_fas s)" "has_free s i" using assms(1) by (auto simp: pm_ok_def dest!: find_SomeD)
  from fa_alloc_pages_one [OF assms(1,2) this]
  show ?thesis using Some assms zone_loop_one [OF assms(1,2), of "mz_zones (pm_zones s) t"]
    by (subst alloc_zones_loop.simps) (auto simp: alloc_pages_zone_def pm_ok_def)
qed

lemma alloc_pages_one:
  assumes "pm_ok s" "pm_live s"
  shows "alloc_pages 1 s = (case find (has_free s) (zone_preference s) of None \<Rightarrow> None
    | Some i \<Rightarrow> (case fa_alloc_pages i 1 PAGE_SIZE s of Some (Some p, s') \<Rightarrow> Some (p, s') | _ \<Rightarrow> None))"
proof -
  have "alloc_zones_loop MAX_ZONE_TYPE 1 PAGE_SIZE s = None" by (simp add: alloc_zones_loop.simps)
  then show ?thesis
    by (simp add: alloc_pages_def alloc_pages_size_def valid_pg_size_def zone_preference_def find_append
        alloc_zones_one [OF assms] split: option.split)
qed

text \<open>
  C1: In well-formed memory the allocation of one page finds the first frame allocator with free memory,
  going through the zones from high to low and through each zone in order, and takes its lowest free
  frame. It returns a new head page of one owned frame with a single reference, leaves every other
  allocator and page alone and keeps the memory well-formed. It panics exactly when no allocator of any
  zone has free memory.
\<close>

theorem alloc_pages_lowest_frame:
  assumes "pm_ok s" "pm_live s"
  shows "case find (has_free s) (zone_preference s) of
      None \<Rightarrow> alloc_pages 1 s = None
    | Some i \<Rightarrow> \<exists>f s'. alloc_pages 1 s = Some (pm_fresh s, s') \<and> took_frame s i f s'"
proof (cases "find (has_free s) (zone_preference s)")
  case (Some i)
  then have "i < length (pm_fas s)" "has_free s i"
    using assms(1) by (auto simp: pm_ok_def zone_preference_def dest!: find_SomeD)
  from fa_alloc_pages_one [OF assms this] Some show ?thesis by (auto simp: alloc_pages_one [OF assms])
qed (simp add: alloc_pages_one [OF assms])

section \<open>Release of a list of pages\<close>

text \<open>The pages that a reference leads to, in order.\<close>

primrec chain :: "(nat \<rightharpoonup> page) \<Rightarrow> nat option \<Rightarrow> nat list \<Rightarrow> bool" where
  "chain P ref [] \<longleftrightarrow> ref = None"
| "chain P ref (i # is) \<longleftrightarrow> ref = Some i \<and> (case P i of None \<Rightarrow> False | Some p \<Rightarrow> chain P (pg_next p) is)"

lemma chain_cong:
  "(\<And>i. i \<in> set is \<Longrightarrow> map_option pg_next (P i) = map_option pg_next (Q i)) \<Longrightarrow> chain P ref is \<longleftrightarrow> chain Q ref is"
proof (induction "is" arbitrary: ref)
  case (Cons i "is")
  have "map_option pg_next (P i) = map_option pg_next (Q i)" using Cons.prems by simp
  then show ?case using Cons by (cases "P i"; cases "Q i") auto
qed simp

text \<open>Page \<open>i\<close> has a single reference and owns frame \<open>f\<close>, in use, of allocator \<open>k\<close>.\<close>

definition owns_frame :: "pmem \<Rightarrow> nat \<Rightarrow> nat \<times> nat \<Rightarrow> bool" where
  "owns_frame s i = (\<lambda>(k, f). k < length (pm_fas s) \<and> f \<in> fa_used (pm_fas s ! k) \<and> (case pm_pages s i of None \<Rightarrow> False
     | Some p \<Rightarrow> pg_refs p = 1 \<and> pg_owner p = OwnerFa k \<and> pg_address p = frame_addr (pm_fas s ! k) f \<and>
         pg_flags p AND PG_COW = 0 \<and> pg_flags p AND PG_OWNING \<noteq> 0 \<and> pg_flags_to_size (pg_flags p) = PAGE_SIZE))"

lemma release_frame_owned:
  assumes "pm_ok s" "k < length (pm_fas s)" "f \<in> fa_used (pm_fas s ! k)" "pg_owner p = OwnerFa k"
    "pg_address p = frame_addr (pm_fas s ! k) f" "pg_flags_to_size (pg_flags p) = PAGE_SIZE"
  shows "\<exists>fa c. release_frame p s = Some (set_fa k fa c s) \<and> fa_used fa = fa_used (pm_fas s ! k) - {f} \<and>
    fa_base fa = fa_base (pm_fas s ! k) \<and> pm_ok (set_fa k fa c s)"
proof -
  have "fa_wf (pm_fas s ! k)" "spin_ctx (pm_ctx s)" using assms(1,2) by (simp_all add: pm_ok_def)
  from bitmap_fa_free_one [OF this(1) assms(3) this(2)]
  obtain fa c where fa: "bitmap_fa_free (pm_fas s ! k) (pm_ctx s) (frame_addr (pm_fas s ! k) f) 1 PAGE_SIZE = Some (fa, c)"
    "fa_used fa = fa_used (pm_fas s ! k) - {f}" "fa_wf fa" "fa_base fa = fa_base (pm_fas s ! k)" "spin_ctx c" by blast
  have "release_frame p s = Some (set_fa k fa c s)"
    using assms(2,4-6) fa(1) by (simp add: release_frame_def set_fa_def)
  then show ?thesis using fa pm_ok_set_fa [OF assms(1) fa(3,5)] by blast
qed

lemma putref_page_simps:
  "putref_page None s = Some s"
  "pm_pages s i = Some p \<Longrightarrow> pg_refs p \<noteq> 1 \<Longrightarrow>
     putref_page (Some i) s = Some (set_page i (\<lambda>p. p\<lparr>pg_refs := pg_refs p - 1\<rparr>) s)"
  "pm_pages s i = Some p \<Longrightarrow> pg_refs p = 1 \<Longrightarrow> pg_flags p AND PG_COW = 0 \<Longrightarrow> pg_flags p AND PG_OWNING \<noteq> 0 \<Longrightarrow>
     putref_page (Some i) s = do {
       s1 \<leftarrow> release_frame p (set_page i (\<lambda>p. p\<lparr>pg_refs := pg_refs p - 1\<rparr>) s);
       s2 \<leftarrow> putref_page (pg_next p) s1;
       Some (s2\<lparr>pm_pages := (pm_pages s2)(i := None)\<rparr>) }"
  by (simp_all add: putref_page.simps [of None] putref_page.simps [of "Some i"])

lemma putref_owned:
  assumes "pm_ok s" "owns_frame s i (k, f)" "pm_pages s i = Some p"
  shows "\<exists>s1. putref_page (Some i) s = map_option (\<lambda>s2. s2\<lparr>pm_pages := (pm_pages s2)(i := None)\<rparr>) (putref_page (pg_next p) s1) \<and>
    pm_ok s1 \<and> length (pm_fas s1) = length (pm_fas s) \<and> pm_pages s1 = (pm_pages s)(i \<mapsto> p\<lparr>pg_refs := 0\<rparr>) \<and>
    (\<forall>j. fa_base (pm_fas s1 ! j) = fa_base (pm_fas s ! j)) \<and>
    fa_used (pm_fas s1 ! k) = fa_used (pm_fas s ! k) - {f} \<and> (\<forall>j. j \<noteq> k \<longrightarrow> pm_fas s1 ! j = pm_fas s ! j)"
proof -
  let ?s = "set_page i (\<lambda>p. p\<lparr>pg_refs := pg_refs p - 1\<rparr>) s"
  have ok: "pm_ok ?s" using assms(1) pm_ok_cong [of ?s s] by simp
  have own: "k < length (pm_fas s)" "f \<in> fa_used (pm_fas s ! k)" "pg_refs p = 1" "pg_owner p = OwnerFa k"
     "pg_address p = frame_addr (pm_fas s ! k) f" "pg_flags p AND PG_COW = 0" "pg_flags p AND PG_OWNING \<noteq> 0"
     "pg_flags_to_size (pg_flags p) = PAGE_SIZE"
    using assms(2,3) by (simp_all add: owns_frame_def)
  obtain fa c where fa: "release_frame p ?s = Some (set_fa k fa c ?s)" "fa_used fa = fa_used (pm_fas s ! k) - {f}"
    "fa_base fa = fa_base (pm_fas s ! k)" "pm_ok (set_fa k fa c ?s)"
    using release_frame_owned [OF ok, of k f p] own by auto
  have "putref_page (Some i) s = map_option (\<lambda>s2. s2\<lparr>pm_pages := (pm_pages s2)(i := None)\<rparr>) (putref_page (pg_next p) (set_fa k fa c ?s))"
    using putref_page_simps(3) [OF assms(3) own(3,6,7)] fa(1) by (auto split: bind_split)
  then show ?thesis using fa own assms(3)
    by (intro exI [of _ "set_fa k fa c ?s"]) (auto simp: nth_list_update)
qed




section \<open>A small memory\<close>

text \<open>
  A memory for examples: one allocator of four frames in the high zone, the first \<open>n\<close> of them in use,
  before the first thread exists.
\<close>

definition sample_fa :: "nat \<Rightarrow> frame_allocator" where
  "sample_fa n = \<lparr>fa_base = 0x200000000, fa_size = 0x4000, fa_free = of_nat (4096 * (4 - n)), fa_lock = mtx_init 0x10 MTX_SPIN,
     fa_data = \<lparr>bm_map = [mask n], bm_size = 8, bm_free = 4, bm_used = 0\<rparr>\<rparr>"

definition sample_mem :: "nat \<Rightarrow> (nat \<rightharpoonup> page) \<Rightarrow> pmem" where
  "sample_mem n P = \<lparr>pm_zones = \<lparr>mz_fas = [sample_fa n], mz_zones = (\<lambda>t. if t = ZONE_TYPE_HIGH then [0] else []), mz_page_count = (\<lambda>_. 4)\<rparr>,
     pm_ctx = \<lparr>c_thread = 0, c_intr = True, c_saved = False, c_claims = None, c_lock_count = 0, c_spin_count = 0, c_crit = 0\<rparr>,
     pm_pages = P, pm_ptes = Map.empty, pm_fresh = 100\<rparr>"

definition sample_page :: "nat \<Rightarrow> u32 \<Rightarrow> nat option \<Rightarrow> page" where
  "sample_page f flags link = \<lparr>pg_address = 0x200000000 + of_nat (4096 * f), pg_flags = PG_OWNING OR flags, pg_lock = mtx_init 0x20 MTX_SPIN,
     pg_count = (if flags = PG_HEAD then 2 else 0), pg_contiguous = (flags = PG_HEAD), pg_owner = OwnerFa 0, pg_entries = [], pg_next = link, pg_refs = 1\<rparr>"

lemma sample_simps [simp]:
  "pm_fas (sample_mem n P) = [sample_fa n]" "pm_pages (sample_mem n P) = P" "pg_next (sample_page f flags link) = link"
  by (simp_all add: sample_mem_def sample_page_def)

lemma sample_wf:
  assumes "n \<le> 4"
  shows "fa_wf (sample_fa n)" and "fa_used (sample_fa n) = {..<n}"
proof -
  have used: "fa_used (sample_fa n) = {..<n}"
    using assms by (auto simp: fa_used_def sample_fa_def bits_of_def bit_at_def bit_mask_iff)
  have "spin_idle (mtx_init 0x10 MTX_SPIN)" by code_simp
  moreover have "unat (of_nat (4096 * (4 - n)) :: u64) = 4096 * (4 - n)" by (subst unat_of_nat) simp
  moreover have "fa_frames (sample_fa n) = 4" by (simp add: fa_frames_def sample_fa_def)
  ultimately show "fa_wf (sample_fa n)"
    using used assms by (simp only: fa_wf_def used) (simp add: sample_fa_def bitmap_ok_def bm_cap_def)
  show "fa_used (sample_fa n) = {..<n}" by (rule used)
qed

lemma sample_ok: "n \<le> 4 \<Longrightarrow> pm_ok (sample_mem n P)" "pm_live (sample_mem n P)"
  by (simp_all add: pm_ok_def pm_live_def sample_mem_def sample_wf spin_ctx_def) (simp add: sample_fa_def)

theorem alloc_pages_lowest_frame_witness:
  "\<exists>s'. alloc_pages 1 (sample_mem 2 Map.empty) = Some (100, s') \<and>
     pm_pages s' = [100 \<mapsto> one_page 0x200002000 0 100] \<and> fa_used (pm_fas s' ! 0) = {..<3}"
proof -
  let ?s = "sample_mem 2 Map.empty"
  have "find (has_free ?s) (zone_preference ?s) = Some 0"
    by (simp add: zone_preference_def sample_mem_def has_free_def sample_fa_def)
  moreover have "pm_ok ?s" "pm_live ?s" by (simp_all add: sample_ok)
  ultimately obtain f s' where s': "alloc_pages 1 ?s = Some (pm_fresh ?s, s')" "took_frame ?s 0 f s'"
    using alloc_pages_lowest_frame [of ?s] by (simp only: option.case) blast
  have fresh: "pm_fresh ?s = 100" by (simp add: sample_mem_def)
  have used: "fa_used (sample_fa 2) = {..<2}" by (rule sample_wf(2)) simp
  have "f \<notin> {..<2}" "\<forall>j<f. j \<in> {..<2}" using s'(2) by (simp_all add: took_frame_def used)
  then have f: "f = 2" by (metis lessThan_iff less_irrefl linorder_neqE_nat)
  have "pm_pages s' = [100 \<mapsto> one_page (frame_addr (sample_fa 2) f) 0 100]" "fa_used (pm_fas s' ! 0) = insert f (fa_used (sample_fa 2))"
    using s'(2) fresh by (simp_all add: took_frame_def)
  moreover have "frame_addr (sample_fa 2) f = 0x200002000" by (simp add: f frame_addr_def sample_fa_def)
  ultimately have "pm_pages s' = [100 \<mapsto> one_page 0x200002000 0 100]" "fa_used (pm_fas s' ! 0) = {..<3}"
    by (simp_all add: f used lessThan_Suc [symmetric])
  then show ?thesis using s'(1) fresh by auto
qed


section \<open>Allocation of several pages\<close>

definition page_at :: "u64 \<Rightarrow> u32 \<Rightarrow> page_owner \<Rightarrow> nat \<Rightarrow> nat option \<Rightarrow> page" where
  "page_at address flags owner i link = \<lparr>pg_address = address, pg_flags = flags, pg_lock = mtx_init (of_nat i) MTX_SPIN, pg_count = 0,
     pg_contiguous = False, pg_owner = owner, pg_entries = [], pg_next = link, pg_refs = 1\<rparr>"

lemma alloc_loop_frame [simp]:
  "pm_zones (alloc_loop sz flags owner n address prev s) = pm_zones s"
  "pm_ctx (alloc_loop sz flags owner n address prev s) = pm_ctx s"
  "pm_fresh (alloc_loop sz flags owner n address prev s) = pm_fresh s + n"
  by (induction n arbitrary: address prev s) (simp_all add: link_after_def new_page_def split: option.split)

lemma alloc_loop_old:
  assumes "i < pm_fresh s" "case prev of None \<Rightarrow> True | Some l \<Rightarrow> l < pm_fresh s"
  shows "pm_pages (alloc_loop sz flags owner n address prev s) i =
    (if prev = Some i \<and> 0 < n then map_option (\<lambda>p. p\<lparr>pg_next := Some (pm_fresh s)\<rparr>) (pm_pages s i) else pm_pages s i)"
  using assms
proof (induction n arbitrary: address prev s)
  case (Suc n)
  then show ?case by (subst alloc_loop.simps, subst Suc.IH) (auto simp: link_after_def new_page_def split: option.split)
qed simp

lemma alloc_loop_new:
  assumes "j < n" "case prev of None \<Rightarrow> True | Some l \<Rightarrow> l < pm_fresh s"
  shows "pm_pages (alloc_loop sz flags owner n address prev s) (pm_fresh s + j) =
    Some (page_at (address + of_nat j * sz) flags owner (pm_fresh s + j) (if Suc j < n then Some (pm_fresh s + Suc j) else None))"
  using assms
proof (induction n arbitrary: address prev s j)
  case (Suc n)
  let ?s = "link_after prev (pm_fresh s) (new_page address flags owner s)"
  have fresh: "pm_fresh ?s = Suc (pm_fresh s)" by (simp add: link_after_def new_page_def split: option.split)
  show ?case
  proof (cases j)
    case 0
    then show ?thesis using Suc.prems(2) fresh
      by (simp add: alloc_loop_old) (auto simp: link_after_def new_page_def page_at_def split: option.split)
  next
    case (Suc j')
    then show ?thesis using Suc.IH [where j = j' and prev = "Some (pm_fresh s)" and s = ?s and address = "address + sz"] Suc.prems fresh
      by (simp add: algebra_simps)
  qed
qed simp

lemma alloc_page_structs_spec:
  assumes "0 < n" "n < 2 ^ 64"
  shows "\<exists>s'. alloc_page_structs (Some k) frame (of_nat n) sz s = Some (pm_fresh s, s') \<and> pm_zones s' = pm_zones s \<and>
    chain (pm_pages s') (Some (pm_fresh s)) [pm_fresh s..<pm_fresh s + n] \<and>
    (\<forall>j<n. map_option pg_address (pm_pages s' (pm_fresh s + j)) = Some (frame + of_nat j * sz))"
proof -
  have u: "unat (of_nat n :: u64) = n" using assms(2) by (subst unat_of_nat) simp
  then have pos: "(of_nat n :: u64) > 0" using assms(1) by (simp add: word_less_nat_alt)
  let ?f = "PG_OWNING OR size_flags sz"
  let ?s = "mark_head (pm_fresh s) (ucast (of_nat n :: u64)) True (alloc_loop sz ?f (OwnerFa k) n frame None s)"
  have call: "alloc_page_structs (Some k) frame (of_nat n) sz s = Some (pm_fresh s, ?s)"
    using pos by (simp add: alloc_page_structs_def u)
  have pg: "map_option pg_address (pm_pages ?s (pm_fresh s + j)) = Some (frame + of_nat j * sz)"
    "map_option pg_next (pm_pages ?s (pm_fresh s + j)) = Some (if Suc j < n then Some (pm_fresh s + Suc j) else None)" if "j < n" for j
    using alloc_loop_new [OF that, where prev = None and s = s and sz = sz and flags = ?f and owner = "OwnerFa k" and address = frame] by (auto simp: mark_head_def page_at_def)
  have "m \<le> n \<Longrightarrow> chain (pm_pages ?s) (if m = 0 then None else Some (pm_fresh s + n - m)) [pm_fresh s + n - m..<pm_fresh s + n]" for m
  proof (induction m)
    case (Suc m)
    have eq: "pm_fresh s + n - Suc m = pm_fresh s + (n - Suc m)" "Suc (pm_fresh s + (n - Suc m)) = pm_fresh s + n - m"
      using Suc.prems by simp_all
    then have upt: "[pm_fresh s + (n - Suc m)..<pm_fresh s + n] = (pm_fresh s + (n - Suc m)) # [pm_fresh s + n - m..<pm_fresh s + n]"
      using Suc.prems by (simp add: upt_conv_Cons)
    show ?case using Suc pg(2) [of "n - Suc m"] by (simp only: eq(1) upt) (auto split: option.splits if_splits simp: Suc_diff_Suc)
  qed simp
  from this [of n] have "chain (pm_pages ?s) (Some (pm_fresh s)) [pm_fresh s..<pm_fresh s + n]" using assms(1) by simp
  then show ?thesis using call pg(1) by (intro exI [of _ ?s]) (simp add: mark_head_def)
qed

lemma not_aligned_minus_1: "\<not> is_aligned (- 1) PAGE_SIZE"
  by (simp add: is_aligned_def PAGE_SIZE_def)

text \<open>Some word of the bitmap, the part behind the last frame included, has \<open>n\<close> clear bits in a row.\<close>

definition word_has_run :: "bitmap \<Rightarrow> nat \<Rightarrow> bool" where
  "word_has_run b n \<longleftrightarrow> (\<exists>i<length (bm_map b). \<exists>p. free_in_word (bm_map b) n i p)"

lemma bitmap_fa_alloc_several:
  assumes "fa_wf fa" "spin_ctx c" "1 < n" "n \<le> 64" "n \<le> unat (bm_free (fa_data fa))"
  shows "\<exists>r fa' c'. bitmap_fa_alloc fa c (of_nat n) PAGE_SIZE = Some (r, fa', c') \<and>
    (if word_has_run (fa_data fa) n
     then \<exists>f. r = frame_addr fa f \<and> f + n \<le> 64 * length (bm_map (fa_data fa)) \<and> {f..<f + n} \<inter> fa_used fa = {} else r = - 1)"
proof -
  let ?n = "of_nat n :: u64"
  have wf: "spin_idle (fa_lock fa)" "bitmap_ok (fa_data fa)" using assms(1) by (auto simp: fa_wf_def)
  have "unat (?n * PAGE_SIZE) = 4096 * n" using assms(3,4) by (simp add: unat_of_nat PAGE_SIZE_def unat_word_ariths)
  then have n4k: "unat (?n * PAGE_SIZE div PAGE_SIZE) = n" by (simp only: unat_div) (simp add: PAGE_SIZE_def)
  have nz: "bm_free (fa_data fa) \<noteq> 0" "?n * PAGE_SIZE div PAGE_SIZE \<noteq> 1" using assms(3,5) n4k by auto
  obtain c' where c': "spin_ctx c'" "\<And>body :: bitmap \<Rightarrow> u64 \<Rightarrow> (int \<times> bitmap \<times> u64) option. fa_locked body fa c = map_option
     (\<lambda>(r, frames, free). (r, fa\<lparr>fa_data := frames, fa_free := free\<rparr>, c')) (body (fa_data fa) (fa_free fa))"
    using fa_locked_idle [OF wf(1) assms(2)] by blast
  obtain r b where rb: "bitmap_get_set_nfree (fa_data fa) n 0 = Some (r, b)"
     "if word_has_run (fa_data fa) n
      then \<exists>f. r = int f \<and> f + n \<le> 64 * length (bm_map (fa_data fa)) \<and> {f..<f + n} \<inter> fa_used fa = {} else r = -1"
    using bitmap_get_set_nfree_short [OF wf(2) _ assms(4,5), folded word_has_run_def] assms(3)
    by (cases "word_has_run (fa_data fa) n") (fastforce simp: fa_used_def)+
  have "\<exists>fa'. bitmap_fa_alloc fa c ?n PAGE_SIZE =
      Some (if r < 0 then - 1 else fa_base fa + PAGES_TO_SIZE (word_of_int r), fa', c')"
    using nz n4k rb(1) by (simp add: bitmap_fa_alloc_def c'(2))
  then show ?thesis using rb(2) by (cases "word_has_run (fa_data fa) n") (auto simp: PAGES_TO_SIZE_of_nat frame_addr_def)
qed

text \<open>
  C26: When the first allocator of a zone has enough free memory for several pages but no run of free
  frames for them, the allocation neither fails nor goes on to the next allocator. Either the -1 of
  the failed search, which is only compared with 0, runs into the assertion on the alignment of the
  frame, or the search takes bits behind the last frame and the pages reach beyond the allocator's
  memory.
\<close>

theorem alloc_without_run:
  assumes "pm_ok s" "t \<noteq> MAX_ZONE_TYPE" "mz_zones (pm_zones s) t = i # rest"
    and "1 < n" "n \<le> 64" "n \<le> unat (bm_free (fa_data (pm_fas s ! i)))" "4096 * n \<le> unat (fa_free (pm_fas s ! i))"
    and fits: "unat (fa_base (pm_fas s ! i)) + 4096 * (64 * length (bm_map (fa_data (pm_fas s ! i)))) < 2 ^ 64"
    and norun: "\<forall>f. f + n \<le> fa_frames (pm_fas s ! i) \<longrightarrow> {f..<f + n} \<inter> fa_used (pm_fas s ! i) \<noteq> {}"
  shows "if word_has_run (fa_data (pm_fas s ! i)) n then
    (\<exists>f s'. alloc_pages_zone t (of_nat n) PAGE_SIZE s = Some (Some (pm_fresh s), s') \<and> fa_frames (pm_fas s ! i) < f + n \<and>
       chain (pm_pages s') (Some (pm_fresh s)) [pm_fresh s..<pm_fresh s + n] \<and>
       (\<forall>j<n. map_option pg_address (pm_pages s' (pm_fresh s + j)) = Some (frame_addr (pm_fas s ! i) (f + j))))
    else alloc_pages_zone t (of_nat n) PAGE_SIZE s = None"
proof -
  let ?fa = "pm_fas s ! i" and ?n = "of_nat n :: u64"
  have i: "i < length (pm_fas s)" using assms(1,3) by (metis list.set_intros(1) pm_ok_def)
  have wf: "fa_wf ?fa" "spin_ctx (pm_ctx s)" using assms(1) i by (auto simp: pm_ok_def)
  have u: "unat ?n = n" "unat (?n * PAGE_SIZE) = 4096 * n" using assms(4,5)
    by (simp_all add: unat_of_nat PAGE_SIZE_def unat_word_ariths)
  have nz: "?n \<noteq> 0" "fa_free ?fa \<noteq> 0" "?n * PAGE_SIZE \<le> fa_free ?fa"
    using u assms(4,7) by (auto simp: word_le_nat_alt)
  obtain r fa' c' where fa': "bitmap_fa_alloc ?fa (pm_ctx s) ?n PAGE_SIZE = Some (r, fa', c')"
    "if word_has_run (fa_data ?fa) n then \<exists>f. r = frame_addr ?fa f \<and> f + n \<le> 64 * length (bm_map (fa_data ?fa)) \<and>
       {f..<f + n} \<inter> fa_used ?fa = {} else r = - 1"
    using bitmap_fa_alloc_several [OF wf assms(4,5,6)] by blast
  have zone: "alloc_pages_zone t ?n PAGE_SIZE s = do {
      (pages, s') \<leftarrow> fa_alloc_pages i ?n PAGE_SIZE s;
      if pages \<noteq> None then Some (pages, s') else zone_loop rest ?n PAGE_SIZE s' }"
    using assms(2,3) nz i by (simp add: alloc_pages_zone_def)
  show ?thesis
  proof (cases "word_has_run (fa_data ?fa) n")
    case False
    then have "fa_alloc_pages i ?n PAGE_SIZE s = None"
      using nz i fa' not_aligned_minus_1 by (simp add: fa_alloc_pages_def valid_pg_size_def)
    then show ?thesis using zone False by simp
  next
    case True
    then obtain f where f: "r = frame_addr ?fa f" "f + n \<le> 64 * length (bm_map (fa_data ?fa))" "{f..<f + n} \<inter> fa_used ?fa = {}"
      using fa'(2) by auto
    have "unat (fa_base ?fa) + 4096 * f < 2 ^ 64" using f(2) fits by simp
    note ok = frame_addr_aligned [OF wf(1) this]
    obtain s' where s': "alloc_page_structs (Some i) r ?n PAGE_SIZE (set_fa i fa' c' s) = Some (pm_fresh s, s')"
      "chain (pm_pages s') (Some (pm_fresh s)) [pm_fresh s..<pm_fresh s + n]"
      "\<forall>j<n. map_option pg_address (pm_pages s' (pm_fresh s + j)) = Some (r + of_nat j * PAGE_SIZE)"
      using alloc_page_structs_spec [of n i r PAGE_SIZE "set_fa i fa' c' s"] assms(4,5) by auto
    have "fa_alloc_pages i ?n PAGE_SIZE s = Some (Some (pm_fresh s), s')"
      using nz i fa'(1) ok s'(1) f(1) by (simp add: fa_alloc_pages_def valid_pg_size_def set_fa_def [symmetric])
    then have "alloc_pages_zone t ?n PAGE_SIZE s = Some (Some (pm_fresh s), s')" using zone by simp
    moreover have "fa_frames ?fa < f + n" using norun f(3) by (meson not_le)
    moreover have "r + of_nat j * PAGE_SIZE = frame_addr ?fa (f + j)" for j
      by (simp add: f(1) frame_addr_def PAGE_SIZE_def algebra_simps)
    ultimately show ?thesis using s'(2,3) True by auto
  qed
qed

lemma bit_5_iff: "bit (5 :: u64) i \<longleftrightarrow> i = 0 \<or> i = 2"
  by (auto simp: bit_numeral_rec bit_1_iff split: nat.splits)

text \<open>Four frames of which the first and the third are in use.\<close>

definition holey_mem :: pmem where
  "holey_mem = set_fa 0 ((sample_fa 2)\<lparr>fa_data := \<lparr>bm_map = [5], bm_size = 8, bm_free = 4, bm_used = 0\<rparr>\<rparr>) (pm_ctx (sample_mem 2 Map.empty)) (sample_mem 2 Map.empty)"

lemma holey_mem: "pm_fas holey_mem = [(sample_fa 2)\<lparr>fa_data := \<lparr>bm_map = [5], bm_size = 8, bm_free = 4, bm_used = 0\<rparr>\<rparr>]"
    "fa_used (pm_fas holey_mem ! 0) = {0, 2}" "pm_ok holey_mem"
proof -
  let ?fa = "(sample_fa 2)\<lparr>fa_data := \<lparr>bm_map = [5], bm_size = 8, bm_free = 4, bm_used = 0\<rparr>\<rparr>"
  show fas: "pm_fas holey_mem = [?fa]" by (simp add: holey_mem_def)
  have used: "fa_used ?fa = {0, 2}" 
  proof -
    have "bit_at [5] i \<longleftrightarrow> i = 0 \<or> i = 2" for i
      by (cases "i < 64") (simp_all only: bit_at_def list.size nth_Cons_0 bit_5_iff div_less mod_less, auto)
    then show ?thesis by (auto simp: fa_used_def bits_of_def)
  qed
  then show "fa_used (pm_fas holey_mem ! 0) = {0, 2}" by (simp add: fas)
  have wf2: "fa_wf (sample_fa 2)" "fa_used (sample_fa 2) = {..<2}" by (simp_all add: sample_wf)
  have "fa_frames ?fa = fa_frames (sample_fa 2)" "fa_frames (sample_fa 2) = 4" by (simp_all add: fa_frames_def sample_fa_def)
  then have "fa_wf ?fa" using wf2 by (simp add: fa_wf_def used bitmap_ok_def bm_cap_def)
  moreover have "pm_ok (sample_mem 2 Map.empty)" by (simp add: sample_ok)
  ultimately show "pm_ok holey_mem" unfolding holey_mem_def by (intro pm_ok_set_fa) (simp_all add: pm_ok_def)
qed

theorem alloc_without_run_witness:
  "\<exists>f s'. alloc_pages_zone ZONE_TYPE_HIGH (of_nat 2) PAGE_SIZE holey_mem = Some (Some (pm_fresh holey_mem), s') \<and> 4 < f + 2 \<and>
     map_option pg_address (pm_pages s' (pm_fresh holey_mem + 1)) = Some (frame_addr (pm_fas holey_mem ! 0) (f + 1))"
proof -
  have z: "mz_zones (pm_zones holey_mem) ZONE_TYPE_HIGH = [0]" by (simp add: holey_mem_def sample_mem_def)
  have fr: "fa_frames (pm_fas holey_mem ! 0) = 4" by (simp add: holey_mem fa_frames_def sample_fa_def)
  have run: "{f..<f + 2} \<inter> {0, 2} \<noteq> {}" if "f + 2 \<le> 4" for f :: nat
  proof -
    have "f = 0 \<or> f = 1 \<or> f = 2" using that by linarith
    then show ?thesis by auto
  qed
  have "free_in_word [5] 2 0 3" by (simp only: free_in_word_def nth_Cons_0 bit_5_iff) simp
  then have w: "word_has_run (fa_data (pm_fas holey_mem ! 0)) 2" by (auto simp: word_has_run_def holey_mem(1))
  have h: "1 < (2 :: nat)" "2 \<le> (64 :: nat)" "2 \<le> unat (bm_free (fa_data (pm_fas holey_mem ! 0)))" "4096 * 2 \<le> unat (fa_free (pm_fas holey_mem ! 0))"
    "unat (fa_base (pm_fas holey_mem ! 0)) + 4096 * (64 * length (bm_map (fa_data (pm_fas holey_mem ! 0)))) < 2 ^ 64"
    by (simp_all add: holey_mem(1) sample_fa_def)
  have r: "\<forall>f. f + 2 \<le> fa_frames (pm_fas holey_mem ! 0) \<longrightarrow> {f..<f + 2} \<inter> fa_used (pm_fas holey_mem ! 0) \<noteq> {}"
    unfolding holey_mem(2) fr using run by blast
  obtain f s' where s': "alloc_pages_zone ZONE_TYPE_HIGH (of_nat 2) PAGE_SIZE holey_mem = Some (Some (pm_fresh holey_mem), s')"
    "4 < f + 2" "\<forall>j<2. map_option pg_address (pm_pages s' (pm_fresh holey_mem + j)) = Some (frame_addr (pm_fas holey_mem ! 0) (f + j))"
    using alloc_without_run [OF holey_mem(3) zone_type.distinct(19) z h r] w unfolding fr by (simp only: if_True) blast
  have "map_option pg_address (pm_pages s' (pm_fresh holey_mem + 1)) = Some (frame_addr (pm_fas holey_mem ! 0) (f + 1))"
    by (rule s'(3) [rule_format]) simp
  then show ?thesis using s'(1,2) by blast
qed

section \<open>Shared lists\<close>

lemma link_after_same: "pm_pages s l = Some p \<Longrightarrow> pg_next p = Some i \<Longrightarrow> link_after (Some l) i s = s"
  by (simp add: link_after_def set_page_def fun_upd_idem)

definition ref_all :: "nat list \<Rightarrow> (nat \<rightharpoonup> page) \<Rightarrow> nat \<rightharpoonup> page" where
  "ref_all is P i = (if i \<in> set is then map_option (\<lambda>p. p\<lparr>pg_refs := pg_refs p + 1\<rparr>) (P i) else P i)"

lemma shared_loop_chain:
  assumes "chain (pm_pages s) ref is" "distinct is"
    "case prev of None \<Rightarrow> True | Some l \<Rightarrow> l \<notin> set is \<and> map_option pg_next (pm_pages s l) = Some ref"
  shows "shared_loop ref prev s = Some (s\<lparr>pm_pages := ref_all is (pm_pages s)\<rparr>)"
  using assms
proof (induction "is" arbitrary: ref prev s)
  case Nil
  then show ?case by (simp add: shared_loop.simps [of None] ref_all_def)
next
  case (Cons i "is")
  obtain p where p: "pm_pages s i = Some p" "ref = Some i" "chain (pm_pages s) (pg_next p) is"
    using Cons.prems(1) by (auto split: option.splits)
  let ?s = "get_page_ref i s"
  have link: "link_after prev i ?s = ?s"
  proof (cases prev)
    case (Some l)
    then obtain q where "pm_pages ?s l = Some q" "pg_next q = Some i" using Cons.prems(3) p(2) by (auto simp: get_page_ref_def)
    then show ?thesis using link_after_same Some by blast
  qed (simp add: link_after_def)
  have "shared_loop (pg_next p) (Some i) ?s = Some (?s\<lparr>pm_pages := ref_all is (pm_pages ?s)\<rparr>)"
  proof (rule Cons.IH)
    show "chain (pm_pages ?s) (pg_next p) is"
      using p(3) Cons.prems(2) by (subst chain_cong [of _ _ "pm_pages s"]) (auto simp: get_page_ref_def)
  qed (use Cons.prems(2) p(1) in \<open>auto simp: get_page_ref_def\<close>)
  moreover have "?s\<lparr>pm_pages := ref_all is (pm_pages ?s)\<rparr> = s\<lparr>pm_pages := ref_all (i # is) (pm_pages s)\<rparr>"
    using Cons.prems(2) p(1) by (auto simp: get_page_ref_def set_page_def ref_all_def fun_eq_iff)
  ultimately show ?case using p(1,2) link by (simp add: shared_loop.simps [of "Some i"])
qed

text \<open>
  C28: Sharing a list takes a reference on every page of it, but dropping a reference releases only the
  head while the head is still in use. After the list was shared once and dropped twice only the head
  and its frame are gone: every other page is still there, with a count of at least one, and so is its
  frame, although nothing refers to it any more.
\<close>

theorem shared_pages_leak:
  assumes "pm_ok s" "chain (pm_pages s) (Some h) (h # is)" "distinct (h # is)" "owns_frame s h (k, f)"
    "map_option (\<lambda>p. pg_flags p AND PG_HEAD) (pm_pages s h) = Some PG_HEAD"
    "\<forall>j\<in>set is. map_option pg_refs (pm_pages s j) = Some 1"
  shows "\<exists>s1 s2 s3. alloc_shared_pages h s = Some (h, s1) \<and> Page_Alloc.drop_pages (Some h) s1 = Some s2 \<and>
    Page_Alloc.drop_pages (Some h) s2 = Some s3 \<and> pm_pages s3 h = None \<and>
    (\<forall>j\<in>set is. map_option pg_refs (pm_pages s3 j) = Some (if j = hd is then 1 else 2)) \<and>
    fa_used (pm_fas s3 ! k) = fa_used (pm_fas s ! k) - {f} \<and> (\<forall>j. j \<noteq> k \<longrightarrow> pm_fas s3 ! j = pm_fas s ! j)"
proof -
  obtain p where p: "pm_pages s h = Some p" "pg_refs p = 1" "chain (pm_pages s) (pg_next p) is"
    using assms(2,4) by (auto simp: owns_frame_def split: option.splits)
  define s1 where "s1 = s\<lparr>pm_pages := ref_all (h # is) (pm_pages s)\<rparr>"
  define s2 where "s2 = s\<lparr>pm_pages := ref_all is (pm_pages s)\<rparr>"
  have "pg_flags p AND PG_HEAD \<noteq> 0" using assms(5) p(1) by (simp add: PG_HEAD_def)
  then have share: "alloc_shared_pages h s = Some (h, s1)"
    using shared_loop_chain [OF assms(2,3), of None] p(1)
    by (simp add: alloc_shared_pages_def alloc_shared_structs_def s1_def)
  have "set_page h (\<lambda>p. p\<lparr>pg_refs := pg_refs p - 1\<rparr>) s1 = s2"
    using p(1) assms(3) by (auto simp: s1_def s2_def set_page_def ref_all_def fun_eq_iff)
  then have drop1: "Page_Alloc.drop_pages (Some h) s1 = Some s2"
    using putref_page_simps(2) [of s1 h "p\<lparr>pg_refs := 2\<rparr>"] p by (simp add: drop_pages_def s1_def ref_all_def)
  have s2h: "pm_pages s2 h = Some p" using p(1) assms(3) by (simp add: s2_def ref_all_def)
  have "pm_ok s2" using assms(1) pm_ok_cong [of s2 s] by (simp add: s2_def)
  moreover have "owns_frame s2 h (k, f)" using assms(4) s2h p(1) by (simp add: owns_frame_def) (simp add: s2_def)
  ultimately obtain s3 where s3: "putref_page (Some h) s2 = map_option (\<lambda>s'. s'\<lparr>pm_pages := (pm_pages s')(h := None)\<rparr>) (putref_page (pg_next p) s3)"
    "pm_pages s3 = (pm_pages s2)(h \<mapsto> p\<lparr>pg_refs := 0\<rparr>)"
    "fa_used (pm_fas s3 ! k) = fa_used (pm_fas s2 ! k) - {f}" "\<forall>j. j \<noteq> k \<longrightarrow> pm_fas s3 ! j = pm_fas s2 ! j"
    using putref_owned [OF _ _ s2h] by blast
  have refs: "map_option pg_refs (pm_pages s3 j) = Some 2" if "j \<in> set is" for j
    using that assms(3,6) by (auto simp: s3(2) s2_def ref_all_def)
  have "\<exists>s4. putref_page (pg_next p) s3 = Some s4 \<and> pm_zones s4 = pm_zones s3 \<and>
      (\<forall>j\<in>set is. map_option pg_refs (pm_pages s4 j) = Some (if j = hd is then 1 else 2))"
  proof (cases "is")
    case Nil
    then show ?thesis using p(3) by (simp add: putref_page_simps)
  next
    case (Cons j js)
    then obtain q where q: "pg_next p = Some j" "pm_pages s3 j = Some q" "pg_refs q = 2" using p(3) refs [of j] by auto
    then have "putref_page (pg_next p) s3 = Some (set_page j (\<lambda>p. p\<lparr>pg_refs := pg_refs p - 1\<rparr>) s3)"
      by (simp add: putref_page_simps(2))
    then show ?thesis using q refs Cons by auto
  qed
  then obtain s4 where s4: "putref_page (pg_next p) s3 = Some s4" "pm_zones s4 = pm_zones s3"
    "\<forall>j\<in>set is. map_option pg_refs (pm_pages s4 j) = Some (if j = hd is then 1 else 2)" by blast
  let ?s = "s4\<lparr>pm_pages := (pm_pages s4)(h := None)\<rparr>"
  have "Page_Alloc.drop_pages (Some h) s2 = Some ?s" using s3(1) s4(1) by (simp add: drop_pages_def)
  moreover have "\<forall>j\<in>set is. map_option pg_refs (pm_pages ?s j) = Some (if j = hd is then 1 else 2)" using s4(3) assms(3) by auto
  moreover have "pm_fas s2 = pm_fas s" by (simp add: s2_def)
  ultimately show ?thesis using share drop1 s3(3,4) s4(2) by auto
qed

theorem shared_pages_leak_witness:
  "\<exists>s1 s2 s3. alloc_shared_pages 7 (sample_mem 3 [7 \<mapsto> sample_page 0 PG_HEAD (Some 8), 8 \<mapsto> sample_page 2 0 None]) = Some (7, s1) \<and>
     Page_Alloc.drop_pages (Some 7) s1 = Some s2 \<and> Page_Alloc.drop_pages (Some 7) s2 = Some s3 \<and>
     map_option pg_refs (pm_pages s3 8) = Some 1 \<and> fa_used (pm_fas s3 ! 0) = {..<3} - {0}"
proof -
  let ?s = "sample_mem 3 [7 \<mapsto> sample_page 0 PG_HEAD (Some 8), 8 \<mapsto> sample_page 2 0 None]"
  have own: "owns_frame ?s 7 (0, 0)"
    by (simp add: owns_frame_def sample_wf)
       (simp add: sample_page_def sample_fa_def frame_addr_def pg_flags_to_size_def PG_OWNING_def PG_COW_def PG_HEAD_def PG_BIGPAGE_def PG_HUGEPAGE_def)
  have "chain (pm_pages ?s) (Some 7) [7, 8]" "distinct [7, 8 :: nat]" "\<forall>j\<in>set [8]. map_option pg_refs (pm_pages ?s j) = Some 1"
    "map_option (\<lambda>p. pg_flags p AND PG_HEAD) (pm_pages ?s 7) = Some PG_HEAD" "fa_used (pm_fas ?s ! 0) = {..<3}" "pm_ok ?s"
    by (simp_all add: sample_wf sample_ok) (simp_all add: sample_page_def PG_OWNING_def PG_HEAD_def)
  note sample = this
  show ?thesis using shared_pages_leak [OF sample(6,1,2) own sample(4,3)] sample(5) by auto
qed

section \<open>Splitting and joining lists\<close>

lemma split_walk_chain:
  "chain (pm_pages s) ref (xs @ t # ys) \<Longrightarrow>
     split_walk (length xs) prev ref s = Some (if xs = [] then prev else Some (last xs), Some t)"
  by (induction xs arbitrary: ref prev) (auto split: option.splits)

lemma page_last_chain: "chain (pm_pages s) (Some h) xs \<Longrightarrow> page_last h s = Some (last xs)"
proof (induction xs arbitrary: h)
  case (Cons x xs)
  then obtain p where p: "pm_pages s x = Some p" "h = x" "chain (pm_pages s) (pg_next p) xs" by (auto split: option.splits)
  show ?case
  proof (cases xs)
    case Nil
    then show ?thesis using p by (simp add: page_last.simps [of x])
  next
    case (Cons y ys)
    then have "pg_next p = Some y" using p(3) by simp
    then show ?thesis using p Cons.IH [of y] Cons by (simp add: page_last.simps [of x])
  qed
qed simp

lemma chain_cut:
  assumes "chain P ref (xs @ ys)" "distinct xs" "xs \<noteq> []"
    "\<And>i. i \<in> set (butlast xs) \<Longrightarrow> map_option pg_next (Q i) = map_option pg_next (P i)" "map_option pg_next (Q (last xs)) = Some None"
  shows "chain Q ref xs"
  using assms
proof (induction xs arbitrary: ref)
  case (Cons x xs)
  show ?case
  proof (cases "xs = []")
    case True
    then show ?thesis using Cons.prems by (auto split: option.splits)
  next
    case False
    have eq: "map_option pg_next (Q x) = map_option pg_next (P x)" using Cons.prems(4) [of x] False by simp
    obtain p where p: "P x = Some p" "ref = Some x" "chain P (pg_next p) (xs @ ys)" using Cons.prems(1) by (auto split: option.splits)
    have "chain Q (pg_next p) xs" using Cons.prems False p(3) by (intro Cons.IH) auto
    then show ?thesis using eq p by (auto split: option.splits)
  qed
qed simp

lemma or_xor_cancel: "x AND m = 0 \<Longrightarrow> (x OR m) XOR m = (x :: 'a::len word)"
  by (rule bit_word_eqI) (metis bit_and_iff bit_or_iff bit_xor_iff bit_0_eq bot_apply bot_bool_def)

lemma or_and_nonzero: "m \<noteq> 0 \<Longrightarrow> (x OR m) AND m \<noteq> (0 :: 'a::len word)"
  by (simp add: or_and_self)

lemma ucast_count:
  assumes "n < 2 ^ 63"
  shows "(ucast (of_nat n :: 63 word) :: u64) = of_nat n" "(ucast (of_nat n :: u64) :: 63 word) = of_nat n"
proof -
  have "unat (of_nat n :: 63 word) = n" "unat (of_nat n :: u64) = n" using assms by (simp_all add: unat_of_nat)
  then show "(ucast (of_nat n :: 63 word) :: u64) = of_nat n" "(ucast (of_nat n :: u64) :: 63 word) = of_nat n"
    by (metis of_nat_unat)+
qed

text \<open>What splitting the list behind \<open>last xs\<close> does to the pages.\<close>

definition split_pages :: "nat \<Rightarrow> nat \<Rightarrow> nat \<Rightarrow> 63 word \<Rightarrow> 63 word \<Rightarrow> bool \<Rightarrow> (nat \<rightharpoonup> page) \<Rightarrow> nat \<rightharpoonup> page" where
  "split_pages h l t c d contig P =
     (let P1 = P(t := map_option (\<lambda>p. p\<lparr>pg_flags := pg_flags p OR PG_HEAD, pg_count := d, pg_contiguous := contig\<rparr>) (P t));
          P2 = P1(h := map_option (\<lambda>p. p\<lparr>pg_count := c\<rparr>) (P1 h)) in
      P2(l := map_option (\<lambda>p. p\<lparr>pg_next := None\<rparr>) (P2 l)))"

lemma page_list_split_pages:
  assumes "chain (pm_pages s) (Some h) (xs @ t # ys)" "distinct (xs @ t # ys)" "xs \<noteq> []"
    and ph: "pm_pages s h = Some ph" "pg_flags ph AND PG_HEAD \<noteq> 0" "pg_count ph = of_nat (length (xs @ t # ys))"
    and "length (xs @ t # ys) < 2 ^ 63" "pm_pages s t = Some pt" "pg_refs pt \<noteq> 0"
  shows "page_list_split (Some h) (of_nat (length xs)) s = Some (Some h, Some (Some t),
    s\<lparr>pm_pages := split_pages h (last xs) t (of_nat (length xs)) (of_nat (Suc (length ys))) (pg_contiguous ph) (pm_pages s)\<rparr>)"
proof -
  define N where "N = length (xs @ t # ys)"
  let ?c = "of_nat (length xs) :: u64" and ?d = "of_nat (Suc (length ys)) :: 63 word"
  have N: "N = length xs + Suc (length ys)" "N < 2 ^ 63" "0 < length xs" using assms(3,7) by (simp_all add: N_def)
  have cnt: "ucast (pg_count ph) = (of_nat N :: u64)" using ucast_count(1) [OF N(2)] ph(3) by (simp only: N_def)
  have c: "ucast ?c = (of_nat (length xs) :: 63 word)" using N by (intro ucast_count(2)) simp
  have "(of_nat N :: u64) - ?c = of_nat (Suc (length ys))" using N(1) by simp
  then have d: "ucast ((of_nat N :: u64) - ?c) = ?d" using ucast_count(2) [of "Suc (length ys)"] N(1,2) by simp
  have u: "unat ?c = length xs" "unat (of_nat N :: u64) = N" using N by (subst unat_of_nat, simp)+
  have "unat ?c \<noteq> unat (of_nat N :: u64)" "unat ?c \<noteq> 0" "unat ?c \<le> unat (of_nat N :: u64)" unfolding u using N by simp_all
  then have cmp: "?c \<noteq> 0" "?c \<le> of_nat N" "(of_nat N :: u64) \<noteq> ?c" by (simp_all only: word_le_nat_alt) auto
  have walk: "split_walk (unat ?c) None (Some h) s = Some (Some (last xs), Some t)"
    using split_walk_chain [OF assms(1), of None] assms(3) by (simp add: u(1))
  have neq: "t \<noteq> h" "t \<noteq> last xs" using assms(1-3) by (cases xs; auto)+
  define s2 where "s2 = set_page h (\<lambda>p. p\<lparr>pg_count := ucast ?c\<rparr>)
    (mark_head t (ucast ((of_nat N :: u64) - ?c)) (pg_contiguous ph) (get_page_ref t s))"
  have "pm_pages s2 t = Some (pt\<lparr>pg_refs := pg_refs pt + 1, pg_flags := pg_flags pt OR PG_HEAD, pg_count := ?d, pg_contiguous := pg_contiguous ph\<rparr>)"
    using assms(8) neq by (simp add: s2_def mark_head_def get_page_ref_def d del: of_nat_Suc)
  then have put: "putref_page (Some t) s2 = Some (set_page t (\<lambda>p. p\<lparr>pg_refs := pg_refs p - 1\<rparr>) s2)"
    using assms(9) by (intro putref_page_simps(2)) auto
  have "set_page (last xs) (\<lambda>p. p\<lparr>pg_next := None\<rparr>) (set_page t (\<lambda>p. p\<lparr>pg_refs := pg_refs p - 1\<rparr>) s2) =
      s\<lparr>pm_pages := split_pages h (last xs) t (of_nat (length xs)) ?d (pg_contiguous ph) (pm_pages s)\<rparr>"
    using neq assms(8) ph(1)
    by (auto simp: s2_def set_page_def mark_head_def get_page_ref_def split_pages_def c d fun_eq_iff Let_def simp del: of_nat_Suc)
  then show ?thesis using ph cmp cnt walk assms(8) put
    by (simp add: page_list_split_def s2_def [symmetric] del: of_nat_Suc)
qed

lemma chain_last_next:
  "chain P ref (xs @ t # ys) \<Longrightarrow> xs \<noteq> [] \<Longrightarrow> map_option pg_next (P (last xs)) = Some (Some t)"
  by (induction xs arbitrary: ref) (auto split: option.splits if_splits)

lemma chain_suffix: "chain P ref (xs @ t # ys) \<Longrightarrow> chain P (Some t) (t # ys)"
proof (induction xs arbitrary: ref)
  case (Cons x xs)
  from Cons.prems obtain r where "chain P r (xs @ t # ys)" by (auto split: option.splits)
  then show ?case by (rule Cons.IH)
qed simp

text \<open>
  C10: Splitting the first pages off a list leaves two lists, of exactly these pages and of the others,
  each with its head and count, and joining the two again restores the memory to what it was: every
  page with its flags, links, counts and references. The list must be well-formed: its head has the
  count, no later page is marked as a head, and a list marked contiguous is contiguous where it is cut.
\<close>

theorem page_list_split_join:
  assumes ch: "chain (pm_pages s) (Some h) (xs @ t # ys)" "distinct (xs @ t # ys)" "xs \<noteq> []"
    and ph: "pm_pages s h = Some ph" "pg_flags ph AND PG_HEAD \<noteq> 0" "pg_count ph = of_nat (length (xs @ t # ys))"
    and len: "length (xs @ t # ys) < 2 ^ 63"
    and pt: "pm_pages s t = Some pt" "pg_refs pt \<noteq> 0" "pg_flags pt AND PG_HEAD = 0" "pg_count pt = 0" "\<not> pg_contiguous pt"
    and pl: "pm_pages s (last xs) = Some pl"
      "pg_contiguous ph \<Longrightarrow> pg_address pl + pg_flags_to_size (pg_flags ph) = pg_address pt"
  shows "\<exists>s1. page_list_split (Some h) (of_nat (length xs)) s = Some (Some h, Some (Some t), s1) \<and>
    chain (pm_pages s1) (Some h) xs \<and> chain (pm_pages s1) (Some t) (t # ys) \<and>
    map_option pg_count (pm_pages s1 h) = Some (of_nat (length xs)) \<and>
    map_option pg_count (pm_pages s1 t) = Some (of_nat (length (t # ys))) \<and>
    map_option (\<lambda>p. pg_flags p AND PG_HEAD \<noteq> 0) (pm_pages s1 t) = Some True \<and>
    page_list_join (Some h) (Some t) s1 = Some (Some h, s)"
proof -
  let ?c = "of_nat (length xs) :: 63 word" and ?d = "of_nat (Suc (length ys)) :: 63 word"
  define s1 where "s1 = s\<lparr>pm_pages := split_pages h (last xs) t ?c ?d (pg_contiguous ph) (pm_pages s)\<rparr>"
  have split: "page_list_split (Some h) (of_nat (length xs)) s = Some (Some h, Some (Some t), s1)"
    using page_list_split_pages [OF ch ph len pt(1,2)] by (simp only: s1_def)
  have "h \<in> set xs" "last xs \<in> set xs" using ch(1,3) by (cases xs; simp)+
  then have neq: "t \<noteq> h" "t \<noteq> last xs" "last xs \<notin> set (t # ys)" using ch(2) by auto
  have nl: "pg_next pl = Some t" using chain_last_next [OF ch(1,3)] pl(1) by simp
  have s1: "pm_pages s1 t = Some (pt\<lparr>pg_flags := pg_flags pt OR PG_HEAD, pg_count := ?d, pg_contiguous := pg_contiguous ph\<rparr>)"
    "map_option pg_next (pm_pages s1 (last xs)) = Some None" "map_option pg_address (pm_pages s1 (last xs)) = Some (pg_address pl)"
    "map_option pg_flags (pm_pages s1 h) = Some (pg_flags ph)" "map_option pg_count (pm_pages s1 h) = Some ?c"
    using neq pt(1) pl(1) ph(1) unfolding s1_def split_pages_def Let_def by (simp_all del: of_nat_Suc) auto
  have links: "map_option pg_next (pm_pages s1 i) = map_option pg_next (pm_pages s i)" if "i \<noteq> last xs" for i
    using that by (auto simp: s1_def split_pages_def Let_def option.map_comp comp_def)
  have "last xs \<notin> set (butlast xs)" using ch(2,3) by (metis append_butlast_last_id distinct_append not_distinct_conv_prefix)
  then have c1: "chain (pm_pages s1) (Some h) xs"
    using ch(2) links by (intro chain_cut [where Q = "pm_pages s1", OF ch(1) _ ch(3) _ s1(2)]) (simp, metis)
  have "chain (pm_pages s1) (Some t) (t # ys) \<longleftrightarrow> chain (pm_pages s) (Some t) (t # ys)"
    using neq(3) by (intro chain_cong links) metis
  then have c2: "chain (pm_pages s1) (Some t) (t # ys)" using chain_suffix [OF ch(1)] by blast
  obtain hp lp where hp: "pm_pages s1 h = Some hp" "pg_flags hp = pg_flags ph" "pg_count hp = ?c"
    and lp: "pm_pages s1 (last xs) = Some lp" "pg_address lp = pg_address pl" using s1(3-5) by auto
  have cnt: "?c + ?d = pg_count ph" using ph(3) by simp
  have contig: "(pg_address pl + pg_flags_to_size (pg_flags ph) = pg_address pt \<and> pg_contiguous ph) = pg_contiguous ph" using pl(2) by auto
  have head: "(pg_flags pt OR PG_HEAD) AND PG_HEAD \<noteq> 0" "(pg_flags pt OR PG_HEAD) XOR PG_HEAD = pg_flags pt"
    using or_xor_cancel [OF pt(3)] or_and_nonzero [of PG_HEAD] by (simp_all add: PG_HEAD_def)
  let ?P = "\<lambda>s. set_page (last xs) (\<lambda>p. p\<lparr>pg_next := Some t\<rparr>) (set_page t (\<lambda>p. p\<lparr>pg_flags := pg_flags p XOR PG_HEAD, pg_count := 0, pg_contiguous := False\<rparr>)
    (set_page h (\<lambda>p. p\<lparr>pg_count := pg_count ph, pg_contiguous := pg_contiguous ph\<rparr>) s))"
  have join: "page_list_join (Some h) (Some t) s1 = Some (Some h, ?P s1)"
    using hp lp s1(1) ph(2) head(1) page_last_chain [OF c1] by (simp add: page_list_join_def cnt contig del: of_nat_Suc)
  have "pm_pages (?P s1) i = pm_pages s i" for i
    using neq pt pl(1) ph(1) nl head(2) by (cases "i = t"; cases "i = h"; cases "i = last xs") (simp_all add: s1_def split_pages_def Let_def)
  then have "?P s1 = s" by (simp add: set_page_def s1_def fun_eq_iff)
  then show ?thesis using split c1 c2 join s1(1,5) head(1) by auto
qed

theorem page_list_split_join_witness:
  "\<exists>s s1. chain (pm_pages s) (Some 7) [7, 8] \<and> page_list_split (Some 7) (of_nat (length [7 :: nat])) s = Some (Some 7, Some (Some 8), s1) \<and>
     chain (pm_pages s1) (Some 7) [7] \<and> page_list_join (Some 7) (Some 8) s1 = Some (Some 7, s)"
proof -
  let ?h = "sample_page 0 PG_HEAD (Some 8)" and ?t = "sample_page 1 0 None"
  let ?s = "sample_mem 2 [7 \<mapsto> ?h, 8 \<mapsto> ?t]"
  have "chain (pm_pages ?s) (Some 7) ([7] @ 8 # [])" "distinct ([7] @ 8 # [] :: nat list)" "[7 :: nat] \<noteq> []"
    "pm_pages ?s 7 = Some ?h" "pg_flags ?h AND PG_HEAD \<noteq> 0" "pg_count ?h = of_nat (length ([7] @ 8 # [] :: nat list))"
    "length ([7] @ 8 # [] :: nat list) < 2 ^ 63" "pm_pages ?s 8 = Some ?t" "pg_refs ?t \<noteq> 0" "pg_flags ?t AND PG_HEAD = 0"
    "pg_count ?t = 0" "\<not> pg_contiguous ?t" "pm_pages ?s (last [7]) = Some ?h"
    "pg_address ?h + pg_flags_to_size (pg_flags ?h) = pg_address ?t"
    by (simp_all, simp_all add: sample_page_def PG_OWNING_def PG_HEAD_def pg_flags_to_size_def PG_BIGPAGE_def PG_HUGEPAGE_def PAGE_SIZE_def)
  note sample = this
  have "chain (pm_pages ?s) (Some 7) [7, 8]" using sample(1) by (simp only: append.simps)
  then show ?thesis using page_list_split_join [OF sample(1-14)] by blast
qed

end
