(* ===== verification/Spec2Isabelle.thy ===== *)
theory Spec2Isabelle
  imports Kernel_Prelude Interfaces Bitmap Strings Paths Mutex Channel Page_Cache Vm_File Linked_List Heap_Alloc Kio Murmur3 Frame_Alloc Page_Alloc
begin

text \<open>
  A verification library for the osdev kernel, a 64-bit operating system kernel in C. It covers the
  kernel's memory management from the boot memory map up to memory files, the locks and lists below it,
  channels, paths, buffers and the routines all of these use. File names are relative to
  \<^verbatim>\<open>src\<close>; a definition has the name of the C function it translates, with a suffix where HOL
  already has the name. Loops are functions of their own, named after the function they are part of.

  \<^bold>\<open>Conventions.\<close> Machine integers are words of their width, so arithmetic wraps as in C; signed
  values that cannot overflow are integers. A structure is a record and is passed and returned; where
  pointers are shared the model has a store, a map from addresses or numbers to records. \<open>None\<close> is
  a panic, a failed assertion or undefined behaviour; error codes are ordinary results. A loop that may
  not end is a \<open>partial_function\<close>, and the theorems about it show that it returns. Function pointers
  and addresses that the allocator hands out are parameters. A handler is one step: concurrency appears
  where the code has it in the open, in the mutex theory, as sequences of steps by different threads.

  \<^bold>\<open>Theories.\<close>
  \<^item> \<open>Kernel_Prelude\<close>: word types, assertions, checked array access, \<^verbatim>\<open>base.h\<close> alignment macros and
    page sizes, with the lemmas on them that the components share.
  \<^item> \<open>Interfaces\<close>: three contracts as locales, an allocator of numbers, a bounded queue that drops
    its oldest entry, and a store with keys. They are interpreted on bitmaps, channels and page caches.
  \<^item> \<open>Bitmap\<close> (\<^verbatim>\<open>lib/bitmap.c\<close>, \<^verbatim>\<open>lib/asm/bits.asm\<close>): a bitmap as a set of indices; every operation
    is set arithmetic, and allocation takes the smallest free index.
  \<^item> \<open>Strings\<close> (\<^verbatim>\<open>kernel/string.c\<close>) over a byte memory: copying with overlap, comparison, conversion
    of numbers with sign, prefix and clamping.
  \<^item> \<open>Paths\<close> (\<^verbatim>\<open>kernel/vfs/path.c\<close>): views of a string; iteration, base name and directory.
    \<open>path_iterate\<close> has fuel, and any amount above the length of the path is shown to be enough.
  \<^item> \<open>Mutex\<close> (\<^verbatim>\<open>kernel/mutex.c\<close>, \<^verbatim>\<open>kernel/lock.c\<close>, \<^verbatim>\<open>critical_enter\<close> of \<^verbatim>\<open>kernel/proc.c\<close>): the lock
    word, recursion, claims and interrupts, and mutual exclusion over all reachable states.
  \<^item> \<open>Channel\<close> (\<^verbatim>\<open>kernel/chan.c\<close>): ring buffers guarded by those mutexes refine a queue.
  \<^item> \<open>Linked_List\<close> (\<^verbatim>\<open>include/kernel/queue.h\<close>): the list macros on a store of pointers refine
    operations on sequences. A macro argument is evaluated where the macro's text has it, which the
    ordered insertion does not survive.
  \<^item> \<open>Heap_Alloc\<close> (\<^verbatim>\<open>kernel/mm/heap.c\<close>): chunks, the free list by those macros, both locks; blocks in
    use are aligned, inside the heap and disjoint. What memory outside chunk headers holds is a
    parameter of the release, so that releasing a pointer that is no block is described too.
  \<^item> \<open>Frame_Alloc\<close> (\<^verbatim>\<open>kernel/mm/init.c\<close>, first half of \<^verbatim>\<open>kernel/mm/pmalloc.c\<close>): the boot memory map,
    early memory, frame allocators over bitmaps under spin locks, and zones.
  \<^item> \<open>Page_Alloc\<close> (second half of \<^verbatim>\<open>kernel/mm/pmalloc.c\<close>): reference counted lists of pages on frames.
  \<^item> \<open>Page_Cache\<close> (\<^verbatim>\<open>kernel/mm/pgcache.c\<close>): the radix tree refines a map from page numbers to pages.
  \<^item> \<open>Vm_File\<close> (\<^verbatim>\<open>kernel/mm/file.c\<close>): memory files as windows of shared caches; \<open>file_step\<close>
    is the relation of what may happen to a cache between two lookups.
  \<^item> \<open>Kio\<close> (\<^verbatim>\<open>kernel/kio.c\<close>): transfers between buffers over the memory of \<open>Strings\<close>.
  \<^item> \<open>Murmur3\<close> (\<^verbatim>\<open>lib/murmur3.c\<close>): the hash functions equal a reference that folds over blocks.

  \<^bold>\<open>How the parts meet.\<close> \<open>mm_early_init\<close> scans the boot memory map, picks the reserved memory and
  places the kernel heap in it; \<open>init_mem_zones\<close> then makes a frame allocator of each usable entry,
  divided at zone boundaries. A frame allocator is a bitmap and a spin lock, so its lemmas come from
  \<open>Bitmap\<close> and the pairing of lock and unlock from \<open>Mutex\<close>. Pages are allocated from the zones in
  order of preference and released through their reference counts. This theory holds what spans these
  parts.

  \<^bold>\<open>What the theorems show.\<close> For every component: that its operations return on well-formed states
  and keep them well-formed, and what they compute in terms of sets, sequences and maps. Several
  theorems state what the code does where that is not what it means to do; their comments say so.

  \<^bold>\<open>Bounds.\<close> The zeroed bitmap of \<open>bitmap_init_spec\<close> has at most 4194304 bits, the limit of the
  allocation behind it. Mutual exclusion is shown for fewer than 2^32 steps, after which the recursion
  count may wrap. Searches for several frames are described up to 64 frames and in multiples of 64, the
  two branches of the search. The heap is described for alignments up to \<open>2^38\<close>; from \<open>2^39\<close> on the
  aligned address wraps. The traversal of page caches is described up to order 6: from order 7 on the
  shift \<open>i << n\<close> of an \<open>int\<close> leaves its range. Releases of page lists are described for 4 KiB pages:
  larger ones go through \<open>bitmap_clear_n\<close>, whose shift by 64 bits is undefined for a region that starts
  with a word.

  \<^bold>\<open>Not modelled.\<close> The boot loader, drivers, busses, USB, timers, interrupts and processor setup talk to
  hardware or firmware. The scheduler, processes, signals, system calls and program loading need
  preemption and address translation. Page tables and the virtual memory manager need a model of the
  MMU. The virtual file system and its file systems call each other through tables of functions.
  Formatted output works on variable arguments and floating-point numbers. Read-write
  locks and condition variables are stubs. Some ordinary code is left out as well: the red-black and
  interval trees, hash tables and sorting of \<open>src/lib\<close>, the parsers of the boot configuration and of HID
  report descriptors, the device registry, the key events and the thread queues. The contents of heap
  blocks, and printing, are left out everywhere.
\<close>

section \<open>Early initialisation and the heap\<close>

text \<open>
  C27: Early initialisation places the kernel heap directly behind the initrd, at the start of the
  reserved entry of the memory map, and moves the base of that entry behind the heap. The length of the
  entry, however, only shrinks by the heap and not by the initrd that was skipped as well: the entry
  from which the frame allocators are made later ends as many bytes behind the real end of the memory
  as the initrd has.
\<close>

theorem early_init_overruns:
  assumes "mm_early_init la kla b = Some (e, maps, heap)" "ucast (bi_kernel_phys_addr b) \<noteq> bi_initrd_addr b"
  shows "\<exists>old new n flags rest. bi_mem_map b ! em_reserved e = old \<and> em_map e ! em_reserved e = new \<and>
    maps = (KERNEL_HEAP_VA, bi_initrd_addr b + bi_initrd_size b, n, flags) # rest \<and>
    me_base new = bi_initrd_addr b + bi_initrd_size b + KERNEL_HEAP_SIZE \<and> em_end e = me_base old + me_size old \<and>
    me_base new + me_size new = em_end e + bi_initrd_size b"
proof -
  obtain old where old: "bi_mem_map b ! em_reserved e = old" "me_base old = bi_initrd_addr b" "em_end e = me_base old + me_size old"
    "em_map e ! em_reserved e = old\<lparr>me_base := bi_initrd_addr b + bi_initrd_size b + KERNEL_HEAP_SIZE, me_size := me_size old - KERNEL_HEAP_SIZE\<rparr>"
    "(maps, heap) = mm_init_kheap (bi_initrd_addr b + bi_initrd_size b) la kla"
    using mm_early_init_reserved [OF assms] by blast
  have "\<exists>n flags rest. maps = (KERNEL_HEAP_VA, bi_initrd_addr b + bi_initrd_size b, n, flags) # rest"
    using old(5) by (simp add: mm_init_kheap_def Let_def KERNEL_HEAP_SIZE_def BIGPAGE_SIZE_def SIZE_TO_PAGES_def split: if_splits)
  then show ?thesis using old(1-4) by auto
qed

theorem early_init_overruns_witness:
  "\<exists>e maps heap. mm_early_init 0x10 0x20 \<lparr>bi_kernel_phys_addr = 0x100000, bi_kernel_size = 0x200000,
       bi_mem_map = [\<lparr>me_type = 2, me_base = 0x100000, me_size = 0xF00000\<rparr>, \<lparr>me_type = 2, me_base = 0x1000000, me_size = 0x3F000000\<rparr>],
       bi_initrd_addr = 0x1000000, bi_initrd_size = 0x800000\<rparr> = Some (e, maps, heap) \<and>
     em_end e = 0x40000000 \<and> me_base (em_map e ! em_reserved e) + me_size (em_map e ! em_reserved e) = 0x40800000"
proof -
  let ?b = "\<lparr>bi_kernel_phys_addr = 0x100000, bi_kernel_size = 0x200000,
       bi_mem_map = [\<lparr>me_type = 2, me_base = 0x100000, me_size = 0xF00000\<rparr>, \<lparr>me_type = 2, me_base = 0x1000000, me_size = 0x3F000000\<rparr>],
       bi_initrd_addr = 0x1000000, bi_initrd_size = 0x800000\<rparr> :: boot_info"
  have "map_option (\<lambda>(e, _). em_reserved e) (mm_early_init 0x10 0x20 ?b) = Some 1" by code_simp
  then obtain e maps heap where e: "mm_early_init 0x10 0x20 ?b = Some (e, maps, heap)" "em_reserved e = 1"
    by (cases "mm_early_init 0x10 0x20 ?b") auto
  then show ?thesis using early_init_overruns [OF e(1)] by (auto simp: e(2))
qed

end
